(* ===== verification/Prelude.thy ===== *)
theory Prelude
  imports Main "HOL-Library.Word"
begin

text \<open>
  Shared vocabulary of the development: the machine integer types of the i686 target
  (\<open>uint8_t\<close>, \<open>uint16_t\<close>, \<open>uint32_t\<close> and \<open>size_t\<close>, \<open>uint64_t\<close>), the type of outcomes of an
  operation that can fail, and generic facts on words, lists and counting that several
  components use. Nothing in this theory models code of the kernel.
\<close>

unbundle bit_operations_syntax

type_synonym u8 = "8 word"
type_synonym u16 = "16 word"
type_synonym u32 = "32 word"
type_synonym u64 = "64 word"

text \<open>
  How an operation of the kernel can end without returning to its caller. \<open>Hang\<close> is a loop
  that never leaves (\<^verbatim>\<open>for (;;);\<close>, \<^verbatim>\<open>hlt\<close> for ever), \<open>Wild\<close> an access the C++ standard leaves
  undefined (an index outside an array, a null or unmapped pointer that is dereferenced).
\<close>

datatype stop = Hang | Wild

type_synonym 'a outcome = "stop + 'a"

fun bind_outcome :: "'a outcome \<Rightarrow> ('a \<Rightarrow> 'b outcome) \<Rightarrow> 'b outcome" where
  "bind_outcome (Inl e) f = Inl e"
| "bind_outcome (Inr x) f = f x"

lemma bind_outcome_Inr_iff:
  "bind_outcome r f = Inr y \<longleftrightarrow> (\<exists>x. r = Inr x \<and> f x = Inr y)"
  by (cases r) auto

lemma bind_outcome_assoc:
  "bind_outcome (bind_outcome r f) g = bind_outcome r (\<lambda>x. bind_outcome (f x) g)"
  by (cases r) auto

text \<open>Rewrite rules that move a word inequality or an operation to \<open>nat\<close>.\<close>

named_theorems to_nat

lemmas [to_nat] =
  word_less_nat_alt word_le_nat_alt unat_plus_if' unat_sub_if' unat_div unat_mod

lemma unat_add_small:
  fixes x y :: "'a::len word"
  assumes "unat x + unat y < 2 ^ LENGTH('a)"
  shows "unat (x + y) = unat x + unat y"
  using assms by (simp add: unat_word_ariths)

lemma unat_mult_small:
  fixes x y :: "'a::len word"
  assumes "unat x * unat y < 2 ^ LENGTH('a)"
  shows "unat (x * y) = unat x * unat y"
  using assms by (simp add: unat_word_ariths)

lemma unat_of_nat_small:
  assumes "n < 2 ^ LENGTH('a)"
  shows "unat (of_nat n :: 'a::len word) = n"
  using assms by (simp add: unat_of_nat)

lemma unat_u32_bound [simp]: "unat (x :: u32) < 4294967296"
  using unsigned_less [of x] by simp

lemma unat_u16_bound [simp]: "unat (x :: u16) < 65536"
  using unsigned_less [of x] by simp

lemma unat_u8_bound [simp]: "unat (x :: u8) < 256"
  using unsigned_less [of x] by simp

lemma of_nat_unat_inverse [simp]: "of_nat (unat x) = (x :: 'a::len word)"
  by simp

lemma word_eq_nat: "(x :: 'a::len word) = y \<longleftrightarrow> unat x = unat y"
  by (simp add: word_unat_eq_iff)

text \<open>The conversion of an \<open>int\<close> to \<open>char\<close>: the low byte.\<close>

definition char_of_int :: "u32 \<Rightarrow> char" where
  "char_of_int n = char_of (unat (ucast n :: u8))"

lemma sint_u32: "sint n = (if uint n < 2147483648 then uint n else uint n - 4294967296)" for n :: u32
proof -
  have t: "take_bit 32 (uint n) = uint n"
    using uint_lt2p [of n] by (simp add: take_bit_int_eq_self)
  have b: "bit (uint n) 31 \<longleftrightarrow> 2147483648 \<le> uint n"
  proof -
    have "uint n div 2147483648 = (if 2147483648 \<le> uint n then 1 else 0)"
      using uint_lt2p [of n] uint_ge_0 [of n] by (auto simp: div_pos_pos_trivial intro: int_div_pos_eq [of _ _ _ "uint n - 2147483648"])
    then show ?thesis
      by (simp add: bit_iff_odd)
  qed
  show ?thesis
    by (simp add: sint_uint signed_take_bit_eq_take_bit_minus t b)
qed

lemma unat_minus_signed:
  fixes n :: u32
  assumes "sint n < 0"
  shows "unat (- n) = nat (- sint n)"
proof -
  have "uint n \<noteq> 0" and s: "sint n = uint n - 4294967296"
    using assms by (auto simp: sint_u32 split: if_splits)
  then have "uint (- n) = 4294967296 - uint n"
    using uint_lt2p [of n] by (simp add: uint_word_ariths zmod_zminus1_eq_if)
  with s show ?thesis
    by (simp add: unat_eq_nat_uint)
qed

section \<open>Loops over an array\<close>

text \<open>
  An array that a loop fills or moves is a function of the index; the loop
  \<^verbatim>\<open>for (i = 0; i < n; i++)\<close> is a \<open>fold\<close> over \<open>[0..<n]\<close>.
\<close>

lemma fold_fill_block:
  "fold (\<lambda>x b. b(k + x := v)) [0..<n] b = (\<lambda>i. if k \<le> i \<and> i < k + n then v else b i)"
  for b :: "nat \<Rightarrow> 'a"
  by (induction n) (auto simp: fun_eq_iff)

lemma fold_copy_block:
  fixes b :: "nat \<Rightarrow> 'a"
  assumes "n \<le> d"
  shows "fold (\<lambda>x b. b(k + x := b (k + d + x))) [0..<n] b =
    (\<lambda>i. if k \<le> i \<and> i < k + n then b (i + d) else b i)"
  using assms
proof (induction n)
  case (Suc n)
  then show ?case by (auto simp: fun_eq_iff less_Suc_eq algebra_simps)
qed (auto simp: fun_eq_iff)

lemma fold_rows:
  fixes b :: "nat \<Rightarrow> 'a"
  assumes step: "\<And>y b. y < m \<Longrightarrow> f y b = (\<lambda>i. if w * y \<le> i \<and> i < w * y + w then g b i else b i)"
    and local: "\<And>b c i. (\<And>j. i \<le> j \<Longrightarrow> b j = c j) \<Longrightarrow> g b i = g c i"
  shows "fold f [0..<m] b = (\<lambda>i. if i < w * m then g b i else b i)"
  using step
proof (induction m)
  case (Suc m)
  let ?c = "\<lambda>i. if i < w * m then g b i else b i"
  have c: "g ?c i = g b i" if "w * m \<le> i" for i
    using that by (intro local) simp
  have "fold f [0..<Suc m] b = f m ?c"
    using Suc by simp
  also have "\<dots> = (\<lambda>i. if i < w * Suc m then g b i else b i)"
    using Suc.prems [of m ?c] c by (auto simp: fun_eq_iff)
  finally show ?case .
qed simp

end
