(* ===== verification/IoPorts.thy ===== *)
theory IoPorts
  imports Prelude
begin

text \<open>
  Port input and output (\<^verbatim>\<open>cpu/io.cpp\<close>) and the interrupt controllers
  (\<^verbatim>\<open>cpu/pic.cpp\<close>). The devices behind the ports are not code of the
  repository: what a read returns is the field \<open>device\<close>, an arbitrary function of the port
  and of everything that was read and written before, and the field \<open>io_log\<close> records that
  history in order.
\<close>

datatype io_event = Out u16 u8 | In u16 u8

record hw =
  device :: "io_event list \<Rightarrow> u16 \<Rightarrow> u8"
  io_log :: "io_event list"

definition outb :: "u16 \<Rightarrow> u8 \<Rightarrow> 'a hw_scheme \<Rightarrow> 'a hw_scheme" where
  "outb port value s = s\<lparr>io_log := io_log s @ [Out port value]\<rparr>"

definition inb :: "u16 \<Rightarrow> 'a hw_scheme \<Rightarrow> u8 \<times> 'a hw_scheme" where
  "inb port s =
     (let ret = device s (io_log s) port
      in (ret, s\<lparr>io_log := io_log s @ [In port ret]\<rparr>))"

definition io_wait :: "'a hw_scheme \<Rightarrow> 'a hw_scheme" where
  "io_wait s = outb 0x80 0 s"

text \<open>The state in which the boot loader hands over: nothing has been read or written yet.\<close>

definition boot_hw :: hw where
  "boot_hw = \<lparr>device = (\<lambda>_ _. 0), io_log = []\<rparr>"

section \<open>The interrupt controllers\<close>

definition PIC1_COMMAND :: u16 where "PIC1_COMMAND = 0x20"
definition PIC1_DATA :: u16 where "PIC1_DATA = 0x21"
definition PIC2_COMMAND :: u16 where "PIC2_COMMAND = 0xA0"
definition PIC2_DATA :: u16 where "PIC2_DATA = 0xA1"
definition ICW1_ICW4 :: u8 where "ICW1_ICW4 = 0x01"
definition ICW1_INIT :: u8 where "ICW1_INIT = 0x10"
definition ICW4_8086 :: u8 where "ICW4_8086 = 0x01"

lemmas pic_constants =
  PIC1_COMMAND_def PIC1_DATA_def PIC2_COMMAND_def PIC2_DATA_def
  ICW1_ICW4_def ICW1_INIT_def ICW4_8086_def

text \<open>The offsets are \<open>int\<close> in the code and narrowed to a byte by the call of \<open>outb\<close>.\<close>

definition pic_remap :: "u32 \<Rightarrow> u32 \<Rightarrow> 'a hw_scheme \<Rightarrow> 'a hw_scheme" where
  "pic_remap offset1 offset2 s =
     (let (a1, s) = inb PIC1_DATA s;
          (a2, s) = inb PIC2_DATA s;
          s = io_wait (outb PIC1_COMMAND (ICW1_INIT OR ICW1_ICW4) s);
          s = io_wait (outb PIC2_COMMAND (ICW1_INIT OR ICW1_ICW4) s);
          s = io_wait (outb PIC1_DATA (ucast offset1) s);
          s = io_wait (outb PIC2_DATA (ucast offset2) s);
          s = io_wait (outb PIC1_DATA 4 s);
          s = io_wait (outb PIC2_DATA 2 s);
          s = io_wait (outb PIC1_DATA ICW4_8086 s);
          s = io_wait (outb PIC2_DATA ICW4_8086 s);
          s = outb PIC1_DATA a1 s;
          s = outb PIC2_DATA a2 s
      in s)"

definition pic_eoi :: "u8 \<Rightarrow> 'a hw_scheme \<Rightarrow> 'a hw_scheme" where
  "pic_eoi irq s =
     (let s = (if 8 \<le> irq then outb PIC2_COMMAND 0x20 s else s)
      in outb PIC1_COMMAND 0x20 s)"

section \<open>What the controllers see\<close>

text \<open>The bytes written to one port, in order, in a stretch of the history.\<close>

definition port_writes :: "u16 \<Rightarrow> io_event list \<Rightarrow> u8 list" where
  "port_writes p es = concat (map (\<lambda>e. case e of Out q v \<Rightarrow> (if q = p then [v] else []) | In _ _ \<Rightarrow> []) es)"

lemma port_writes_simps [simp]:
  "port_writes p [] = []"
  "port_writes p (Out q v # es) = (if q = p then v # port_writes p es else port_writes p es)"
  "port_writes p (In q v # es) = port_writes p es"
  by (simp_all add: port_writes_def)

lemma port_writes_append [simp]:
  "port_writes p (es @ fs) = port_writes p es @ port_writes p fs"
  by (simp add: port_writes_def)

lemma io_log_outb [simp]: "io_log (outb p v s) = io_log s @ [Out p v]"
  by (simp add: outb_def)

lemma io_log_io_wait [simp]: "io_log (io_wait s) = io_log s @ [Out 0x80 0]"
  by (simp add: io_wait_def)

lemma device_outb [simp]: "device (outb p v s) = device s"
  by (simp add: outb_def)

lemma io_log_inb [simp]: "io_log (snd (inb p s)) = io_log s @ [In p (fst (inb p s))]"
  by (simp add: inb_def Let_def)

text \<open>
  The initialisation of the controllers: both masks are read first, each controller gets
  ICW1 on its command port, then its vector offset, its cascade word, ICW4 and its own old
  mask on its data port, in that order.
\<close>

lemma pic_remap_log:
  obtains a1 a2 new where
    "io_log (pic_remap o1 o2 s) = io_log s @ In PIC1_DATA a1 # In PIC2_DATA a2 # new"
    "port_writes PIC1_COMMAND new = [ICW1_INIT OR ICW1_ICW4]"
    "port_writes PIC1_DATA new = [ucast o1, 4, ICW4_8086, a1]"
    "port_writes PIC2_COMMAND new = [ICW1_INIT OR ICW1_ICW4]"
    "port_writes PIC2_DATA new = [ucast o2, 2, ICW4_8086, a2]"
proof -
  let ?r1 = "inb PIC1_DATA s"
  let ?a1 = "fst ?r1" and ?s1 = "snd ?r1"
  let ?a2 = "fst (inb PIC2_DATA ?s1)"
  let ?w = "Out 0x80 0"
  let ?i = "ICW1_INIT OR ICW1_ICW4"
  let ?new = "[Out PIC1_COMMAND ?i, ?w, Out PIC2_COMMAND ?i, ?w,
    Out PIC1_DATA (ucast o1), ?w, Out PIC2_DATA (ucast o2), ?w, Out PIC1_DATA 4, ?w,
    Out PIC2_DATA 2, ?w, Out PIC1_DATA ICW4_8086, ?w, Out PIC2_DATA ICW4_8086, ?w,
    Out PIC1_DATA ?a1, Out PIC2_DATA ?a2]"
  have "io_log (pic_remap o1 o2 s) = io_log s @ In PIC1_DATA ?a1 # In PIC2_DATA ?a2 # ?new"
    by (simp add: pic_remap_def Let_def case_prod_beta)
  then show thesis
    by (rule that) (simp_all add: pic_constants)
qed

text \<open>
  Pic_remap reads both masks, sends each controller ICW1 on its command port and its vector
  offset, cascade word, ICW4 and old mask on its data port, in that order.
\<close>

theorem pic_remap_programs:
  "\<exists>a1 a2 new. io_log (pic_remap o1 o2 s) = io_log s @ In PIC1_DATA a1 # In PIC2_DATA a2 # new \<and>
     port_writes PIC1_COMMAND new = [ICW1_INIT OR ICW1_ICW4] \<and>
     port_writes PIC1_DATA new = [ucast o1, 4, ICW4_8086, a1] \<and>
     port_writes PIC2_COMMAND new = [ICW1_INIT OR ICW1_ICW4] \<and>
     port_writes PIC2_DATA new = [ucast o2, 2, ICW4_8086, a2]"
  using pic_remap_log [of o1 o2 s] by metis

text \<open>
  Pic_eoi acknowledges the master always and the slave exactly for interrupts 8 to 15.
\<close>

theorem pic_eoi_acknowledges:
  "\<exists>new. io_log (pic_eoi irq s) = io_log s @ new \<and>
     port_writes PIC1_COMMAND new = [0x20] \<and>
     port_writes PIC2_COMMAND new = (if 8 \<le> unat irq then [0x20] else [])"
  by (auto simp: pic_eoi_def Let_def pic_constants word_le_nat_alt)

end
