(* ===== verification/Spinlock.thy ===== *)
theory Spinlock
  imports Prelude
begin

text \<open>
  The spinlock (\<^verbatim>\<open>kernel/spinlock.cpp\<close>). First the two functions as one thread of control
  executes them: \<open>spin\<close> is the loop over the atomic exchange, and it returns exactly when the
  lock was free. Then the interleaving of several tasks on one CPU, where a task can be
  preempted while it holds the lock, unless it runs with interrupts disabled.
\<close>

section \<open>The lock as one thread executes it\<close>

text \<open>\<^verbatim>\<open>__sync_lock_test_and_set (lock, 1)\<close>: the old value, and 1 stored.\<close>

definition test_and_set :: "u32 \<Rightarrow> u32 \<times> u32" where
  "test_and_set lock = (lock, 1)"

partial_function (option) spin :: "u32 \<Rightarrow> u32 option" where
  "spin lock = (case test_and_set lock of (old, lock') \<Rightarrow> if old \<noteq> 0 then spin lock' else Some lock')"

definition spinlock_acquire :: "u32 \<Rightarrow> u32 outcome" where
  "spinlock_acquire lock = (case spin lock of None \<Rightarrow> Inl Hang | Some lock' \<Rightarrow> Inr lock')"

definition spinlock_release :: "u32 \<Rightarrow> u32" where
  "spinlock_release lock = 0"

lemma spin_free: "spin 0 = Some 1"
  by (simp add: spin.simps test_and_set_def)

lemma spin_returns_free:
  assumes ret: "spin lock = Some lock'"
  shows "lock = 0 \<and> lock' = 1"
proof (rule spin.raw_induct [where P = "\<lambda>l l'. l = 0 \<and> l' = 1", OF _ ret])
  fix f l l'
  assume IH: "\<And>l l'. f l = Some l' \<Longrightarrow> l = 0 \<and> l' = 1"
    and eq: "(case test_and_set l of (old, n) \<Rightarrow> if old \<noteq> 0 then f n else Some n) = Some l'"
  show "l = 0 \<and> l' = 1"
    using eq IH [of 1 l'] by (auto simp: test_and_set_def split: if_splits)
qed

lemma spin_held: "lock \<noteq> 0 \<Longrightarrow> spin lock = None"
  using spin_returns_free by (cases "spin lock") auto

lemma spinlock_acquire_cases:
  "spinlock_acquire lock = (if lock = 0 then Inr 1 else Inl Hang)"
  by (simp add: spinlock_acquire_def spin_free spin_held)

section \<open>Tasks that share a lock on one CPU\<close>

text \<open>
  Each task is outside, inside the loop of \<open>spinlock_acquire\<close>, or between its return and
  \<open>spinlock_release\<close>. Only the running task moves. The timer can hand the CPU to any task,
  but not while the running task has interrupts disabled, as in the handler of
  \<^verbatim>\<open>int 0x80\<close>, which is entered through an interrupt gate and executes \<^verbatim>\<open>cli\<close>.
\<close>

datatype phase = Outside | Spinning | Holding

record lock_sys =
  lock_word :: u32
  phase_of :: "nat \<Rightarrow> phase"
  masked :: "nat \<Rightarrow> bool"
  running :: nat

definition lock_sys_init :: "lock_sys \<Rightarrow> bool" where
  "lock_sys_init s \<longleftrightarrow> lock_word s = 0 \<and> (\<forall>i. phase_of s i = Outside)"

inductive lock_step :: "lock_sys \<Rightarrow> lock_sys \<Rightarrow> bool" where
  enter: "phase_of s (running s) = Outside \<Longrightarrow>
    lock_step s (s\<lparr>phase_of := (phase_of s)(running s := Spinning)\<rparr>)"
| take: "phase_of s (running s) = Spinning \<Longrightarrow> test_and_set (lock_word s) = (0, l) \<Longrightarrow>
    lock_step s (s\<lparr>lock_word := l, phase_of := (phase_of s)(running s := Holding)\<rparr>)"
| again: "phase_of s (running s) = Spinning \<Longrightarrow> test_and_set (lock_word s) = (v, l) \<Longrightarrow> v \<noteq> 0 \<Longrightarrow>
    lock_step s (s\<lparr>lock_word := l\<rparr>)"
| leave: "phase_of s (running s) = Holding \<Longrightarrow>
    lock_step s (s\<lparr>lock_word := spinlock_release (lock_word s),
      phase_of := (phase_of s)(running s := Outside)\<rparr>)"
| mask: "phase_of s (running s) = Outside \<Longrightarrow>
    lock_step s (s\<lparr>masked := (masked s)(running s := b)\<rparr>)"
| preempt: "\<not> masked s (running s) \<Longrightarrow> lock_step s (s\<lparr>running := j\<rparr>)"

definition lock_inv :: "lock_sys \<Rightarrow> bool" where
  "lock_inv s \<longleftrightarrow>
     (\<forall>i j. phase_of s i = Holding \<longrightarrow> phase_of s j = Holding \<longrightarrow> i = j) \<and>
     (lock_word s = 0 \<longleftrightarrow> (\<forall>i. phase_of s i \<noteq> Holding))"

lemma lock_inv_init: "lock_sys_init s \<Longrightarrow> lock_inv s"
  by (simp add: lock_sys_init_def lock_inv_def)

lemma lock_step_inv: "lock_step s t \<Longrightarrow> lock_inv s \<Longrightarrow> lock_inv t"
proof (induction rule: lock_step.induct)
  case (enter s)
  then show ?case by (force simp: lock_inv_def)
next
  case (take s l)
  then show ?case by (auto simp: lock_inv_def test_and_set_def)
next
  case (again s v l)
  then show ?case by (auto simp: lock_inv_def test_and_set_def)
next
  case (leave s)
  then show ?case by (auto simp: lock_inv_def spinlock_release_def)
qed (auto simp: lock_inv_def)

lemma lock_steps_inv: "lock_step\<^sup>*\<^sup>* s t \<Longrightarrow> lock_inv s \<Longrightarrow> lock_inv t"
  by (induction rule: rtranclp_induct) (auto dest: lock_step_inv)

text \<open>
  A task that spins with interrupts disabled while another task holds the lock: the CPU can
  execute nothing but its loop.
\<close>

definition stuck :: "lock_sys \<Rightarrow> bool" where
  "stuck s \<longleftrightarrow> phase_of s (running s) = Spinning \<and> masked s (running s) \<and> lock_word s \<noteq> 0"

lemma stuck_step: "lock_step s t \<Longrightarrow> stuck s \<Longrightarrow> stuck t \<and> running t = running s \<and> phase_of t = phase_of s"
  by (induction rule: lock_step.induct) (auto simp: stuck_def test_and_set_def)

lemma stuck_steps:
  "lock_step\<^sup>*\<^sup>* s t \<Longrightarrow> stuck s \<Longrightarrow> stuck t \<and> running t = running s \<and> phase_of t = phase_of s"
  by (induction rule: rtranclp_induct) (use stuck_step in metis)+


definition two_tasks :: lock_sys where
  "two_tasks = \<lparr>lock_word = 0, phase_of = (\<lambda>_. Outside), masked = (\<lambda>_. False), running = 0\<rparr>"

definition two_tasks_held :: lock_sys where
  "two_tasks_held = two_tasks\<lparr>lock_word := 1, phase_of := (\<lambda>_. Outside)(0 := Holding)\<rparr>"

definition two_tasks_stuck :: lock_sys where
  "two_tasks_stuck =
     \<lparr>lock_word = 1, phase_of = (\<lambda>_. Outside)(0 := Holding, 1 := Spinning),
      masked = (\<lambda>_. False)(1 := True), running = 1\<rparr>"

lemma two_tasks_init: "lock_sys_init two_tasks"
  by (simp add: two_tasks_def lock_sys_init_def)

lemma two_tasks_take: "lock_step\<^sup>*\<^sup>* two_tasks two_tasks_held"
proof -
  let ?a = "two_tasks\<lparr>phase_of := (\<lambda>_. Outside)(0 := Spinning)\<rparr>"
  have "lock_step two_tasks ?a"
    using lock_step.enter [of two_tasks] by (simp add: two_tasks_def)
  moreover have "lock_step ?a two_tasks_held"
    using lock_step.take [of ?a 1] by (simp add: two_tasks_def two_tasks_held_def test_and_set_def)
  ultimately show ?thesis
    by (blast intro: converse_rtranclp_into_rtranclp)
qed

lemma two_tasks_block: "lock_step\<^sup>*\<^sup>* two_tasks_held two_tasks_stuck"
proof -
  let ?b = "two_tasks_held\<lparr>running := 1\<rparr>"
  let ?c = "?b\<lparr>masked := (\<lambda>_. False)(1 := True)\<rparr>"
  have "lock_step two_tasks_held ?b"
    by (rule lock_step.preempt) (simp add: two_tasks_held_def two_tasks_def)
  moreover have "lock_step ?b ?c"
    using lock_step.mask [of ?b True] by (simp add: two_tasks_held_def two_tasks_def)
  moreover have "lock_step ?c two_tasks_stuck"
    using lock_step.enter [of ?c]
    by (simp add: two_tasks_held_def two_tasks_def two_tasks_stuck_def)
  ultimately show ?thesis
    by (meson converse_rtranclp_into_rtranclp rtranclp.rtrancl_refl)
qed



end
