(* ===== verification/Tty.thy ===== *)
theory Tty
  imports IoPorts Spinlock
begin

text \<open>
  The VGA text terminal (\<^verbatim>\<open>drivers/tty.cpp\<close>, \<^verbatim>\<open>kernel/tty.h\<close>). The state holds the static
  variables of the driver; \<open>terminal_buffer\<close> is the cell array at \<^verbatim>\<open>0xB8000\<close> as a function of
  the index. Row and column are \<open>nat\<close>: the invariant keeps them below 25 and 80, so the
  wrap-around of \<^verbatim>\<open>size_t\<close> plays no part. A write goes through the lock, so it is an outcome:
  \<open>Inl Hang\<close> when the lock is already held by the thread that spins on it.

  The driver is proved to implement a screen of 2000 cells and one linear cursor
  (\<open>screen_put\<close>), and to keep its writes inside the screen.
\<close>

datatype vga_color =
  VGA_COLOR_BLACK | VGA_COLOR_BLUE | VGA_COLOR_GREEN | VGA_COLOR_CYAN
| VGA_COLOR_RED | VGA_COLOR_MAGENTA | VGA_COLOR_BROWN | VGA_COLOR_LIGHT_GREY
| VGA_COLOR_DARK_GREY | VGA_COLOR_LIGHT_BLUE | VGA_COLOR_LIGHT_GREEN | VGA_COLOR_LIGHT_CYAN
| VGA_COLOR_LIGHT_RED | VGA_COLOR_LIGHT_MAGENTA | VGA_COLOR_LIGHT_BROWN | VGA_COLOR_WHITE

primrec vga_code :: "vga_color \<Rightarrow> u8" where
  "vga_code VGA_COLOR_BLACK = 0"
| "vga_code VGA_COLOR_BLUE = 1"
| "vga_code VGA_COLOR_GREEN = 2"
| "vga_code VGA_COLOR_CYAN = 3"
| "vga_code VGA_COLOR_RED = 4"
| "vga_code VGA_COLOR_MAGENTA = 5"
| "vga_code VGA_COLOR_BROWN = 6"
| "vga_code VGA_COLOR_LIGHT_GREY = 7"
| "vga_code VGA_COLOR_DARK_GREY = 8"
| "vga_code VGA_COLOR_LIGHT_BLUE = 9"
| "vga_code VGA_COLOR_LIGHT_GREEN = 10"
| "vga_code VGA_COLOR_LIGHT_CYAN = 11"
| "vga_code VGA_COLOR_LIGHT_RED = 12"
| "vga_code VGA_COLOR_LIGHT_MAGENTA = 13"
| "vga_code VGA_COLOR_LIGHT_BROWN = 14"
| "vga_code VGA_COLOR_WHITE = 15"

definition vga_entry_color :: "vga_color \<Rightarrow> vga_color \<Rightarrow> u8" where
  "vga_entry_color fg bg = vga_code fg OR push_bit 4 (vga_code bg)"

definition vga_entry :: "char \<Rightarrow> u8 \<Rightarrow> u16" where
  "vga_entry uc color = of_char uc OR push_bit 8 (ucast color)"

definition VGA_WIDTH :: nat where "VGA_WIDTH = 80"
definition VGA_HEIGHT :: nat where "VGA_HEIGHT = 25"

lemmas vga_size = VGA_WIDTH_def VGA_HEIGHT_def

record tty = hw +
  terminal_row :: nat
  terminal_column :: nat
  terminal_color :: u8
  terminal_buffer :: "nat \<Rightarrow> u16"
  tty_lock :: u32

section \<open>The operations of the driver\<close>

definition update_cursor :: "'a tty_scheme \<Rightarrow> 'a tty_scheme" where
  "update_cursor s =
     (let pos = of_nat (terminal_row s * VGA_WIDTH + terminal_column s) :: u16;
          s = outb 0x3D4 0x0F s;
          s = outb 0x3D5 (ucast (pos AND 0xFF)) s;
          s = outb 0x3D4 0x0E s
      in outb 0x3D5 (ucast (drop_bit 8 pos AND 0xFF)) s)"

definition enable_cursor :: "u8 \<Rightarrow> u8 \<Rightarrow> 'a tty_scheme \<Rightarrow> 'a tty_scheme" where
  "enable_cursor cursor_start cursor_end s =
     (let s = outb 0x3D4 0x0A s;
          (v, s) = inb 0x3D5 s;
          s = outb 0x3D5 ((v AND 0xC0) OR cursor_start) s;
          s = outb 0x3D4 0x0B s;
          (v, s) = inb 0x3D5 s
      in outb 0x3D5 ((v AND 0xE0) OR cursor_end) s)"

definition terminal_initialize :: "'a tty_scheme \<Rightarrow> 'a tty_scheme" where
  "terminal_initialize s =
     (let color = vga_entry_color VGA_COLOR_MAGENTA VGA_COLOR_BLACK;
          buf = fold (\<lambda>y buf. fold (\<lambda>x buf.
                  buf(VGA_WIDTH * y + x := vga_entry (CHR '' '') color)) [0..<VGA_WIDTH] buf)
                [0..<VGA_HEIGHT] (terminal_buffer s);
          s = s\<lparr>terminal_row := 0, terminal_column := 0, terminal_color := color,
                terminal_buffer := buf\<rparr>
      in update_cursor (enable_cursor 0 15 s))"

definition terminal_setcolor_colors :: "vga_color \<Rightarrow> vga_color \<Rightarrow> 'a tty_scheme \<Rightarrow> 'a tty_scheme" where
  "terminal_setcolor_colors fg bg s = s\<lparr>terminal_color := vga_entry_color fg bg\<rparr>"

definition terminal_scroll :: "'a tty_scheme \<Rightarrow> 'a tty_scheme" where
  "terminal_scroll s =
     (let buf = fold (\<lambda>y buf. fold (\<lambda>x buf.
                  buf(VGA_WIDTH * y + x := buf (VGA_WIDTH * (y + 1) + x))) [0..<VGA_WIDTH] buf)
                [0..<VGA_HEIGHT - 1] (terminal_buffer s);
          buf = fold (\<lambda>x buf.
                  buf(VGA_WIDTH * (VGA_HEIGHT - 1) + x := vga_entry (CHR '' '') (terminal_color s)))
                [0..<VGA_WIDTH] buf
      in s\<lparr>terminal_buffer := buf\<rparr>)"

text \<open>\<^verbatim>\<open>if (++terminal_row == VGA_HEIGHT) { terminal_scroll (); terminal_row = VGA_HEIGHT - 1; }\<close>\<close>

definition next_row :: "'a tty_scheme \<Rightarrow> 'a tty_scheme" where
  "next_row s =
     (let s = s\<lparr>terminal_row := terminal_row s + 1\<rparr>
      in if terminal_row s = VGA_HEIGHT
         then (terminal_scroll s)\<lparr>terminal_row := VGA_HEIGHT - 1\<rparr> else s)"

abbreviation newline_char :: char where "newline_char \<equiv> CHR 0x0A"
abbreviation backspace_char :: char where "backspace_char \<equiv> CHR 0x08"

definition terminal_putchar_unlocked :: "char \<Rightarrow> 'a tty_scheme \<Rightarrow> 'a tty_scheme" where
  "terminal_putchar_unlocked c s =
     (if c = newline_char then update_cursor (next_row (s\<lparr>terminal_column := 0\<rparr>))
      else if c = backspace_char then
        (let s = (if terminal_column s > 0 then s\<lparr>terminal_column := terminal_column s - 1\<rparr>
                  else if terminal_row s > 0
                  then s\<lparr>terminal_row := terminal_row s - 1, terminal_column := VGA_WIDTH - 1\<rparr>
                  else s);
             index = terminal_row s * VGA_WIDTH + terminal_column s;
             s = s\<lparr>terminal_buffer :=
                   (terminal_buffer s)(index := vga_entry (CHR '' '') (terminal_color s))\<rparr>
         in update_cursor s)
      else
        (let index = terminal_row s * VGA_WIDTH + terminal_column s;
             s = s\<lparr>terminal_buffer :=
                   (terminal_buffer s)(index := vga_entry c (terminal_color s))\<rparr>;
             s = s\<lparr>terminal_column := terminal_column s + 1\<rparr>;
             s = (if terminal_column s = VGA_WIDTH then next_row (s\<lparr>terminal_column := 0\<rparr>) else s)
         in update_cursor s))"

definition terminal_putchar :: "char \<Rightarrow> 'a tty_scheme \<Rightarrow> 'a tty_scheme outcome" where
  "terminal_putchar c s =
     bind_outcome (spinlock_acquire (tty_lock s)) (\<lambda>l.
       let s = terminal_putchar_unlocked c (s\<lparr>tty_lock := l\<rparr>)
       in Inr (s\<lparr>tty_lock := spinlock_release (tty_lock s)\<rparr>))"

text \<open>The bytes \<^verbatim>\<open>data[0], \<dots>, data[size - 1]\<close> are given as a list.\<close>

definition terminal_write :: "string \<Rightarrow> 'a tty_scheme \<Rightarrow> 'a tty_scheme outcome" where
  "terminal_write data s =
     bind_outcome (spinlock_acquire (tty_lock s)) (\<lambda>l.
       let s = fold terminal_putchar_unlocked data (s\<lparr>tty_lock := l\<rparr>)
       in Inr (s\<lparr>tty_lock := spinlock_release (tty_lock s)\<rparr>))"

text \<open>The string is given as its characters before the terminating zero, \<^verbatim>\<open>strlen\<close> of them.\<close>

definition terminal_writestring :: "string \<Rightarrow> 'a tty_scheme \<Rightarrow> 'a tty_scheme outcome" where
  "terminal_writestring data s = terminal_write data s"

section \<open>The invariant\<close>

definition tty_inv :: "'a tty_scheme \<Rightarrow> bool" where
  "tty_inv s \<longleftrightarrow> terminal_row s < VGA_HEIGHT \<and> terminal_column s < VGA_WIDTH"

lemma update_cursor_frame [simp]:
  "terminal_row (update_cursor s) = terminal_row s"
  "terminal_column (update_cursor s) = terminal_column s"
  "terminal_color (update_cursor s) = terminal_color s"
  "terminal_buffer (update_cursor s) = terminal_buffer s"
  "tty_lock (update_cursor s) = tty_lock s"
  "device (update_cursor s) = device s"
  by (simp_all add: update_cursor_def outb_def Let_def)

lemma enable_cursor_frame [simp]:
  "terminal_row (enable_cursor a b s) = terminal_row s"
  "terminal_column (enable_cursor a b s) = terminal_column s"
  "terminal_color (enable_cursor a b s) = terminal_color s"
  "terminal_buffer (enable_cursor a b s) = terminal_buffer s"
  "tty_lock (enable_cursor a b s) = tty_lock s"
  by (simp_all add: enable_cursor_def outb_def inb_def Let_def)

lemma terminal_scroll_eq:
  "terminal_scroll s = s\<lparr>terminal_buffer := (\<lambda>i.
     if i < 1920 then terminal_buffer s (i + 80)
     else if i < 2000 then vga_entry (CHR '' '') (terminal_color s) else terminal_buffer s i)\<rparr>"
proof -
  let ?g = "\<lambda>(b :: nat \<Rightarrow> u16) i. b (i + 80)"
  have row: "fold (\<lambda>x buf. buf(80 * y + x := buf (80 * (y + 1) + x))) [0..<80] b =
      (\<lambda>i. if 80 * y \<le> i \<and> i < 80 * y + 80 then ?g b i else b i)" for y and b :: "nat \<Rightarrow> u16"
    using fold_copy_block [of 80 80 "80 * y" b] by (simp add: algebra_simps)
  have "fold (\<lambda>y buf. fold (\<lambda>x buf. buf(80 * y + x := buf (80 * (y + 1) + x))) [0..<80] buf)
      [0..<24] (terminal_buffer s) = (\<lambda>i. if i < 80 * 24 then ?g (terminal_buffer s) i
        else terminal_buffer s i)"
    by (rule fold_rows [where g = ?g]) (use row in simp_all)
  then show ?thesis
    using fold_fill_block [of 1920 "vga_entry (CHR '' '') (terminal_color s)" 80]
    by (auto simp: terminal_scroll_def Let_def vga_size fun_eq_iff)
qed

lemma terminal_scroll_frame [simp]:
  "terminal_row (terminal_scroll s) = terminal_row s"
  "terminal_column (terminal_scroll s) = terminal_column s"
  "terminal_color (terminal_scroll s) = terminal_color s"
  "tty_lock (terminal_scroll s) = tty_lock s"
  by (simp_all add: terminal_scroll_eq)

lemma next_row_frame [simp]:
  "terminal_column (next_row s) = terminal_column s"
  "terminal_color (next_row s) = terminal_color s"
  "tty_lock (next_row s) = tty_lock s"
  by (simp_all add: next_row_def Let_def)

lemma next_row_row: "terminal_row (next_row s) = (if terminal_row s = 24 then 24 else terminal_row s + 1)"
  by (simp add: next_row_def Let_def vga_size)

lemma terminal_putchar_unlocked_frame [simp]:
  "terminal_color (terminal_putchar_unlocked c s) = terminal_color s"
  "tty_lock (terminal_putchar_unlocked c s) = tty_lock s"
  by (simp_all add: terminal_putchar_unlocked_def Let_def)

lemma terminal_putchar_unlocked_inv:
  "tty_inv s \<Longrightarrow> tty_inv (terminal_putchar_unlocked c s)"
  by (auto simp: tty_inv_def terminal_putchar_unlocked_def Let_def vga_size next_row_row)

lemma terminal_put_all_inv:
  "tty_inv s \<Longrightarrow> tty_inv (fold terminal_putchar_unlocked cs s)"
  by (induction cs arbitrary: s) (auto intro: terminal_putchar_unlocked_inv)

lemma terminal_put_all_frame [simp]:
  "terminal_color (fold terminal_putchar_unlocked cs s) = terminal_color s"
  "tty_lock (fold terminal_putchar_unlocked cs s) = tty_lock s"
  by (induction cs arbitrary: s) auto

text \<open>Output changes the log of port accesses, the cursor and the cells, and nothing else.\<close>

lemma terminal_putchar_unlocked_changes:
  "\<exists>l r c b. terminal_putchar_unlocked x s =
     s\<lparr>io_log := l, terminal_row := r, terminal_column := c, terminal_buffer := b\<rparr>"
proof -
  let ?t = "terminal_putchar_unlocked x s"
  have "?t = s\<lparr>io_log := io_log ?t, terminal_row := terminal_row ?t,
      terminal_column := terminal_column ?t, terminal_buffer := terminal_buffer ?t\<rparr>"
    by (cases s) (simp add: terminal_putchar_unlocked_def update_cursor_def outb_def
        next_row_def terminal_scroll_eq Let_def)
  then show ?thesis by blast
qed

lemma terminal_put_all_changes:
  "\<exists>l r c b. fold terminal_putchar_unlocked cs s =
     s\<lparr>io_log := l, terminal_row := r, terminal_column := c, terminal_buffer := b\<rparr>"
proof (induction cs arbitrary: s)
  case Nil
  then show ?case by (cases s) auto
next
  case (Cons x cs)
  obtain l r c b where "terminal_putchar_unlocked x s =
      s\<lparr>io_log := l, terminal_row := r, terminal_column := c, terminal_buffer := b\<rparr>"
    using terminal_putchar_unlocked_changes [of x s] by blast
  then show ?case
    using Cons.IH [of "terminal_putchar_unlocked x s"] by auto
qed

text \<open>The only ports that output touches are the two of the cursor.\<close>

definition cursor_log :: "io_event list \<Rightarrow> bool" where
  "cursor_log l \<longleftrightarrow> (\<forall>p. p \<notin> {0x3D4, 0x3D5} \<longrightarrow> port_writes p l = [])"

lemma terminal_putchar_unlocked_log:
  "\<exists>l. io_log (terminal_putchar_unlocked x s) = io_log s @ l \<and> cursor_log l"
proof -
  have u: "\<exists>l. io_log (update_cursor t) = io_log s @ l \<and> cursor_log l" if "io_log t = io_log s" for t
    using that by (simp add: update_cursor_def Let_def cursor_log_def)
  show ?thesis
    by (auto simp: terminal_putchar_unlocked_def Let_def next_row_def terminal_scroll_eq intro!: u)
qed

lemma terminal_put_all_log:
  "\<exists>l. io_log (fold terminal_putchar_unlocked cs s) = io_log s @ l \<and> cursor_log l"
proof (induction cs arbitrary: s)
  case Nil
  then show ?case by (simp add: cursor_log_def)
next
  case (Cons x cs)
  obtain l where "io_log (terminal_putchar_unlocked x s) = io_log s @ l \<and> cursor_log l"
    using terminal_putchar_unlocked_log by blast
  moreover obtain k where "io_log (fold terminal_putchar_unlocked cs (terminal_putchar_unlocked x s)) =
      io_log (terminal_putchar_unlocked x s) @ k \<and> cursor_log k"
    using Cons.IH by blast
  ultimately show ?case
    by (intro exI [of _ "l @ k"]) (simp add: cursor_log_def)
qed

section \<open>A screen with one linear cursor\<close>

text \<open>
  What the driver promises, without rows, columns or a hardware cursor: 2000 cells and a
  position below 2000. A character replaces the cell at the position and moves it on, a line
  feed moves it to the next multiple of 80, a backspace moves it back and blanks the cell;
  when the position reaches the end, the first 80 cells are dropped and 80 blanks appended.
\<close>

type_synonym screen = "u16 list \<times> nat"

definition blank :: "u8 \<Rightarrow> u16" where
  "blank color = vga_entry (CHR '' '') color"

fun screen_wrap :: "u8 \<Rightarrow> screen \<Rightarrow> screen" where
  "screen_wrap color (cells, pos) =
     (if pos < 2000 then (cells, pos) else (drop 80 cells @ replicate 80 (blank color), pos - 80))"

fun screen_put :: "u8 \<Rightarrow> char \<Rightarrow> screen \<Rightarrow> screen" where
  "screen_put color c (cells, pos) =
     (if c = newline_char then screen_wrap color (cells, 80 * (pos div 80 + 1))
      else if c = backspace_char then (cells[pos - 1 := blank color], pos - 1)
      else screen_wrap color (cells[pos := vga_entry c color], pos + 1))"

definition screen_cells :: "(nat \<Rightarrow> u16) \<Rightarrow> u16 list" where
  "screen_cells f = map f [0..<VGA_WIDTH * VGA_HEIGHT]"

definition tty_screen :: "'a tty_scheme \<Rightarrow> screen" where
  "tty_screen s = (screen_cells (terminal_buffer s), terminal_row s * VGA_WIDTH + terminal_column s)"

lemma length_screen_cells [simp]: "length (screen_cells f) = 2000"
  by (simp add: screen_cells_def vga_size del: upt_rec_numeral)

lemma nth_screen_cells [simp]: "i < 2000 \<Longrightarrow> screen_cells f ! i = f i"
  by (simp add: screen_cells_def vga_size del: upt_rec_numeral)

lemma screen_cells_upd: "screen_cells (f(k := v)) = (screen_cells f)[k := v]"
  by (rule nth_equalityI) (auto simp: nth_list_update)

lemma screen_cells_scroll:
  "screen_cells (terminal_buffer (terminal_scroll s)) =
     drop 80 (screen_cells (terminal_buffer s)) @ replicate 80 (blank (terminal_color s))"
  by (rule nth_equalityI) (auto simp: terminal_scroll_eq nth_append blank_def add.commute)

lemma tty_screen_update_cursor [simp]: "tty_screen (update_cursor s) = tty_screen s"
  by (simp add: tty_screen_def)

lemma tty_screen_next_row:
  assumes "terminal_row s < VGA_HEIGHT" and "terminal_column s = 0"
  shows "tty_screen (next_row s) = screen_wrap (terminal_color s)
    (screen_cells (terminal_buffer s), 80 * (terminal_row s + 1))"
  using assms
  by (auto simp: tty_screen_def next_row_def Let_def vga_size screen_cells_scroll)

lemma pos_div_80: "c < 80 \<Longrightarrow> (r * 80 + c) div 80 = (r :: nat)"
  by simp

lemma terminal_putchar_refines_screen_step:
  assumes "tty_inv s"
  shows "tty_screen (terminal_putchar_unlocked c s) = screen_put (terminal_color s) c (tty_screen s)"
proof -
  from assms have rc: "terminal_row s < 25" "terminal_column s < 80"
    by (simp_all add: tty_inv_def vga_size)
  consider (nl) "c = newline_char" | (bs) "c = backspace_char"
    | (chr) "c \<noteq> newline_char" "c \<noteq> backspace_char" by blast
  then show ?thesis
  proof cases
    case nl
    with rc show ?thesis
      by (simp add: terminal_putchar_unlocked_def tty_screen_next_row vga_size pos_div_80
          tty_screen_def [of s] del: screen_wrap.simps)
  next
    case bs
    have "(terminal_row s - Suc 0) * 80 + 79 = terminal_row s * 80 - Suc 0" if "0 < terminal_row s"
      using that by (cases "terminal_row s") auto
    with bs rc show ?thesis
      by (auto simp: terminal_putchar_unlocked_def Let_def tty_screen_def vga_size
          screen_cells_upd blank_def)
  next
    case chr
    let ?i = "terminal_row s * 80 + terminal_column s"
    let ?s1 = "s\<lparr>terminal_buffer := (terminal_buffer s)(?i := vga_entry c (terminal_color s))\<rparr>"
    show ?thesis
    proof (cases "terminal_column s + 1 = 80")
      case True
      with chr have "terminal_putchar_unlocked c s = update_cursor (next_row (?s1\<lparr>terminal_column := 0\<rparr>))"
        by (simp add: terminal_putchar_unlocked_def Let_def vga_size)
      then show ?thesis
        using chr rc True by (simp add: tty_screen_next_row vga_size screen_cells_upd
            tty_screen_def [of s] mult.commute del: screen_wrap.simps)
    next
      case False
      with chr rc show ?thesis
        by (simp add: terminal_putchar_unlocked_def Let_def tty_screen_def vga_size screen_cells_upd)
    qed
  qed
qed

lemma screen_put_all:
  "tty_inv s \<Longrightarrow> tty_screen (fold terminal_putchar_unlocked cs s) =
     fold (screen_put (terminal_color s)) cs (tty_screen s)"
proof (induction cs arbitrary: s)
  case (Cons c cs)
  have "tty_screen (terminal_putchar_unlocked c s) = screen_put (terminal_color s) c (tty_screen s)"
    using Cons.prems by (rule terminal_putchar_refines_screen_step)
  with Cons show ?case
    by (simp add: terminal_putchar_unlocked_inv)
qed simp

section \<open>Writing through the lock\<close>

lemma terminal_write_free:
  "tty_lock s = 0 \<Longrightarrow> terminal_write cs s =
     Inr ((fold terminal_putchar_unlocked cs (s\<lparr>tty_lock := 1\<rparr>))\<lparr>tty_lock := 0\<rparr>)"
  by (simp add: terminal_write_def spinlock_acquire_cases spinlock_release_def Let_def)

lemma terminal_write_held: "tty_lock s \<noteq> 0 \<Longrightarrow> terminal_write cs s = Inl Hang"
  by (simp add: terminal_write_def spinlock_acquire_cases)

lemma terminal_putchar_eq_write: "terminal_putchar c s = terminal_write [c] s"
  by (simp add: terminal_putchar_def terminal_write_def)

lemma tty_screen_lock [simp]: "tty_screen (s\<lparr>tty_lock := l\<rparr>) = tty_screen s"
  by (simp add: tty_screen_def)

lemma tty_inv_lock [simp]: "tty_inv (s\<lparr>tty_lock := l\<rparr>) = tty_inv s"
  by (simp add: tty_inv_def)

text \<open>The lock field is read and written by nothing inside the critical section.\<close>

lemma put_lock_commute:
  "terminal_putchar_unlocked c (s\<lparr>tty_lock := l\<rparr>) = (terminal_putchar_unlocked c s)\<lparr>tty_lock := l\<rparr>"
  by (cases s) (simp add: terminal_putchar_unlocked_def Let_def update_cursor_def outb_def
      next_row_def terminal_scroll_eq cong: if_cong)

lemma put_all_lock_commute:
  "fold terminal_putchar_unlocked cs (s\<lparr>tty_lock := l\<rparr>) =
     (fold terminal_putchar_unlocked cs s)\<lparr>tty_lock := l\<rparr>"
  by (induction cs arbitrary: s) (simp_all add: put_lock_commute)

lemma tty_lock_same: "tty_lock s = l \<Longrightarrow> s\<lparr>tty_lock := l\<rparr> = s"
  by (cases s) simp

lemma terminal_write_eq:
  "terminal_write cs s =
     (if tty_lock s = 0 then Inr (fold terminal_putchar_unlocked cs s) else Inl Hang)"
proof (cases "tty_lock s = 0")
  case True
  have "(fold terminal_putchar_unlocked cs s)\<lparr>tty_lock := 0\<rparr> = fold terminal_putchar_unlocked cs s"
    using True put_all_lock_commute [where cs = cs and s = s and l = 0]
    by (simp add: tty_lock_same)
  with True show ?thesis
    by (simp add: terminal_write_free put_all_lock_commute)
qed (simp add: terminal_write_held)

lemma terminal_write_append:
  "bind_outcome (terminal_write cs s) (terminal_write ds) = terminal_write (cs @ ds) s"
  by (simp add: terminal_write_eq)

text \<open>
  C19. with the lock free terminal_write returns and behaves like a screen of 2000 cells with one
  linear cursor: characters, line feeds, backspaces, wrapping and scrolling
\<close>

theorem terminal_write_refines_screen:
  assumes "tty_inv s" and "tty_lock s = 0"
  shows "\<exists>s'. terminal_write cs s = Inr s' \<and> tty_inv s' \<and> tty_lock s' = 0 \<and>
    terminal_color s' = terminal_color s \<and>
    tty_screen s' = fold (screen_put (terminal_color s)) cs (tty_screen s)"
  using assms by (simp add: terminal_write_eq terminal_put_all_inv screen_put_all)

text \<open>
  Terminal_initialize leaves a screen of 2000 blanks in the attribute it chose with the cursor at
  the origin.
\<close>

theorem terminal_initialize_blank:
  "tty_inv (terminal_initialize s) \<and>
   tty_screen (terminal_initialize s) = (replicate 2000 (blank 5), 0) \<and>
   tty_lock (terminal_initialize s) = tty_lock s"
proof -
  let ?v = "vga_entry (CHR '' '') (vga_entry_color VGA_COLOR_MAGENTA VGA_COLOR_BLACK)"
  have color: "vga_entry_color VGA_COLOR_MAGENTA VGA_COLOR_BLACK = 5"
    by (simp add: vga_entry_color_def)
  have row: "fold (\<lambda>x buf. buf(80 * y + x := ?v)) [0..<80] b =
      (\<lambda>i. if 80 * y \<le> i \<and> i < 80 * y + 80 then ?v else b i)" for y and b :: "nat \<Rightarrow> u16"
    by (rule fold_fill_block)
  have "fold (\<lambda>y buf. fold (\<lambda>x buf. buf(80 * y + x := ?v)) [0..<80] buf) [0..<25] b =
      (\<lambda>i. if i < 80 * 25 then ?v else b i)" for b :: "nat \<Rightarrow> u16"
    by (rule fold_rows [where g = "\<lambda>_ _. ?v"]) (use row in simp_all)
  then have "terminal_buffer (terminal_initialize s) = (\<lambda>i. if i < 2000 then ?v else terminal_buffer s i)"
    by (simp add: terminal_initialize_def Let_def vga_size del: upt_rec_numeral)
  then have "screen_cells (terminal_buffer (terminal_initialize s)) = replicate 2000 (blank 5)"
    by (intro nth_equalityI) (simp_all add: blank_def color)
  then show ?thesis
    by (simp add: tty_screen_def tty_inv_def vga_size terminal_initialize_def Let_def
        del: upt_rec_numeral)
qed

section \<open>The hardware cursor and the bounds of the writes\<close>

definition cursor_reports :: "io_event list \<Rightarrow> nat \<Rightarrow> bool" where
  "cursor_reports log pos \<longleftrightarrow> (\<exists>before lo hi.
     log = before @ [Out 0x3D4 0x0F, Out 0x3D5 lo, Out 0x3D4 0x0E, Out 0x3D5 hi] \<and>
     unat hi * 256 + unat lo = pos)"

lemma word_bytes: "unat (ucast (drop_bit 8 w AND 0xFF) :: u8) * 256 + unat (ucast (w AND 0xFF) :: u8) = unat w"
  for w :: u16
proof -
  have m: "v AND 0xFF = take_bit 8 v" for v :: u16
    by (simp add: take_bit_eq_mask mask_eq_exp_minus_1)
  have "unat w div 256 < 256"
    using unat_u16_bound [of w] by linarith
  then have "unat (ucast (drop_bit 8 w AND 0xFF) :: u8) = unat w div 256"
    by (simp add: m unsigned_ucast_eq unsigned_take_bit_eq unat_div unat_mod unat_drop_bit_eq drop_bit_eq_div take_bit_eq_mod)
  moreover have "unat (ucast (w AND 0xFF) :: u8) = unat w mod 256"
    by (simp add: m unsigned_ucast_eq unsigned_take_bit_eq unat_mod take_bit_eq_mod)
  ultimately show ?thesis
    by simp
qed

lemma update_cursor_reports:
  assumes "tty_inv s"
  shows "cursor_reports (io_log (update_cursor s)) (snd (tty_screen s))"
proof -
  let ?w = "of_nat (terminal_row s * 80 + terminal_column s) :: u16"
  have "unat ?w = terminal_row s * 80 + terminal_column s"
    using assms by (intro unat_of_nat_small) (simp add: tty_inv_def vga_size)
  then show ?thesis
    using word_bytes [of ?w]
    by (simp add: cursor_reports_def update_cursor_def Let_def tty_screen_def vga_size)
qed

lemma tty_inv_update_cursor [simp]: "tty_inv (update_cursor s) = tty_inv s"
  by (simp add: tty_inv_def)

lemma terminal_putchar_ends_with_cursor:
  "\<exists>t. terminal_putchar_unlocked c s = update_cursor t"
  by (auto simp: terminal_putchar_unlocked_def Let_def)

text \<open>
  After a write the last position programmed into the hardware cursor is the position of the
  abstract cursor and lies on the screen.
\<close>

theorem terminal_write_cursor:
  assumes "tty_inv s" and "tty_lock s = 0" and "cs \<noteq> []"
  shows "\<exists>s'. terminal_write cs s = Inr s' \<and>
    cursor_reports (io_log s') (snd (tty_screen s')) \<and> snd (tty_screen s') < 2000"
proof -
  let ?f = "fold terminal_putchar_unlocked (butlast cs) s"
  have "fold terminal_putchar_unlocked (butlast cs @ [last cs]) s =
      terminal_putchar_unlocked (last cs) ?f"
    by simp
  with assms(3) have last: "fold terminal_putchar_unlocked cs s =
      terminal_putchar_unlocked (last cs) ?f"
    by simp
  then obtain t where t: "fold terminal_putchar_unlocked cs s = update_cursor t"
    using terminal_putchar_ends_with_cursor by metis
  have "tty_inv (update_cursor t)"
    unfolding t [symmetric] using assms(1) by (rule terminal_put_all_inv)
  then have inv: "tty_inv t" by simp
  then have "snd (tty_screen t) < 2000"
    by (simp add: tty_screen_def tty_inv_def vga_size)
  with update_cursor_reports [OF inv] show ?thesis
    using assms(2) t by (simp add: terminal_write_eq)
qed

lemma next_row_cells:
  "2000 \<le> i \<Longrightarrow> terminal_buffer (next_row s) i = terminal_buffer s i"
  by (simp add: next_row_def Let_def terminal_scroll_eq)

lemma put_cells_outside:
  assumes "tty_inv s" and "2000 \<le> i"
  shows "terminal_buffer (terminal_putchar_unlocked c s) i = terminal_buffer s i"
proof -
  have "i \<noteq> r * 80 + k" if "r < 25" "k < 80" for r k
    using assms(2) that by linarith
  with assms show ?thesis
    by (auto simp: terminal_putchar_unlocked_def Let_def tty_inv_def vga_size next_row_cells)
qed

text \<open>
  A write never stores outside the 2000 cells of the screen.
\<close>

theorem terminal_write_stays_on_screen:
  assumes "tty_inv s" and "2000 \<le> i" and "terminal_write cs s = Inr s'"
  shows "terminal_buffer s' i = terminal_buffer s i"
proof -
  have "terminal_buffer (fold terminal_putchar_unlocked cs s) i = terminal_buffer s i"
    using assms(1)
  proof (induction cs arbitrary: s)
    case (Cons c cs)
    then show ?case
      using assms(2) by (simp add: terminal_putchar_unlocked_inv put_cells_outside)
  qed simp
  with assms(3) show ?thesis
    by (simp add: terminal_write_eq split: if_splits)
qed

section \<open>Instances\<close>

text \<open>The static variables of the driver as they are loaded: zero.\<close>

definition boot_tty :: tty where
  "boot_tty = hw.extend boot_hw (tty.fields 0 0 0 (\<lambda>_. 0) 0)"

lemma boot_tty_simps [simp]:
  "terminal_row boot_tty = 0" "terminal_column boot_tty = 0" "terminal_color boot_tty = 0"
  "terminal_buffer boot_tty i = 0" "tty_lock boot_tty = 0" "io_log boot_tty = []" "device boot_tty l p = 0"
  by (simp_all add: boot_tty_def boot_hw_def hw.defs tty.defs)

lemma boot_tty_inv [simp]: "tty_inv boot_tty"
  by (simp add: tty_inv_def vga_size)

text \<open>
  An instance of C19.
\<close>

theorem terminal_write_refines_screen_witness:
  "\<exists>s'. terminal_write ''Hi'' boot_tty = Inr s' \<and>
     tty_screen s' = fold (screen_put 0) ''Hi'' (tty_screen boot_tty)"
  using terminal_write_refines_screen [of boot_tty "''Hi''"] by auto

text \<open>
  An instance of the statement above.
\<close>

theorem terminal_write_cursor_witness:
  "\<exists>s'. terminal_write ''Hi'' boot_tty = Inr s' \<and> cursor_reports (io_log s') (snd (tty_screen s'))"
  using terminal_write_cursor [of boot_tty "''Hi''"] by auto

text \<open>
  An instance of the statement above.
\<close>

theorem terminal_write_stays_on_screen_witness:
  "\<exists>s'. terminal_write ''Hi'' boot_tty = Inr s' \<and> terminal_buffer s' 2000 = 0"
proof -
  obtain s' where s': "terminal_write ''Hi'' boot_tty = Inr s'"
    by (simp add: terminal_write_eq)
  then show ?thesis
    using terminal_write_stays_on_screen [of boot_tty 2000 "''Hi''" s'] by auto
qed

end
