(* ===== verification/Printf.thy ===== *)
theory Printf
  imports Tty
begin

text \<open>
  Formatted output (\<^verbatim>\<open>libc/stdio\<close>). \<open>printf\<close> is written against the one operation it uses,
  a function \<open>put\<close> that outputs a list of characters (\<^verbatim>\<open>terminal_write\<close> in the code); the
  locale \<open>text_sink\<close> is the contract of that operation, and the terminal provides it. A C
  string is given as its characters before the terminating zero; the variable arguments are
  a list, and a missing or mistyped one is undefined behaviour.

  \<open>printf\<close> is proved to write exactly the text of the specification \<open>render\<close>, which reads
  the arguments as mathematical integers, and to return its length.
\<close>

datatype parg = PStr "string option" | PInt u32

section \<open>printf\<close>

definition digit_chars :: string where
  "digit_chars = ''0123456789abcdef''"

text \<open>
  The loop that fills the buffer of \<open>print_unsigned\<close> from the last digit. The bases 0 and 1,
  for which the loop of the code traps or overruns its buffer, are excluded by its caller.
\<close>

function digits_loop :: "u32 \<Rightarrow> u32 \<Rightarrow> string \<Rightarrow> string" where
  "digits_loop n base buffer =
     (if 0 < n \<and> 1 < base
      then digits_loop (n div base) base (buffer @ [digit_chars ! unat (n mod base)])
      else buffer)"
  by pat_completeness auto
termination
proof (relation "measure (\<lambda>(n, base, buffer). unat n)")
  fix n base :: u32 and buffer :: string
  assume "0 < n \<and> 1 < base"
  then have "0 < unat n" and "1 < unat base"
    by (simp_all add: word_less_nat_alt)
  then show "((n div base, base, buffer @ [digit_chars ! unat (n mod base)]), n, base, buffer)
      \<in> measure (\<lambda>(n, base, buffer). unat n)"
    by (simp add: unat_div div_less_dividend)
qed simp

declare digits_loop.simps [simp del]

text \<open>\<^verbatim>\<open>while (i > 0) terminal_write (&buffer[--i], 1);\<close> over the characters in that order.\<close>

fun write_each :: "(string \<Rightarrow> 's \<Rightarrow> 's outcome) \<Rightarrow> string \<Rightarrow> 's \<Rightarrow> 's outcome" where
  "write_each put [] s = Inr s"
| "write_each put (c # cs) s = bind_outcome (put [c] s) (write_each put cs)"

definition print_unsigned ::
    "(string \<Rightarrow> 's \<Rightarrow> 's outcome) \<Rightarrow> u32 \<Rightarrow> u32 \<Rightarrow> 's \<Rightarrow> (u32 \<times> 's) outcome" where
  "print_unsigned put n base s =
     (if n = 0 then bind_outcome (put ''0'' s) (\<lambda>s. Inr (1, s))
      else if base \<le> 1 then Inl Wild
      else let buffer = digits_loop n base []
           in bind_outcome (write_each put (rev buffer) s)
                (\<lambda>s. Inr (of_nat (length buffer), s)))"

definition null_text :: string where
  "null_text = ''(null)''"

fun printf_loop ::
    "(string \<Rightarrow> 's \<Rightarrow> 's outcome) \<Rightarrow> string \<Rightarrow> parg list \<Rightarrow> u32 \<Rightarrow> 's \<Rightarrow> (u32 \<times> 's) outcome" where
  "printf_loop put [] args written s = Inr (written, s)"
| "printf_loop put (c # format) args written s =
     (if c \<noteq> CHR ''%'' then
        bind_outcome (put [c] s) (printf_loop put format args (written + 1))
      else (case format of
        [] \<Rightarrow> bind_outcome (put ''%'' s) (printf_loop put [] args (written + 1))
      | f # rest \<Rightarrow>
          if f = CHR ''%'' then
            bind_outcome (put ''%'' s) (printf_loop put rest args (written + 1))
          else if f = CHR ''s'' then
            (case args of
               PStr str # args' \<Rightarrow>
                 (let str = (case str of None \<Rightarrow> null_text | Some cs \<Rightarrow> cs)
                  in bind_outcome (put str s)
                       (printf_loop put rest args' (written + of_nat (length str))))
             | _ \<Rightarrow> Inl Wild)
          else if f = CHR ''c'' then
            (case args of
               PInt n # args' \<Rightarrow>
                 bind_outcome (put [char_of_int n] s)
                   (printf_loop put rest args' (written + 1))
             | _ \<Rightarrow> Inl Wild)
          else if f = CHR ''d'' \<or> f = CHR ''i'' then
            (case args of
               PInt n # args' \<Rightarrow>
                 (if n <s 0 then
                    bind_outcome (put ''-'' s) (\<lambda>s.
                      bind_outcome (print_unsigned put (- n) 10 s) (\<lambda>(k, s).
                        printf_loop put rest args' (written + 1 + k) s))
                  else
                    bind_outcome (print_unsigned put n 10 s) (\<lambda>(k, s).
                      printf_loop put rest args' (written + k) s))
             | _ \<Rightarrow> Inl Wild)
          else if f = CHR ''u'' then
            (case args of
               PInt n # args' \<Rightarrow>
                 bind_outcome (print_unsigned put n 10 s) (\<lambda>(k, s).
                   printf_loop put rest args' (written + k) s)
             | _ \<Rightarrow> Inl Wild)
          else if f = CHR ''x'' then
            (case args of
               PInt n # args' \<Rightarrow>
                 bind_outcome (print_unsigned put n 16 s) (\<lambda>(k, s).
                   printf_loop put rest args' (written + k) s)
             | _ \<Rightarrow> Inl Wild)
          else
            bind_outcome (put ''%'' s) (printf_loop put format args (written + 1))))"

definition printf :: "string \<Rightarrow> parg list \<Rightarrow> 'a tty_scheme \<Rightarrow> (u32 \<times> 'a tty_scheme) outcome" where
  "printf format args s = printf_loop terminal_write format args 0 s"

text \<open>The same call as a statement: the result is dropped.\<close>

definition print :: "string \<Rightarrow> parg list \<Rightarrow> 'a tty_scheme \<Rightarrow> 'a tty_scheme outcome" where
  "print format args s = bind_outcome (printf format args s) (\<lambda>(_, s). Inr s)"

definition puts :: "string \<Rightarrow> 'a tty_scheme \<Rightarrow> (u32 \<times> 'a tty_scheme) outcome" where
  "puts str s = printf (''%s'' @ [newline_char]) [PStr (Some str)] s"

text \<open>\<open>putchar\<close> writes only when the library is compiled for the kernel (\<^verbatim>\<open>__is_libk\<close>).\<close>

definition putchar :: "bool \<Rightarrow> u32 \<Rightarrow> 'a tty_scheme \<Rightarrow> (u32 \<times> 'a tty_scheme) outcome" where
  "putchar is_libk ic s =
     (if is_libk
      then bind_outcome (terminal_write [char_of_int ic] s) (\<lambda>s. Inr (ic, s))
      else Inr (ic, s))"

section \<open>What printf should print\<close>

fun base_numeral :: "nat \<Rightarrow> nat \<Rightarrow> string" where
  "base_numeral base n =
     (if n < base \<or> base < 2 then [digit_chars ! n]
      else base_numeral base (n div base) @ [digit_chars ! (n mod base)])"

declare base_numeral.simps [simp del]

definition decimal :: "int \<Rightarrow> string" where
  "decimal i = (if i < 0 then ''-'' @ base_numeral 10 (nat (- i)) else base_numeral 10 (nat i))"

fun render :: "string \<Rightarrow> parg list \<Rightarrow> string option" where
  "render [] args = Some []"
| "render [c] args = Some [c]"
| "render (c # f # rest) args =
     (if c \<noteq> CHR ''%'' then map_option ((#) c) (render (f # rest) args)
      else if f = CHR ''%'' then map_option ((#) (CHR ''%'')) (render rest args)
      else if f = CHR ''s'' then
        (case args of
           PStr str # args' \<Rightarrow> map_option ((@) (case str of None \<Rightarrow> null_text | Some cs \<Rightarrow> cs)) (render rest args')
         | _ \<Rightarrow> None)
      else if f \<in> set ''cdiux'' then
        (case args of
           PInt n # args' \<Rightarrow>
             map_option ((@)
               (if f = CHR ''c'' then [char_of_int n]
                else if f = CHR ''u'' then decimal (uint n)
                else if f = CHR ''x'' then base_numeral 16 (unat n)
                else decimal (sint n))) (render rest args')
         | _ \<Rightarrow> None)
      else map_option ((#) (CHR ''%'')) (render (f # rest) args))"

lemma base_numeral_nonempty [simp]: "base_numeral base n \<noteq> []"
  by (subst base_numeral.simps) simp

lemma digits_loop_numeral:
  assumes "1 < base" and "0 < n"
  shows "digits_loop n base buffer = buffer @ rev (base_numeral (unat base) (unat n))"
  using assms
proof (induction n base buffer rule: digits_loop.induct)
  case (1 n base buffer)
  let ?d = "digit_chars ! unat (n mod base)"
  have b: "1 < unat base"
    using "1.prems"(1) by (simp add: word_less_nat_alt)
  have step: "digits_loop n base buffer = digits_loop (n div base) base (buffer @ [?d])"
    using "1.prems" by (subst digits_loop.simps) simp
  show ?case
  proof (cases "unat n < unat base")
    case True
    then have "n div base = 0" and "unat (n mod base) = unat n"
      by (simp_all add: word_unat_eq_iff unat_div unat_mod)
    then have "digits_loop n base buffer = buffer @ [?d]"
      by (subst step) (simp add: digits_loop.simps [of 0])
    with True \<open>unat (n mod base) = unat n\<close> show ?thesis
      by (simp add: base_numeral.simps [of "unat base" "unat n"])
  next
    case False
    with b have "0 < unat n div unat base"
      by (simp add: div_greater_zero_iff)
    then have pos: "0 < n div base"
      by (simp add: word_less_nat_alt unat_div)
    have "digits_loop n base buffer = (buffer @ [?d]) @ rev (base_numeral (unat base) (unat (n div base)))"
      using "1.IH" [OF _ _ pos] "1.prems" by (subst step) simp
    moreover have "base_numeral (unat base) (unat n) =
        base_numeral (unat base) (unat n div unat base) @ [digit_chars ! (unat n mod unat base)]"
      using False b by (subst base_numeral.simps) simp
    ultimately show ?thesis
      by (simp add: unat_div unat_mod)
  qed
qed

section \<open>The contract of the output operation\<close>

locale text_sink =
  fixes put :: "string \<Rightarrow> 's \<Rightarrow> 's outcome"
    and ready :: "'s \<Rightarrow> bool"
  assumes write_returns: "ready s \<Longrightarrow> \<exists>s'. put cs s = Inr s' \<and> ready s'"
    and write_nothing: "ready s \<Longrightarrow> put [] s = Inr s"
    and write_twice: "ready s \<Longrightarrow> bind_outcome (put cs s) (put ds) = put (cs @ ds) s"
begin

lemma write_then:
  assumes "ready s" and "\<And>s'. ready s' \<Longrightarrow> f s' = g s'"
  shows "bind_outcome (put cs s) f = bind_outcome (put cs s) g"
  using write_returns [OF assms(1), of cs] assms(2) by auto

lemma write_each_eq: "ready s \<Longrightarrow> write_each put cs s = put cs s"
proof (induction cs arbitrary: s)
  case (Cons c cs)
  have "write_each put (c # cs) s = bind_outcome (put [c] s) (put cs)"
    using write_then [OF Cons.prems, of "write_each put cs" "put cs"] Cons.IH by simp
  with Cons.prems show ?case
    by (simp add: write_twice)
qed (simp add: write_nothing)

lemma print_unsigned_then:
  assumes "ready s" and "1 < base"
  shows "bind_outcome (print_unsigned put n base s) (\<lambda>(k, s). f k s) =
    (let out = base_numeral (unat base) (unat n)
     in bind_outcome (put out s) (f (of_nat (length out))))"
proof (cases "n = 0")
  case True
  have "1 < unat base"
    using assms(2) by (simp add: word_less_nat_alt)
  then have "base_numeral (unat base) 0 = ''0''"
    by (simp add: base_numeral.simps digit_chars_def)
  with True show ?thesis
    by (simp add: print_unsigned_def bind_outcome_assoc)
next
  case False
  then have "digits_loop n base [] = rev (base_numeral (unat base) (unat n))"
    using assms(2) by (simp add: digits_loop_numeral word_gt_0)
  moreover have "\<not> base \<le> 1"
    using assms(2) by simp
  ultimately show ?thesis
    using False assms(1) by (simp add: print_unsigned_def Let_def write_each_eq bind_outcome_assoc)
qed

definition emit :: "u32 \<Rightarrow> string option \<Rightarrow> 's \<Rightarrow> (u32 \<times> 's) outcome" where
  "emit w r s = (case r of None \<Rightarrow> Inl Wild
     | Some out \<Rightarrow> bind_outcome (put out s) (\<lambda>s. Inr (w + of_nat (length out), s)))"

lemma emit_prefix:
  assumes "ready s" and "\<And>s'. ready s' \<Longrightarrow> k s' = emit (w + of_nat (length cs)) r s'"
  shows "bind_outcome (put cs s) k = emit w (map_option ((@) cs) r) s"
proof (cases r)
  case None
  with write_returns [OF assms(1), of cs] assms(2) show ?thesis
    by (auto simp: emit_def)
next
  case (Some out)
  have "bind_outcome (put cs s) k =
      bind_outcome (put cs s) (emit (w + of_nat (length cs)) r)"
    using assms by (rule write_then)
  also have "\<dots> = bind_outcome (bind_outcome (put cs s) (put out))
      (\<lambda>s. Inr (w + of_nat (length (cs @ out)), s))"
    by (simp add: Some emit_def [abs_def] bind_outcome_assoc add.assoc)
  finally show ?thesis
    using assms(1) by (simp add: Some emit_def write_twice)
qed

lemma emit_char:
  assumes "ready s" and "\<And>s'. ready s' \<Longrightarrow> k s' = emit (w + 1) r s'"
  shows "bind_outcome (put [c] s) k = emit w (map_option ((#) c) r) s"
proof -
  have "(#) c = (@) [c]"
    by (simp add: fun_eq_iff)
  with emit_prefix [of s k w "[c]" r] assms show ?thesis
    by simp
qed

lemma emit_number:
  assumes "ready s" and "1 < base" and "out = base_numeral (unat base) (unat n)"
    and "\<And>s'. ready s' \<Longrightarrow> f (of_nat (length out)) s' = emit (w + of_nat (length out)) r s'"
  shows "bind_outcome (print_unsigned put n base s) (\<lambda>(k, s). f k s) = emit w (map_option ((@) out) r) s"
  using assms by (simp add: print_unsigned_then Let_def emit_prefix)

lemma emit_end: "ready s \<Longrightarrow> Inr (w, s) = emit w (Some []) s"
  by (simp add: emit_def write_nothing)

lemma decimal_signed:
  "decimal (sint n) = (if n <s 0 then ''-'' @ base_numeral 10 (unat (- n)) else base_numeral 10 (unat n))"
  for n :: u32
proof (cases "sint n < 0")
  case True
  then show ?thesis
    by (simp add: decimal_def word_sless_alt unat_minus_signed)
next
  case False
  then have "sint n = uint n"
    using uint_lt2p [of n] by (simp add: sint_u32 split: if_splits)
  with False show ?thesis
    by (simp add: decimal_def word_sless_alt)
qed

lemma decimal_unsigned: "decimal (uint n) = base_numeral 10 (unat n)" for n :: u32
  by (simp add: decimal_def not_less)

lemma printf_loop_decimal:
  assumes "ready s"
    and IH: "\<And>s w. ready s \<Longrightarrow> printf_loop put rest args' w s = emit w r s"
  shows "printf_loop put (CHR ''%'' # CHR ''d'' # rest) (PInt n # args') w s =
    emit w (map_option ((@) (decimal (sint n))) r) s"
proof (cases "n <s 0")
  case True
  let ?out = "base_numeral 10 (unat (- n))"
  have "bind_outcome (put ''-'' s) (\<lambda>s. bind_outcome (print_unsigned put (- n) 10 s)
        (\<lambda>(k, s). printf_loop put rest args' (w + 1 + k) s)) =
      emit w (map_option ((#) (CHR ''-'')) (map_option ((@) ?out) r)) s"
    using assms(1) by (intro emit_char emit_number) (simp_all add: IH)
  moreover have "(#) (CHR ''-'') \<circ> (@) ?out = (@) (CHR ''-'' # ?out)"
    by (simp add: fun_eq_iff)
  ultimately show ?thesis
    using True by (simp add: decimal_signed option.map_comp)
next
  case False
  have "bind_outcome (print_unsigned put n 10 s) (\<lambda>(k, s). printf_loop put rest args' (w + k) s) =
      emit w (map_option ((@) (base_numeral 10 (unat n))) r) s"
    using assms(1) by (intro emit_number) (simp_all add: IH)
  with False show ?thesis
    by (simp add: decimal_signed)
qed

lemma printf_loop_number:
  assumes "ready s" and "f \<in> set ''cdiux''"
    and IH: "\<And>s w. ready s \<Longrightarrow> printf_loop put rest args' w s = emit w (render rest args') s"
  shows "printf_loop put (CHR ''%'' # f # rest) (PInt n # args') w s =
    emit w (render (CHR ''%'' # f # rest) (PInt n # args')) s"
proof -
  consider "f = CHR ''c''" | "f = CHR ''d''" | "f = CHR ''i''" | "f = CHR ''u''" | "f = CHR ''x''"
    using assms(2) by auto
  then show ?thesis
  proof cases
    case 1
    have "(#) (char_of_int n) = (@) [char_of_int n]"
      by (simp add: fun_eq_iff)
    with 1 show ?thesis
      using assms(1) emit_char [of s _ w "render rest args'" "char_of_int n"] by (simp add: IH)
  next
    case 2
    with printf_loop_decimal [OF assms(1) IH] show ?thesis by simp
  next
    case 3
    with printf_loop_decimal [OF assms(1) IH] show ?thesis by simp
  next
    case 4
    then show ?thesis
      using assms(1) by (simp add: decimal_unsigned emit_number IH)
  next
    case 5
    then show ?thesis
      using assms(1) by (simp add: emit_number IH)
  qed
qed

lemma printf_loop_renders:
  "ready s \<Longrightarrow> printf_loop put format args w s = emit w (render format args) s"
proof (induction format args arbitrary: w s rule: render.induct)
  case (1 args)
  then show ?case by (simp add: emit_end)
next
  case (2 c args)
  have "bind_outcome (put [c] s) (printf_loop put [] args (w + 1)) =
      emit w (map_option ((#) c) (Some [])) s"
    by (rule emit_char) (use 2 emit_end in simp_all)
  then show ?case
    by (cases "c = CHR ''%''") simp_all
next
  case (3 c f rest args)
  consider (lit) "c \<noteq> CHR ''%''" | (pct) "c = CHR ''%''" "f = CHR ''%''"
    | (str) "c = CHR ''%''" "f = CHR ''s''" | (num) "c = CHR ''%''" "f \<in> set ''cdiux''"
    | (other) "c = CHR ''%''" "f \<notin> set ''%scdiux''"
    by (cases "c = CHR ''%''") auto
  then show ?case
  proof cases
    case lit
    then show ?thesis
      using "3.prems" "3.IH"(1) by (simp add: emit_char del: render.simps(2))
  next
    case pct
    then show ?thesis
      using "3.prems" "3.IH"(2) by (simp add: emit_char)
  next
    case str
    show ?thesis
    proof (cases args)
      case (Cons a args')
      then show ?thesis
        using str "3.prems" "3.IH"(3) by (cases a) (simp_all add: emit_prefix Let_def emit_def)
    qed (use str in \<open>simp add: emit_def\<close>)
  next
    case num
    show ?thesis
    proof (cases args)
      case (Cons a args')
      show ?thesis
      proof (cases a)
        case (PInt n)
        have "printf_loop put rest args' w s = emit w (render rest args') s" if "ready s" for w s
          using that num Cons PInt "3.IH"(4) [of a args' n] by auto
        with printf_loop_number [OF "3.prems" num(2)] num Cons PInt show ?thesis
          by blast
      qed (use num Cons in \<open>auto simp: emit_def\<close>)
    qed (use num in \<open>auto simp: emit_def\<close>)
  next
    case other
    then have "printf_loop put (c # f # rest) args w s =
        bind_outcome (put [c] s) (printf_loop put (f # rest) args (w + 1))"
      by simp
    also have "\<dots> = emit w (map_option ((#) c) (render (f # rest) args)) s"
      using "3.prems" by (rule emit_char) (rule "3.IH"(5), use other in auto)
    finally show ?thesis
      using other by simp
  qed
qed

end

interpretation tty_sink: text_sink terminal_write "\<lambda>s :: 'a tty_scheme. tty_lock s = 0"
  by unfold_locales (auto simp: terminal_write_eq)

text \<open>
  C20. printf writes exactly the text that the reference function render computes from the format
  and the arguments read as integers, returns its length, and is undefined exactly when an
  argument is missing or of the wrong kind
\<close>

theorem printf_renders_text:
  assumes "tty_lock s = 0"
  shows "printf format args s =
    (case render format args of None \<Rightarrow> Inl Wild
     | Some out \<Rightarrow> Inr (of_nat (length out), fold terminal_putchar_unlocked out s))"
  using tty_sink.printf_loop_renders [OF assms, of format args 0] assms
  by (simp add: printf_def tty_sink.emit_def terminal_write_eq split: option.splits)

lemma print_renders:
  assumes "tty_lock s = 0" and "render format args = Some out"
  shows "print format args s = Inr (fold terminal_putchar_unlocked out s)"
  using assms tty_sink.printf_loop_renders [OF assms(1), of format args 0]
  by (simp add: print_def printf_def tty_sink.emit_def terminal_write_eq)

lemma print_ok: "tty_lock s = 0 \<Longrightarrow> render format args \<noteq> None \<Longrightarrow> \<exists>t. print format args s = Inr t"
  using print_renders by blast

lemma print_returns:
  assumes "tty_lock s = 0" and "render format args \<noteq> None"
  obtains l r c b where "print format args s =
    Inr (s\<lparr>io_log := l, terminal_row := r, terminal_column := c, terminal_buffer := b\<rparr>)"
    "tty_inv s \<longrightarrow> tty_inv (s\<lparr>io_log := l, terminal_row := r, terminal_column := c, terminal_buffer := b\<rparr>)"
proof -
  obtain out where out: "print format args s = Inr (fold terminal_putchar_unlocked out s)"
    using assms print_renders by blast
  moreover have "tty_inv s \<longrightarrow> tty_inv (fold terminal_putchar_unlocked out s)"
    using terminal_put_all_inv by blast
  ultimately show thesis
    using terminal_put_all_changes [of out s] that by metis
qed

lemma print_log:
  assumes "tty_lock s = 0" and "render format args \<noteq> None"
  shows "\<exists>t l. print format args s = Inr t \<and> io_log t = io_log s @ l \<and> cursor_log l"
proof -
  obtain out where "print format args s = Inr (fold terminal_putchar_unlocked out s)"
    using assms print_renders by blast
  then show ?thesis
    using terminal_put_all_log [of out s] by auto
qed

lemma printf_loop_held:
  assumes held: "\<And>cs. put cs s = Inl Hang" and "format \<noteq> []"
  shows "\<exists>e. printf_loop put format args written s = Inl e"
proof -
  have *: "\<exists>e. print_unsigned put n base s = Inl e" for n base
  proof (cases "n = 0 \<or> base \<le> 1")
    case False
    then have "0 < n" "1 < base"
      by (auto simp: word_neq_0_conv not_le)
    then have "digits_loop n base [] \<noteq> []"
      using digits_loop_numeral [of base n "[]"] by simp
    then obtain c cs where "rev (digits_loop n base []) = c # cs"
      by (metis list.exhaust rev_is_Nil_conv)
    with False show ?thesis
      by (simp add: print_unsigned_def held)
  qed (auto simp: print_unsigned_def held)
  then have "\<exists>e. bind_outcome (print_unsigned put n base s) f = Inl e" for n base and f :: "_ \<Rightarrow> (u32 \<times> 'a) outcome"
    by (metis bind_outcome.simps(1))
  then show ?thesis
    using \<open>format \<noteq> []\<close>
    by (cases format) (auto simp: held split: list.splits parg.splits option.splits)
qed

lemma print_changes:
  assumes "print format args s = Inr t"
  obtains l r c b where "t = s\<lparr>io_log := l, terminal_row := r, terminal_column := c, terminal_buffer := b\<rparr>"
proof -
  have "\<exists>l r c b. t = s\<lparr>io_log := l, terminal_row := r, terminal_column := c, terminal_buffer := b\<rparr>"
  proof (cases "tty_lock s = 0")
    case True
    with assms obtain out where "t = fold terminal_putchar_unlocked out s"
      using tty_sink.printf_loop_renders [of s format args 0]
      by (auto simp: print_def printf_def tty_sink.emit_def terminal_write_eq split: option.splits)
    then show ?thesis
      using terminal_put_all_changes [of out s] by simp
  next
    case False
    then have "\<exists>e. print format args s = Inl e" if "format \<noteq> []"
      using that printf_loop_held [of terminal_write s format args 0]
      by (auto simp: print_def printf_def terminal_write_held)
    with assms have "format = []"
      by auto
    with assms show ?thesis
      by (cases s) (auto simp: print_def printf_def)
  qed
  then show thesis
    using that by blast
qed

lemma print_held: "tty_lock s \<noteq> 0 \<Longrightarrow> format \<noteq> [] \<Longrightarrow> hd format \<noteq> CHR ''%'' \<Longrightarrow> print format args s = Inl Hang"
  by (cases format) (simp_all add: print_def printf_def terminal_write_eq)

section \<open>Numerals\<close>

definition digit_value :: "char \<Rightarrow> nat" where
  "digit_value c = (if of_char c < (58 :: nat) then of_char c - 48 else of_char c - 87)"

definition numeral_value :: "nat \<Rightarrow> string \<Rightarrow> nat" where
  "numeral_value base cs = foldl (\<lambda>v c. v * base + digit_value c) 0 cs"

lemma digit_value_char: "d < 16 \<Longrightarrow> digit_value (digit_chars ! d) = d"
proof -
  assume "d < 16"
  moreover have "\<forall>d \<in> set [0..<16]. digit_value (digit_chars ! d) = d"
    by (simp add: digit_chars_def digit_value_def upt_rec of_char_def)
  ultimately show ?thesis by simp
qed

lemma base_numeral_value:
  "2 \<le> base \<Longrightarrow> base \<le> 16 \<Longrightarrow> numeral_value base (base_numeral base n) = n"
proof (induction base n rule: base_numeral.induct)
  case (1 base n)
  show ?case
  proof (cases "n < base")
    case True
    with 1 show ?thesis
      by (simp add: base_numeral.simps [of base n] numeral_value_def digit_value_char)
  next
    case False
    have "n mod base < 16"
      using 1 by (metis order_less_le_trans mod_less_divisor zero_less_numeral order_less_le_trans)
    with False 1 show ?thesis
      by (simp add: base_numeral.simps [of base n] numeral_value_def digit_value_char)
  qed
qed

lemma base_numeral_leading:
  "2 \<le> base \<Longrightarrow> base \<le> 16 \<Longrightarrow> 0 < n \<Longrightarrow> digit_value (hd (base_numeral base n)) \<noteq> 0"
proof (induction base n rule: base_numeral.induct)
  case (1 base n)
  then show ?case
    by (cases "n < base") (simp_all add: base_numeral.simps [of base n] digit_value_char div_greater_zero_iff)
qed

lemma base_numeral_length: "2 \<le> base \<Longrightarrow> n < base ^ Suc k \<Longrightarrow> length (base_numeral base n) \<le> Suc k"
proof (induction k arbitrary: n)
  case 0
  then show ?case by (simp add: base_numeral.simps)
next
  case (Suc k)
  show ?case
  proof (cases "n < base")
    case True
    then show ?thesis by (simp add: base_numeral.simps)
  next
    case False
    have "n div base < base ^ Suc k"
      using Suc.prems by (simp add: less_mult_imp_div_less mult.commute)
    then have "length (base_numeral base (n div base)) \<le> Suc k"
      using Suc by blast
    with False Suc.prems(1) show ?thesis
      by (subst base_numeral.simps) simp
  qed
qed

text \<open>
  The digits that print_unsigned produces read back as the number, have no leading zero and fit
  the buffer of 32 characters for every base from 2 to 16.
\<close>

theorem print_unsigned_roundtrip:
  assumes "2 \<le> unat base" and "unat base \<le> 16" and "n \<noteq> 0"
  shows "numeral_value (unat base) (rev (digits_loop n base [])) = unat n \<and>
    digit_value (hd (rev (digits_loop n base []))) \<noteq> 0 \<and>
    length (digits_loop n base []) \<le> 32"
proof -
  have eq: "digits_loop n base [] = rev (base_numeral (unat base) (unat n))"
  proof (rule digits_loop_numeral [of base n "[]", simplified])
    show "1 < base" and "0 < n"
      using assms by (simp_all add: word_less_nat_alt unat_gt_0)
  qed
  have "unat n < 2 ^ Suc 31"
    using unat_u32_bound [of n] by simp
  also have "\<dots> \<le> unat base ^ Suc 31"
    using assms(1) by (rule power_mono) simp
  finally have "length (base_numeral (unat base) (unat n)) \<le> Suc 31"
    using assms(1) by (intro base_numeral_length)
  moreover have "0 < unat n"
    using assms(3) by (simp add: unat_gt_0)
  ultimately show ?thesis
    using assms by (simp add: eq base_numeral_value base_numeral_leading)
qed

section \<open>Instances\<close>

text \<open>
  An instance of C20.
\<close>

theorem printf_renders_text_witness:
  "printf ''%d%%'' [PInt (- 7)] boot_tty = Inr (3, fold terminal_putchar_unlocked ''-7%'' boot_tty)"
  using printf_renders_text [of boot_tty "''%d%%''" "[PInt (- 7)]"]
  by (simp add: decimal_def base_numeral.simps digit_chars_def sint_u32)

text \<open>
  An instance of the statement above.
\<close>

theorem print_unsigned_roundtrip_witness:
  "numeral_value 16 (rev (digits_loop 0xBEEF 16 [])) = 48879 \<and> length (digits_loop 0xBEEF 16 []) \<le> 32"
  using print_unsigned_roundtrip [of 16 "0xBEEF"] by simp

end
