(* ===== verification/Keyboard.thy ===== *)
theory Keyboard
  imports Printf
begin

text \<open>
  The PS/2 keyboard driver (\<^verbatim>\<open>drivers/keyboard.cpp\<close>): the interrupt handler that translates
  scancodes and pushes characters into a ring of 256 bytes, and the reader that takes them out.
  \<open>kbd_buffer\<close> is the array as a function of the index. The locale \<open>bounded_fifo\<close> is the
  contract of the ring (a queue of at most 255 characters that drops what does not fit); the
  driver provides it, and the interleaving of the handler with the two halves of
  \<open>keyboard_getchar\<close> is shown to lose, duplicate and reorder nothing that was accepted.
\<close>

section \<open>The state and the tables\<close>

record kbd = tty +
  kbd_buffer :: "nat \<Rightarrow> char"
  kbd_buffer_head :: u32
  kbd_buffer_tail :: u32
  caps_lock :: bool
  lshift_pressed :: bool
  rshift_pressed :: bool

definition KBD_DATA_PORT :: u16 where "KBD_DATA_PORT = 0x60"
definition KBD_BUFFER_SIZE :: u32 where "KBD_BUFFER_SIZE = 256"

definition nul :: char where "nul = CHR 0x00"

definition kbd_us :: string where
  "kbd_us =
     [nul, CHR 0x1B] @ ''1234567890-='' @ [CHR 0x08] @
     [CHR 0x09] @ ''qwertyuiop[]'' @ [CHR 0x0A] @
     [nul] @ ''asdfghjkl;'' @ [CHR 0x27, CHR 0x60, nul, CHR 0x5C] @
     ''zxcvbnm,./'' @ [nul, CHR ''*'', nul, CHR '' ''] @ replicate 70 nul"

definition kbd_us_shifted :: string where
  "kbd_us_shifted =
     [nul, CHR 0x1B] @ ''!@#$%^&*()_+'' @ [CHR 0x08] @
     [CHR 0x09] @ ''QWERTYUIOP{}'' @ [CHR 0x0A] @
     [nul] @ ''ASDFGHJKL:'' @ [CHR 0x22, CHR ''~'', nul, CHR ''|''] @
     ''ZXCVBNM<>?'' @ [nul, CHR ''*'', nul, CHR '' ''] @ replicate 70 nul"

abbreviation code :: "char \<Rightarrow> nat" where
  "code c \<equiv> of_char c"

definition is_lower :: "char \<Rightarrow> bool" where
  "is_lower c \<longleftrightarrow> code (CHR ''a'') \<le> code c \<and> code c \<le> code (CHR ''z'')"

definition is_upper :: "char \<Rightarrow> bool" where
  "is_upper c \<longleftrightarrow> code (CHR ''A'') \<le> code c \<and> code c \<le> code (CHR ''Z'')"

section \<open>The interrupt handler and the reader\<close>

text \<open>Lines 121 to 125 of the handler: the push into the ring.\<close>

definition kbd_push :: "char \<Rightarrow> 'a kbd_scheme \<Rightarrow> 'a kbd_scheme" where
  "kbd_push c s =
     (let next = (kbd_buffer_head s + 1) mod KBD_BUFFER_SIZE
      in if next \<noteq> kbd_buffer_tail s
         then s\<lparr>kbd_buffer := (kbd_buffer s)(unat (kbd_buffer_head s) := c), kbd_buffer_head := next\<rparr>
         else s)"

definition kbd_translate :: "u8 \<Rightarrow> 'a kbd_scheme \<Rightarrow> char" where
  "kbd_translate scancode s =
     (let shift_active = lshift_pressed s \<or> rshift_pressed s;
          c = (if shift_active then kbd_us_shifted ! unat scancode else kbd_us ! unat scancode)
      in if c = nul then c
         else if caps_lock s \<and> is_lower c then char_of (code c - 32)
         else if caps_lock s \<and> is_upper c then char_of (code c + 32)
         else c)"

definition keyboard_handler :: "'a kbd_scheme \<Rightarrow> 'a kbd_scheme" where
  "keyboard_handler s =
     (let (scancode, s) = inb KBD_DATA_PORT s
      in if scancode = 0x2A then s\<lparr>lshift_pressed := True\<rparr>
         else if scancode = 0xAA then s\<lparr>lshift_pressed := False\<rparr>
         else if scancode = 0x36 then s\<lparr>rshift_pressed := True\<rparr>
         else if scancode = 0xB6 then s\<lparr>rshift_pressed := False\<rparr>
         else if scancode = 0x3A then s\<lparr>caps_lock := \<not> caps_lock s\<rparr>
         else if scancode AND 0x80 = 0 then
           (let c = kbd_translate scancode s in if c \<noteq> nul then kbd_push c s else s)
         else s)"

text \<open>
  The reader waits with \<^verbatim>\<open>hlt\<close> while the ring is empty: \<open>None\<close> is that wait. Its two
  statements after the wait are separate steps below, where an interrupt may come between.
\<close>

definition kbd_fetch :: "'a kbd_scheme \<Rightarrow> char option" where
  "kbd_fetch s =
     (if kbd_buffer_head s = kbd_buffer_tail s then None
      else Some (kbd_buffer s (unat (kbd_buffer_tail s))))"

definition kbd_advance :: "'a kbd_scheme \<Rightarrow> 'a kbd_scheme" where
  "kbd_advance s = s\<lparr>kbd_buffer_tail := (kbd_buffer_tail s + 1) mod KBD_BUFFER_SIZE\<rparr>"

definition keyboard_getchar :: "'a kbd_scheme \<Rightarrow> (char \<times> 'a kbd_scheme) option" where
  "keyboard_getchar s = map_option (\<lambda>c. (c, kbd_advance s)) (kbd_fetch s)"

section \<open>The contract of a bounded queue\<close>

locale bounded_fifo =
  fixes push :: "'a \<Rightarrow> 's \<Rightarrow> 's"
    and pop :: "'s \<Rightarrow> ('a \<times> 's) option"
    and contents :: "'s \<Rightarrow> 'a list"
    and ok :: "'s \<Rightarrow> bool"
    and capacity :: nat
  assumes push_ok: "ok s \<Longrightarrow> ok (push x s)"
    and push_contents: "ok s \<Longrightarrow> contents (push x s) =
      (if length (contents s) < capacity then contents s @ [x] else contents s)"
    and contents_bound: "ok s \<Longrightarrow> length (contents s) \<le> capacity"
    and pop_empty: "ok s \<Longrightarrow> contents s = [] \<Longrightarrow> pop s = None"
    and pop_head: "ok s \<Longrightarrow> contents s = x # xs \<Longrightarrow> \<exists>s'. pop s = Some (x, s') \<and> contents s' = xs \<and> ok s'"
begin

lemma push_all_contents:
  "ok s \<Longrightarrow> contents (fold push xs s) = contents s @ take (capacity - length (contents s)) xs
     \<and> ok (fold push xs s)"
proof (induction xs arbitrary: s)
  case (Cons x xs)
  have "length (contents s) \<le> capacity"
    using Cons.prems by (rule contents_bound)
  then show ?case
    using Cons.IH [of "push x s"] Cons.prems
    by (auto simp: push_ok push_contents take_Cons' Suc_diff_le)
qed simp

fun pop_n :: "nat \<Rightarrow> 's \<Rightarrow> ('a list \<times> 's) option" where
  "pop_n 0 s = Some ([], s)"
| "pop_n (Suc n) s = (case pop s of None \<Rightarrow> None
     | Some (x, s') \<Rightarrow> map_option (\<lambda>(xs, t). (x # xs, t)) (pop_n n s'))"

lemma pop_n_contents:
  "ok s \<Longrightarrow> n \<le> length (contents s) \<Longrightarrow>
     \<exists>t. pop_n n s = Some (take n (contents s), t) \<and> contents t = drop n (contents s) \<and> ok t"
proof (induction n arbitrary: s)
  case (Suc n)
  then obtain x xs where xs: "contents s = x # xs"
    by (cases "contents s") auto
  obtain s' where s': "pop s = Some (x, s')" "contents s' = xs" "ok s'"
    using pop_head [OF Suc.prems(1) xs] by blast
  have "\<exists>t. pop_n n s' = Some (take n (contents s'), t) \<and> contents t = drop n (contents s') \<and> ok t"
    using Suc.IH [of s'] Suc.prems(2) xs s' by simp
  then show ?case
    using xs s' by auto
qed simp

end

section \<open>The ring is a bounded queue\<close>

definition kbd_ok :: "'a kbd_scheme \<Rightarrow> bool" where
  "kbd_ok s \<longleftrightarrow> unat (kbd_buffer_head s) < 256 \<and> unat (kbd_buffer_tail s) < 256"

definition ring_count :: "nat \<Rightarrow> nat \<Rightarrow> nat" where
  "ring_count h t = (256 + h - t) mod 256"

definition kbd_contents :: "'a kbd_scheme \<Rightarrow> string" where
  "kbd_contents s =
     (let t = unat (kbd_buffer_tail s)
      in map (\<lambda>i. kbd_buffer s ((t + i) mod 256)) [0..<ring_count (unat (kbd_buffer_head s)) t])"

lemma mod_256: "x < 512 \<Longrightarrow> x mod 256 = (if x < 256 then x else x - 256)" for x :: nat
  by (auto simp: mod_if)

lemma ring_count_eq: "h < 256 \<Longrightarrow> t < 256 \<Longrightarrow> ring_count h t = (if t \<le> h then h - t else 256 + h - t)"
  by (auto simp: ring_count_def mod_256)

lemma ring_count_bound: "ring_count h t < 256"
  by (simp add: ring_count_def)

lemma ring_index_next: "x < 256 \<Longrightarrow> Suc x mod 256 = (if x = 255 then 0 else Suc x)" for x :: nat
  by (auto simp: mod_256)

lemma ring_last: "h < 256 \<Longrightarrow> t < 256 \<Longrightarrow> (t + ring_count h t) mod 256 = h"
  by (auto simp: ring_count_eq mod_256)

lemma ring_before: "h < 256 \<Longrightarrow> t < 256 \<Longrightarrow> i < ring_count h t \<Longrightarrow> (t + i) mod 256 \<noteq> h"
  by (auto simp: ring_count_eq mod_256 split: if_splits)

lemma ring_full: "h < 256 \<Longrightarrow> t < 256 \<Longrightarrow> (h + 1) mod 256 = t \<longleftrightarrow> \<not> ring_count h t < 255"
  by (auto simp: ring_count_eq ring_index_next split: if_splits)

lemma ring_count_push:
  "h < 256 \<Longrightarrow> t < 256 \<Longrightarrow> (h + 1) mod 256 \<noteq> t \<Longrightarrow> ring_count ((h + 1) mod 256) t = Suc (ring_count h t)"
  by (auto simp: ring_count_eq ring_index_next split: if_splits)

lemma ring_count_pop:
  "h < 256 \<Longrightarrow> t < 256 \<Longrightarrow> h \<noteq> t \<Longrightarrow> ring_count h t = Suc (ring_count h ((t + 1) mod 256))"
  by (auto simp: ring_count_eq ring_index_next split: if_splits)

lemma unat_next: "unat x < 256 \<Longrightarrow> unat ((x + 1) mod KBD_BUFFER_SIZE) = (unat x + 1) mod 256"
proof -
  assume "unat x < 256"
  then have "unat (x + 1) = unat x + 1"
    by (simp add: unat_add_small)
  then show ?thesis
    by (simp add: KBD_BUFFER_SIZE_def unat_mod)
qed

lemma length_kbd_contents: "length (kbd_contents s) = ring_count (unat (kbd_buffer_head s)) (unat (kbd_buffer_tail s))"
  by (simp add: kbd_contents_def Let_def)

lemma kbd_push_ok: "kbd_ok s \<Longrightarrow> kbd_ok (kbd_push c s)"
  by (simp add: kbd_ok_def kbd_push_def Let_def unat_next)

lemma kbd_push_contents:
  assumes "kbd_ok s"
  shows "kbd_contents (kbd_push c s) =
    (if length (kbd_contents s) < 255 then kbd_contents s @ [c] else kbd_contents s)"
proof -
  define h t where "h = unat (kbd_buffer_head s)" and "t = unat (kbd_buffer_tail s)"
  let ?next = "(kbd_buffer_head s + 1) mod KBD_BUFFER_SIZE"
  have ht: "h < 256" "t < 256"
    using assms by (simp_all add: kbd_ok_def h_def t_def)
  have next_eq: "unat ?next = (h + 1) mod 256"
    using ht(1) by (simp add: unat_next h_def)
  have full: "?next = kbd_buffer_tail s \<longleftrightarrow> \<not> length (kbd_contents s) < 255"
    using ring_full [OF ht] next_eq
    by (simp add: word_unat_eq_iff length_kbd_contents flip: h_def t_def)
  show ?thesis
  proof (cases "?next = kbd_buffer_tail s")
    case True
    with full show ?thesis by (simp add: kbd_push_def)
  next
    case False
    then have ne: "(h + 1) mod 256 \<noteq> t"
      using next_eq by (simp add: word_unat_eq_iff t_def)
    let ?f = "(kbd_buffer s)(h := c)"
    have "kbd_contents (kbd_push c s) = map (\<lambda>i. ?f ((t + i) mod 256)) [0..<Suc (ring_count h t)]"
      using False next_eq ring_count_push [OF ht ne]
      by (simp add: kbd_push_def kbd_contents_def Let_def flip: h_def t_def)
    also have "\<dots> = map (\<lambda>i. kbd_buffer s ((t + i) mod 256)) [0..<ring_count h t] @ [c]"
      using ring_last [OF ht] ring_before [OF ht] by auto
    also have "\<dots> = kbd_contents s @ [c]"
      by (simp add: kbd_contents_def Let_def h_def t_def)
    finally show ?thesis
      using False full by simp
  qed
qed

lemma kbd_contents_empty:
  "kbd_ok s \<Longrightarrow> kbd_contents s = [] \<longleftrightarrow> kbd_buffer_head s = kbd_buffer_tail s"
  by (auto simp: kbd_ok_def kbd_contents_def Let_def ring_count_eq word_unat_eq_iff split: if_splits)

lemma kbd_contents_head:
  assumes "kbd_ok s" and "kbd_buffer_head s \<noteq> kbd_buffer_tail s"
  shows "kbd_contents s = kbd_buffer s (unat (kbd_buffer_tail s)) # kbd_contents (kbd_advance s)"
    and "kbd_ok (kbd_advance s)"
proof -
  define h t where "h = unat (kbd_buffer_head s)" and "t = unat (kbd_buffer_tail s)"
  have ht: "h < 256" "t < 256" and ne: "h \<noteq> t"
    using assms by (simp_all add: kbd_ok_def h_def t_def word_unat_eq_iff)
  let ?t = "(t + 1) mod 256"
  have t': "unat (kbd_buffer_tail (kbd_advance s)) = ?t"
    using ht(2) by (simp add: kbd_advance_def unat_next t_def)
  have "kbd_contents s = map (\<lambda>i. kbd_buffer s ((t + i) mod 256)) [0..<Suc (ring_count h ?t)]"
    using ring_count_pop [OF ht ne] by (simp add: kbd_contents_def Let_def flip: h_def t_def)
  also have "\<dots> = kbd_buffer s t # map (\<lambda>i. kbd_buffer s ((t + Suc i) mod 256)) [0..<ring_count h ?t]"
    using ht(2) by (simp add: upt_conv_Cons map_Suc_upt [symmetric] del: upt_Suc)
  also have "map (\<lambda>i. kbd_buffer s ((t + Suc i) mod 256)) [0..<ring_count h ?t] = kbd_contents (kbd_advance s)"
    using t' by (simp add: kbd_contents_def Let_def kbd_advance_def mod_simps flip: h_def)
  finally show "kbd_contents s = kbd_buffer s (unat (kbd_buffer_tail s)) # kbd_contents (kbd_advance s)"
    by (simp add: t_def)
  show "kbd_ok (kbd_advance s)"
    using assms(1) ht(2) by (simp add: kbd_ok_def kbd_advance_def unat_next t_def)
qed

interpretation kbd_ring: bounded_fifo kbd_push keyboard_getchar kbd_contents
    "kbd_ok :: 'a kbd_scheme \<Rightarrow> bool" 255
proof
  fix s :: "'a kbd_scheme" and x xs
  show "length (kbd_contents s) \<le> 255"
    using ring_count_bound [of "unat (kbd_buffer_head s)" "unat (kbd_buffer_tail s)"]
    by (simp add: length_kbd_contents)
  show "kbd_contents s = [] \<Longrightarrow> keyboard_getchar s = None" if "kbd_ok s"
    using that by (simp add: kbd_contents_empty keyboard_getchar_def kbd_fetch_def)
  show "\<exists>s'. keyboard_getchar s = Some (x, s') \<and> kbd_contents s' = xs \<and> kbd_ok s'"
    if "kbd_ok s" and "kbd_contents s = x # xs"
    using that kbd_contents_head [OF that(1)]
    by (cases "kbd_buffer_head s = kbd_buffer_tail s")
      (auto simp: kbd_contents_empty [OF that(1), symmetric] keyboard_getchar_def kbd_fetch_def)
qed (simp_all add: kbd_push_ok kbd_push_contents)

section \<open>The handler\<close>

text \<open>The scancode the handler is about to read, and the character it stands for, if any.\<close>

definition next_scancode :: "'a kbd_scheme \<Rightarrow> u8" where
  "next_scancode s = device s (io_log s) KBD_DATA_PORT"

definition modifier_codes :: "u8 set" where
  "modifier_codes = {0x2A, 0xAA, 0x36, 0xB6, 0x3A}"

definition typed :: "'a kbd_scheme \<Rightarrow> char option" where
  "typed s =
     (let sc = next_scancode s
      in if sc \<in> modifier_codes \<or> sc AND 0x80 \<noteq> 0 \<or> kbd_translate sc s = nul then None
         else Some (kbd_translate sc s))"

lemma kbd_contents_frame [simp]:
  "kbd_contents (s\<lparr>io_log := l\<rparr>) = kbd_contents s"
  "kbd_contents (s\<lparr>lshift_pressed := b\<rparr>) = kbd_contents s"
  "kbd_contents (s\<lparr>rshift_pressed := b\<rparr>) = kbd_contents s"
  "kbd_contents (s\<lparr>caps_lock := b\<rparr>) = kbd_contents s"
  by (simp_all add: kbd_contents_def)

lemma kbd_ok_frame [simp]:
  "kbd_ok (s\<lparr>io_log := l\<rparr>) = kbd_ok s"
  "kbd_ok (s\<lparr>lshift_pressed := b\<rparr>) = kbd_ok s"
  "kbd_ok (s\<lparr>rshift_pressed := b\<rparr>) = kbd_ok s"
  "kbd_ok (s\<lparr>caps_lock := b\<rparr>) = kbd_ok s"
  by (simp_all add: kbd_ok_def)

lemma kbd_translate_frame [simp]: "kbd_translate c (s\<lparr>io_log := l\<rparr>) = kbd_translate c s"
  by (simp add: kbd_translate_def Let_def)

lemma kbd_push_frame [simp]:
  "lshift_pressed (kbd_push c s) = lshift_pressed s"
  "rshift_pressed (kbd_push c s) = rshift_pressed s"
  "caps_lock (kbd_push c s) = caps_lock s"
  by (simp_all add: kbd_push_def Let_def)

lemma keyboard_handler_ok: "kbd_ok s \<Longrightarrow> kbd_ok (keyboard_handler s)"
  by (simp add: keyboard_handler_def inb_def Let_def kbd_push_ok)

lemma keyboard_handler_contents:
  "kbd_ok s \<Longrightarrow> kbd_contents (keyboard_handler s) = kbd_contents s @
      (case typed s of None \<Rightarrow> [] | Some c \<Rightarrow> if length (kbd_contents s) < 255 then [c] else [])"
  by (auto simp: keyboard_handler_def inb_def Let_def typed_def next_scancode_def
      modifier_codes_def kbd_push_contents)

text \<open>
  One keyboard interrupt appends the character of the pressed key to the ring unless it is full,
  and updates the shift and caps lock state by the scan code.
\<close>

theorem keyboard_handler_effect:
  assumes "kbd_ok s"
  shows "kbd_contents (keyboard_handler s) = kbd_contents s @
      (case typed s of None \<Rightarrow> [] | Some c \<Rightarrow> if length (kbd_contents s) < 255 then [c] else [])
    \<and> lshift_pressed (keyboard_handler s) =
        (next_scancode s = 0x2A \<or> (lshift_pressed s \<and> next_scancode s \<noteq> 0xAA))
    \<and> rshift_pressed (keyboard_handler s) =
        (next_scancode s = 0x36 \<or> (rshift_pressed s \<and> next_scancode s \<noteq> 0xB6))
    \<and> caps_lock (keyboard_handler s) = (caps_lock s \<noteq> (next_scancode s = 0x3A))"
  using assms
  by (auto simp: keyboard_handler_def inb_def Let_def typed_def next_scancode_def
      modifier_codes_def kbd_push_contents)

lemma length_tables [simp]: "length kbd_us = 128" "length kbd_us_shifted = 128"
  by (simp_all add: kbd_us_def kbd_us_shifted_def)

lemma press_code_bound: "sc AND 0x80 = 0 \<Longrightarrow> unat sc < 128" for sc :: u8
proof (rule ccontr)
  assume "sc AND 0x80 = 0" and "\<not> unat sc < 128"
  have "unat sc div 128 = 1"
    using \<open>\<not> unat sc < 128\<close> unat_u8_bound [of sc] by linarith
  then have "bit (unat sc) 7"
    by (simp add: bit_iff_odd)
  then have "bit sc 7"
    by (simp add: bit_unsigned_iff)
  moreover have "\<not> bit sc 7"
    using \<open>sc AND 0x80 = 0\<close> and_exp_eq_0_iff_not_bit [of sc 7] by simp
  ultimately show False by blast
qed

text \<open>The two tables, entry by entry: a letter faces its upper case, nothing else faces a letter.\<close>

definition entries_agree :: "char \<Rightarrow> char \<Rightarrow> bool" where
  "entries_agree c d \<longleftrightarrow>
     (if is_lower c then code d = code c - 32
      else \<not> is_upper c \<and> \<not> is_lower d \<and> \<not> is_upper d)"

lemma tables_agree: "list_all2 entries_agree kbd_us kbd_us_shifted"
proof -
  have pad: "list_all2 entries_agree (replicate 70 nul) (replicate 70 nul)"
    by (simp add: list_all2_conv_all_nth entries_agree_def is_lower_def is_upper_def nul_def)
  show ?thesis
    unfolding kbd_us_def kbd_us_shifted_def
    by (intro list_all2_appendI pad)
      (simp_all add: entries_agree_def is_lower_def is_upper_def nul_def)
qed

text \<open>
  What a key means: a letter is upper case when exactly one of Shift and Caps Lock is on, and
  any other key depends on Shift alone.
\<close>

definition key_meaning :: "bool \<Rightarrow> bool \<Rightarrow> nat \<Rightarrow> char" where
  "key_meaning shift caps i =
     (if is_lower (kbd_us ! i)
      then (if shift \<noteq> caps then char_of (code (kbd_us ! i) - 32) else kbd_us ! i)
      else if shift then kbd_us_shifted ! i else kbd_us ! i)"

lemma letter_codes: "code (CHR ''a'') = 97" "code (CHR ''z'') = 122" "code (CHR ''A'') = 65"
    "code (CHR ''Z'') = 90" "code nul = 0"
  by (simp_all add: nul_def)

lemma upper_of_lower:
  assumes "is_lower c"
  shows "is_upper (char_of (code c - 32))" "char_of (code (char_of (code c - 32)) + 32) = c"
    "char_of (code c - 32) \<noteq> nul" "c \<noteq> nul" "\<not> is_lower (char_of (code c - 32))"
proof -
  have b: "97 \<le> code c" "code c \<le> 122"
    using assms by (simp_all add: is_lower_def letter_codes)
  then have u: "code (char_of (code c - 32)) = code c - 32"
    by simp
  show "is_upper (char_of (code c - 32))" "\<not> is_lower (char_of (code c - 32))"
    using b unfolding is_upper_def is_lower_def u letter_codes by linarith+
  show "char_of (code (char_of (code c - 32)) + 32) = c"
    using b u by simp
  show "char_of (code c - 32) \<noteq> nul" "c \<noteq> nul"
    using b u letter_codes(5) by (metis diff_is_0_eq not_numeral_le_zero numeral_le_iff order.trans semiring_norm)+
qed

text \<open>
  C22. for every press code the two tables and the caps lock arithmetic of the driver agree with
  the meaning of the key: a letter is upper case exactly when shift differs from caps lock, any
  other key follows shift alone
\<close>

theorem keyboard_translation:
  assumes "sc AND 0x80 = 0"
  shows "kbd_translate sc s =
    key_meaning (lshift_pressed s \<or> rshift_pressed s) (caps_lock s) (unat sc)"
proof -
  let ?i = "unat sc"
  have t: "entries_agree (kbd_us ! ?i) (kbd_us_shifted ! ?i)"
    using press_code_bound [OF assms] by (simp add: list_all2_nthD [OF tables_agree])
  show ?thesis
  proof (cases "is_lower (kbd_us ! ?i)")
    case True
    with t have "kbd_us_shifted ! ?i = char_of (code (kbd_us ! ?i) - 32)"
      unfolding entries_agree_def by (metis char_of_char)
    with True upper_of_lower [OF True] show ?thesis
      by (simp add: kbd_translate_def key_meaning_def entries_agree_def Let_def)
  next
    case False
    with t show ?thesis
      by (simp add: kbd_translate_def key_meaning_def entries_agree_def Let_def)
  qed
qed

section \<open>The reader and the handler interleaved\<close>

text \<open>
  The consumer is between calls (\<open>fetched = None\<close>) or has read the character at the tail and
  not yet advanced it (\<open>fetched = Some c\<close>); an interrupt can come in either phase.
  \<open>accepted\<close> and \<open>delivered\<close> record what the handler took in and what the calls returned.
\<close>

record kbd_sys =
  driver :: kbd
  fetched :: "char option"
  accepted :: string
  delivered :: string

inductive kbd_step :: "kbd_sys \<Rightarrow> kbd_sys \<Rightarrow> bool" where
  irq: "kbd_step s (s\<lparr>driver := keyboard_handler (driver s),
     accepted := accepted s @ (case typed (driver s) of None \<Rightarrow> []
       | Some c \<Rightarrow> if length (kbd_contents (driver s)) < 255 then [c] else [])\<rparr>)"
| fetch: "fetched s = None \<Longrightarrow> kbd_fetch (driver s) = Some c \<Longrightarrow> kbd_step s (s\<lparr>fetched := Some c\<rparr>)"
| advance: "fetched s = Some c \<Longrightarrow>
     kbd_step s (s\<lparr>fetched := None, driver := kbd_advance (driver s), delivered := delivered s @ [c]\<rparr>)"

definition kbd_sys_init :: "kbd_sys \<Rightarrow> bool" where
  "kbd_sys_init s \<longleftrightarrow> kbd_buffer_head (driver s) = 0 \<and> kbd_buffer_tail (driver s) = 0 \<and>
     fetched s = None \<and> accepted s = [] \<and> delivered s = []"

definition kbd_sys_inv :: "kbd_sys \<Rightarrow> bool" where
  "kbd_sys_inv s \<longleftrightarrow> kbd_ok (driver s) \<and> delivered s @ kbd_contents (driver s) = accepted s \<and>
     (\<forall>c. fetched s = Some c \<longrightarrow> (\<exists>cs. kbd_contents (driver s) = c # cs))"

lemma kbd_step_inv: "kbd_step s t \<Longrightarrow> kbd_sys_inv s \<Longrightarrow> kbd_sys_inv t"
proof (induction rule: kbd_step.induct)
  case (irq s)
  then show ?case
    by (auto simp: kbd_sys_inv_def keyboard_handler_ok keyboard_handler_contents)
next
  case (fetch s c)
  then show ?case
    using kbd_contents_head(1) [of "driver s"]
    by (auto simp: kbd_sys_inv_def kbd_fetch_def split: if_splits)
next
  case (advance s c)
  then obtain cs where cs: "kbd_ok (driver s)" "kbd_contents (driver s) = c # cs"
      "delivered s @ c # cs = accepted s"
    by (auto simp: kbd_sys_inv_def)
  then have "kbd_buffer_head (driver s) \<noteq> kbd_buffer_tail (driver s)"
    using kbd_contents_empty [OF cs(1)] by auto
  with kbd_contents_head [OF cs(1) this] cs show ?case
    by (simp add: kbd_sys_inv_def)
qed

lemma kbd_steps_inv: "kbd_step\<^sup>*\<^sup>* s t \<Longrightarrow> kbd_sys_inv s \<Longrightarrow> kbd_sys_inv t"
  by (induction rule: rtranclp_induct) (auto dest: kbd_step_inv)

lemma kbd_sys_init_inv: "kbd_sys_init s \<Longrightarrow> kbd_sys_inv s"
  by (simp add: kbd_sys_init_def kbd_sys_inv_def kbd_ok_def kbd_contents_empty)

text \<open>
  C21. under every interleaving of keyboard interrupts with the reading phases of keyboard_getchar
  the characters delivered followed by those in the ring are the characters accepted, in order,
  and the ring never holds more than 255
\<close>

theorem keyboard_delivers_in_order:
  assumes "kbd_sys_init s" and "kbd_step\<^sup>*\<^sup>* s t"
  shows "delivered t @ kbd_contents (driver t) = accepted t \<and> length (kbd_contents (driver t)) \<le> 255"
proof -
  have "kbd_sys_inv t"
    using assms by (blast intro: kbd_steps_inv kbd_sys_init_inv)
  then show ?thesis
    by (simp add: kbd_sys_inv_def kbd_ring.contents_bound)
qed

section \<open>Instances\<close>

definition boot_kbd :: kbd where
  "boot_kbd = tty.extend boot_tty (kbd.fields (\<lambda>_. nul) 0 0 False False False)"

lemma boot_kbd_simps [simp]:
  "kbd_buffer_head boot_kbd = 0" "kbd_buffer_tail boot_kbd = 0" "caps_lock boot_kbd = False"
  "lshift_pressed boot_kbd = False" "rshift_pressed boot_kbd = False" "tty_lock boot_kbd = 0"
  "io_log boot_kbd = []" "device boot_kbd l p = 0"
  by (simp_all add: boot_kbd_def boot_tty_def boot_hw_def hw.defs tty.defs kbd.defs)

text \<open>The driver when the key \<^verbatim>\<open>a\<close> (scan code 0x1E) is waiting in the controller.\<close>

definition kbd_a :: kbd where
  "kbd_a = boot_kbd\<lparr>device := \<lambda>_ _. 0x1E\<rparr>"

lemma kbd_a_types: "typed kbd_a = Some (CHR ''a'')" "kbd_contents kbd_a = []" "kbd_ok kbd_a"
  by (simp_all add: typed_def next_scancode_def kbd_a_def modifier_codes_def kbd_translate_def kbd_us_def
      nul_def kbd_contents_def ring_count_def kbd_ok_def Let_def)

text \<open>
  An instance of the statement above.
\<close>

theorem keyboard_handler_effect_witness:
  "kbd_contents (keyboard_handler kbd_a) = ''a'' \<and> \<not> caps_lock (keyboard_handler kbd_a)"
  using keyboard_handler_effect [of kbd_a] kbd_a_types by (simp add: next_scancode_def kbd_a_def)

text \<open>
  An instance of C22.
\<close>

theorem keyboard_translation_witness:
  "kbd_translate 0x1E (boot_kbd\<lparr>lshift_pressed := True\<rparr>) = CHR ''A''"
proof -
  have "char_of (65 :: nat) = CHR ''A''"
    using char_of_char [where 'a = nat and c = "CHR ''A''"] unfolding letter_codes .
  moreover have "is_lower (CHR ''a'')"
    by (simp add: is_lower_def letter_codes)
  ultimately show ?thesis
    using keyboard_translation [of "0x1E" "boot_kbd\<lparr>lshift_pressed := True\<rparr>"]
    by (simp add: key_meaning_def kbd_us_def kbd_us_shifted_def letter_codes)
qed

text \<open>
  An instance of C21.
\<close>

theorem keyboard_delivers_in_order_witness:
  "\<exists>t. kbd_step\<^sup>*\<^sup>* \<lparr>driver = kbd_a, fetched = None, accepted = [], delivered = []\<rparr> t \<and>
     accepted t = ''a'' \<and> delivered t @ kbd_contents (driver t) = ''a''"
proof -
  let ?s = "\<lparr>driver = kbd_a, fetched = None, accepted = [], delivered = []\<rparr>"
  let ?t = "?s\<lparr>driver := keyboard_handler (driver ?s),
     accepted := accepted ?s @ (case typed (driver ?s) of None \<Rightarrow> []
       | Some c \<Rightarrow> if length (kbd_contents (driver ?s)) < 255 then [c] else [])\<rparr>"
  have "kbd_step\<^sup>*\<^sup>* ?s ?t"
    using kbd_step.irq by blast
  moreover have "kbd_sys_init ?s"
    by (simp add: kbd_sys_init_def kbd_a_def)
  moreover have "accepted ?t = ''a''"
    by (simp add: kbd_a_types)
  ultimately show ?thesis
    using keyboard_delivers_in_order [of ?s ?t] by metis
qed

end
