(* ===== verification/Gdt.thy ===== *)
theory Gdt
  imports Keyboard
begin

text \<open>
  Segment descriptors and the task state segment (\<^verbatim>\<open>cpu/gdt.cpp\<close>, \<^verbatim>\<open>cpu/include/gdt.h\<close>, and
  \<^verbatim>\<open>gdt_flush\<close> of \<^verbatim>\<open>cpu/interrupts.S\<close>). The linker decides the addresses of the two tables;
  they are arguments. The last section reads a descriptor the way the processor does, from its
  eight bytes, and shows that this recovers what \<open>gdt_set_gate\<close> was asked for.
\<close>

section \<open>The state\<close>

record gdt_entry =
  limit_low :: u16
  base_low :: u16
  base_middle :: u8
  access :: u8
  granularity :: u8
  base_high :: u8

record tss_entry =
  tss_prev :: u32
  tss_esp0 :: u32
  tss_ss0 :: u32
  tss_esp1 :: u32
  tss_ss1 :: u32
  tss_esp2 :: u32
  tss_ss2 :: u32
  tss_cr3 :: u32
  tss_eip :: u32
  tss_eflags :: u32
  tss_eax :: u32
  tss_ecx :: u32
  tss_edx :: u32
  tss_ebx :: u32
  tss_esp :: u32
  tss_ebp :: u32
  tss_esi :: u32
  tss_edi :: u32
  tss_es :: u32
  tss_cs :: u32
  tss_ss :: u32
  tss_ds :: u32
  tss_fs :: u32
  tss_gs :: u32
  tss_ldt :: u32
  tss_trap :: u16
  tss_iomap_base :: u16

record cpu = kbd +
  gdt_entries :: "gdt_entry list"
  gdt_ptr :: "u16 \<times> u32"
  gdtr :: "u16 \<times> u32"
  seg_cs :: u16
  seg_ds :: u16
  seg_es :: u16
  seg_fs :: u16
  seg_gs :: u16
  seg_ss :: u16
  task_register :: u16
  tss :: tss_entry

definition GDT_KERNEL_CODE_SEGMENT :: u32 where "GDT_KERNEL_CODE_SEGMENT = 0x08"
definition GDT_KERNEL_DATA_SEGMENT :: u32 where "GDT_KERNEL_DATA_SEGMENT = 0x10"
definition GDT_USER_CODE_SEGMENT :: u32 where "GDT_USER_CODE_SEGMENT = 0x18"
definition GDT_USER_DATA_SEGMENT :: u32 where "GDT_USER_DATA_SEGMENT = 0x20"
definition GDT_TSS_SEGMENT :: u32 where "GDT_TSS_SEGMENT = 0x28"
definition GDT_ENTRIES :: nat where "GDT_ENTRIES = 6"

lemmas segment_constants =
  GDT_KERNEL_CODE_SEGMENT_def GDT_KERNEL_DATA_SEGMENT_def GDT_USER_CODE_SEGMENT_def
  GDT_USER_DATA_SEGMENT_def GDT_TSS_SEGMENT_def GDT_ENTRIES_def

section \<open>The operations\<close>

definition gdt_make_entry :: "u32 \<Rightarrow> u32 \<Rightarrow> u8 \<Rightarrow> u8 \<Rightarrow> gdt_entry" where
  "gdt_make_entry base limit acc gran =
     \<lparr>limit_low = ucast (limit AND 0xFFFF),
      base_low = ucast (base AND 0xFFFF),
      base_middle = ucast (drop_bit 16 base AND 0xFF),
      access = acc,
      granularity = ucast (drop_bit 16 limit AND 0x0F) OR (gran AND 0xF0),
      base_high = ucast (drop_bit 24 base AND 0xFF)\<rparr>"

text \<open>\<open>num\<close> is a signed index; outside the table the code writes past the array.\<close>

definition gdt_set_gate :: "u32 \<Rightarrow> u32 \<Rightarrow> u32 \<Rightarrow> u8 \<Rightarrow> u8 \<Rightarrow> 'a cpu_scheme \<Rightarrow> 'a cpu_scheme outcome" where
  "gdt_set_gate num base limit acc gran s =
     (if num <s 0 \<or> GDT_ENTRIES \<le> unat num then Inl Wild
      else Inr (s\<lparr>gdt_entries := (gdt_entries s)[unat num := gdt_make_entry base limit acc gran]\<rparr>))"

text \<open>The assembly routine: \<^verbatim>\<open>lgdt\<close>, the data segments, and the far jump that loads \<^verbatim>\<open>cs\<close>.\<close>

definition gdt_flush :: "'a cpu_scheme \<Rightarrow> 'a cpu_scheme" where
  "gdt_flush s =
     s\<lparr>gdtr := gdt_ptr s, seg_ds := 0x10, seg_es := 0x10, seg_fs := 0x10, seg_gs := 0x10,
       seg_ss := 0x10, seg_cs := 0x08\<rparr>"

definition sizeof_tss :: u32 where "sizeof_tss = 104"

definition gdt_install :: "u32 \<Rightarrow> u32 \<Rightarrow> 'a cpu_scheme \<Rightarrow> 'a cpu_scheme outcome" where
  "gdt_install gdt_addr tss_addr s =
     (let s = s\<lparr>gdt_ptr := (of_nat (8 * GDT_ENTRIES - 1), gdt_addr)\<rparr>
      in bind_outcome (gdt_set_gate 0 0 0 0 0 s) (\<lambda>s.
         bind_outcome (gdt_set_gate 1 0 0xFFFFFFFF 0x9A 0xCF s) (\<lambda>s.
         bind_outcome (gdt_set_gate 2 0 0xFFFFFFFF 0x92 0xCF s) (\<lambda>s.
         bind_outcome (gdt_set_gate 3 0 0xFFFFFFFF 0xFA 0xCF s) (\<lambda>s.
         bind_outcome (gdt_set_gate 4 0 0xFFFFFFFF 0xF2 0xCF s) (\<lambda>s.
         bind_outcome (gdt_set_gate 5 tss_addr (sizeof_tss - 1) 0xE9 0x00 s) (\<lambda>s.
           Inr (gdt_flush s))))))))"

definition tss_zero :: tss_entry where
  "tss_zero =
     \<lparr>tss_prev = 0, tss_esp0 = 0, tss_ss0 = 0, tss_esp1 = 0, tss_ss1 = 0, tss_esp2 = 0, tss_ss2 = 0,
      tss_cr3 = 0, tss_eip = 0, tss_eflags = 0, tss_eax = 0, tss_ecx = 0, tss_edx = 0, tss_ebx = 0,
      tss_esp = 0, tss_ebp = 0, tss_esi = 0, tss_edi = 0, tss_es = 0, tss_cs = 0, tss_ss = 0,
      tss_ds = 0, tss_fs = 0, tss_gs = 0, tss_ldt = 0, tss_trap = 0, tss_iomap_base = 0\<rparr>"

definition tss_install :: "u32 \<Rightarrow> 'a cpu_scheme \<Rightarrow> 'a cpu_scheme outcome" where
  "tss_install kernel_stack_ptr s =
     (let t = tss_zero\<lparr>tss_ss0 := GDT_KERNEL_DATA_SEGMENT, tss_esp0 := kernel_stack_ptr,
            tss_cs := GDT_KERNEL_CODE_SEGMENT OR 0x03\<rparr>;
          v = GDT_KERNEL_DATA_SEGMENT OR 0x03;
          t = t\<lparr>tss_gs := v, tss_fs := v, tss_es := v, tss_ds := v, tss_ss := v\<rparr>;
          s = s\<lparr>tss := t, task_register := ucast GDT_TSS_SEGMENT\<rparr>
      in print (''TSS installed. Kernel stack top: 0x%x'' @ [newline_char]) [PInt kernel_stack_ptr] s)"

definition tss_set_stack :: "u32 \<Rightarrow> 'a cpu_scheme \<Rightarrow> 'a cpu_scheme" where
  "tss_set_stack stack s = s\<lparr>tss := (tss s)\<lparr>tss_esp0 := stack\<rparr>\<rparr>"

section \<open>What the processor reads\<close>

definition le16 :: "u16 \<Rightarrow> u8 list" where
  "le16 v = [ucast v, ucast (drop_bit 8 v)]"

definition le32 :: "u32 \<Rightarrow> u8 list" where
  "le32 v = [ucast v, ucast (drop_bit 8 v), ucast (drop_bit 16 v), ucast (drop_bit 24 v)]"

text \<open>The packed structure in memory, and the fields of a descriptor in its eight bytes.\<close>

definition gdt_entry_bytes :: "gdt_entry \<Rightarrow> u8 list" where
  "gdt_entry_bytes e =
     le16 (limit_low e) @ le16 (base_low e) @ [base_middle e, access e, granularity e, base_high e]"

definition desc_base :: "u8 list \<Rightarrow> u32" where
  "desc_base b = ucast (b ! 2) OR push_bit 8 (ucast (b ! 3)) OR push_bit 16 (ucast (b ! 4))
     OR push_bit 24 (ucast (b ! 7))"

definition desc_limit :: "u8 list \<Rightarrow> u32" where
  "desc_limit b = ucast (b ! 0) OR push_bit 8 (ucast (b ! 1)) OR push_bit 16 (ucast (b ! 6 AND 0x0F))"

definition desc_last_byte :: "u8 list \<Rightarrow> u32" where
  "desc_last_byte b =
     (if bit (b ! 6) 7 then push_bit 12 (desc_limit b) OR 0xFFF else desc_limit b)"

definition desc_present :: "u8 list \<Rightarrow> bool" where
  "desc_present b = bit (b ! 5) 7"

definition desc_ring :: "u8 list \<Rightarrow> u8" where
  "desc_ring b = drop_bit 5 (b ! 5) AND 3"

definition desc_type :: "u8 list \<Rightarrow> u8" where
  "desc_type b = b ! 5 AND 0x1F"

text \<open>Masks, bit by bit.\<close>

lemma bit_mask_numerals_int:
  "bit (0xFF :: int) n \<longleftrightarrow> n < 8"
  "bit (0xFFFF :: int) n \<longleftrightarrow> n < 16"
  "bit (0x0F :: int) n \<longleftrightarrow> n < 4"
  "bit (0xF0 :: int) n \<longleftrightarrow> 4 \<le> n \<and> n < 8"
  "bit (0xFFFFF :: int) n \<longleftrightarrow> n < 20"
proof -
  have *: "bit (mask m :: int) n \<longleftrightarrow> n < m" for m
    by (simp add: bit_mask_iff)
  show "bit (0xFF :: int) n \<longleftrightarrow> n < 8" "bit (0xFFFF :: int) n \<longleftrightarrow> n < 16"
    "bit (0x0F :: int) n \<longleftrightarrow> n < 4" "bit (0xFFFFF :: int) n \<longleftrightarrow> n < 20"
    using * [of 8] * [of 16] * [of 4] * [of 20] by (simp_all add: mask_eq_exp_minus_1)
  have "(0xF0 :: int) = push_bit 4 (mask 4)"
    by (simp add: mask_eq_exp_minus_1 push_bit_eq_mult)
  moreover have "bit (push_bit 4 (mask 4) :: int) n \<longleftrightarrow> 4 \<le> n \<and> n < 8"
    by (auto simp: bit_simps)
  ultimately show "bit (0xF0 :: int) n \<longleftrightarrow> 4 \<le> n \<and> n < 8"
    by (simp only:)
qed

lemma desc_base_make: "desc_base (gdt_entry_bytes (gdt_make_entry base limit acc gran)) = base"
proof (rule bit_word_eqI)
  fix n
  assume "n < LENGTH(32)"
  then consider "n < 8" | "8 \<le> n" "n < 16" | "16 \<le> n" "n < 24" | "24 \<le> n" "n < 32"
    by fastforce
  then show "bit (desc_base (gdt_entry_bytes (gdt_make_entry base limit acc gran))) n \<longleftrightarrow> bit base n"
    by cases (auto simp: desc_base_def gdt_entry_bytes_def gdt_make_entry_def le16_def
        nth_append bit_simps bit_mask_numerals_int)
qed

lemma desc_limit_make:
  "desc_limit (gdt_entry_bytes (gdt_make_entry base limit acc gran)) = limit AND 0xFFFFF"
proof (rule bit_word_eqI)
  fix n
  assume "n < LENGTH(32)"
  then consider "n < 8" | "8 \<le> n" "n < 16" | "16 \<le> n" "n < 20" | "20 \<le> n" "n < 32"
    by fastforce
  then show "bit (desc_limit (gdt_entry_bytes (gdt_make_entry base limit acc gran))) n
      \<longleftrightarrow> bit (limit AND 0xFFFFF) n"
    by cases (auto simp: desc_limit_def gdt_entry_bytes_def gdt_make_entry_def le16_def
        nth_append bit_simps bit_mask_numerals_int)
qed

lemma desc_access_make: "gdt_entry_bytes (gdt_make_entry base limit acc gran) ! 5 = acc"
  by (simp add: gdt_entry_bytes_def gdt_make_entry_def le16_def nth_append)

lemma desc_coarse_make:
  "bit (gdt_entry_bytes (gdt_make_entry base limit acc gran) ! 6) 7 \<longleftrightarrow> bit gran 7"
  by (auto simp: gdt_entry_bytes_def gdt_make_entry_def le16_def nth_append bit_simps
      bit_mask_numerals_int)

lemma coarse_limit: "push_bit 12 (limit AND 0xFFFFF) OR 0xFFF = push_bit 12 limit OR (0xFFF :: u32)"
proof -
  have "push_bit 12 (limit AND mask 20) OR mask 12 = push_bit 12 limit OR (mask 12 :: u32)"
    by (rule bit_word_eqI) (auto simp: bit_simps)
  then show ?thesis
    by (simp add: mask_eq_exp_minus_1)
qed

lemma desc_last_byte_make:
  "desc_last_byte (gdt_entry_bytes (gdt_make_entry base limit acc gran)) =
     (if bit gran 7 then push_bit 12 limit OR 0xFFF else limit AND 0xFFFFF)"
  unfolding desc_last_byte_def desc_coarse_make desc_limit_make coarse_limit by simp

lemmas desc_make =
  desc_base_make desc_limit_make desc_last_byte_make desc_access_make

lemma small_index_not_negative:
  assumes "unat num < GDT_ENTRIES"
  shows "\<not> num <s (0 :: u32)"
proof -
  have "uint num < 2147483648"
    using assms unfolding uint_nat GDT_ENTRIES_def by linarith
  then show ?thesis
    by (simp add: word_sless_alt sint_u32)
qed

lemma gdt_set_gate_ok:
  "unat num < GDT_ENTRIES \<Longrightarrow>
     gdt_set_gate num base limit acc gran s =
       Inr (s\<lparr>gdt_entries := (gdt_entries s)[unat num := gdt_make_entry base limit acc gran]\<rparr>)"
  by (simp add: gdt_set_gate_def small_index_not_negative)

section \<open>What the tables say\<close>

text \<open>
  The base, the limit and the access byte that the processor decodes from the eight bytes written
  by gdt_set_gate are those it was given.
\<close>

theorem gdt_set_gate_descriptor:
  assumes "unat num < GDT_ENTRIES" "length (gdt_entries s) = GDT_ENTRIES"
  shows "\<exists>s' e. gdt_set_gate num base limit acc gran s = Inr s' \<and>
           gdt_entries s' = (gdt_entries s)[unat num := e] \<and> gdt_entries s' ! unat num = e \<and>
           desc_base (gdt_entry_bytes e) = base \<and>
           desc_last_byte (gdt_entry_bytes e) =
             (if bit gran 7 then push_bit 12 limit OR 0xFFF else limit AND 0xFFFFF) \<and>
           gdt_entry_bytes e ! 5 = acc"
  using assms by (simp add: gdt_set_gate_ok desc_make)

definition flat_segment :: "u8 list \<Rightarrow> u8 \<Rightarrow> u8 \<Rightarrow> bool" where
  "flat_segment b ring typ \<longleftrightarrow>
     desc_present b \<and> desc_base b = 0 \<and> desc_last_byte b = 0xFFFFFFFF \<and> desc_ring b = ring
     \<and> desc_type b = typ"

text \<open>
  C26. gdt_install loads a table whose null descriptor is zero, whose four segments are flat with
  the right rings and types and whose sixth descriptor is the task state segment, and reloads the
  segment registers
\<close>

theorem gdt_install_flat_model:
  assumes "length (gdt_entries s) = GDT_ENTRIES"
  shows "\<exists>s'. gdt_install gdt_addr tss_addr s = Inr s' \<and>
           gdtr s' = (47, gdt_addr) \<and>
           [seg_cs s', seg_ds s', seg_es s', seg_fs s', seg_gs s', seg_ss s'] =
             [0x08, 0x10, 0x10, 0x10, 0x10, 0x10] \<and>
           (let d = \<lambda>i. gdt_entry_bytes (gdt_entries s' ! i)
            in d 0 = replicate 8 0 \<and>
               flat_segment (d 1) 0 0x1A \<and> flat_segment (d 2) 0 0x12 \<and>
               flat_segment (d 3) 3 0x1A \<and> flat_segment (d 4) 3 0x12 \<and>
               desc_present (d 5) \<and> desc_type (d 5) = 9 \<and> desc_base (d 5) = tss_addr \<and>
               desc_last_byte (d 5) + 1 = sizeof_tss)"
proof -
  obtain a b c d e f where "gdt_entries s = [a, b, c, d, e, f]"
    using assms by (auto simp: GDT_ENTRIES_def eval_nat_numeral length_Suc_conv)
  moreover have "gdt_entry_bytes (gdt_make_entry 0 0 0 0) = replicate 8 0"
    by (simp add: gdt_entry_bytes_def gdt_make_entry_def le16_def eval_nat_numeral)
  ultimately show ?thesis
    by (simp add: gdt_install_def gdt_set_gate_ok GDT_ENTRIES_def gdt_flush_def flat_segment_def
        desc_make desc_present_def desc_ring_def desc_type_def sizeof_tss_def)
qed

text \<open>
  The processor's check of an \<^verbatim>\<open>in\<close> or \<^verbatim>\<open>out\<close> of one byte that is executed without I/O
  privilege: the permission bit lies at \<open>tss_iomap_base\<close> in the task state segment, and both the byte
  that holds it and the next one must be inside the segment.
\<close>

definition tss_bytes :: "tss_entry \<Rightarrow> u8 list" where
  "tss_bytes t =
     concat (List.map le32
       [tss_prev t, tss_esp0 t, tss_ss0 t, tss_esp1 t, tss_ss1 t, tss_esp2 t, tss_ss2 t, tss_cr3 t,
        tss_eip t, tss_eflags t, tss_eax t, tss_ecx t, tss_edx t, tss_ebx t, tss_esp t, tss_ebp t,
        tss_esi t, tss_edi t, tss_es t, tss_cs t, tss_ss t, tss_ds t, tss_fs t, tss_gs t, tss_ldt t])
     @ le16 (tss_trap t) @ le16 (tss_iomap_base t)"

definition io_permitted :: "tss_entry \<Rightarrow> u16 \<Rightarrow> bool" where
  "io_permitted t port \<longleftrightarrow>
     (let off = unat (tss_iomap_base t) + unat port div 8
      in off + 1 < length (tss_bytes t) \<and> \<not> bit (tss_bytes t ! off) (unat port mod 8))"

lemma tss_install_returns:
  assumes "tty_lock s = 0"
  shows "\<exists>t. tss_install k s = Inr t"
proof -
  define msg where "msg = ''TSS installed. Kernel stack top: 0x%x'' @ [newline_char]"
  have "render msg [PInt k] \<noteq> None"
    by (simp add: msg_def)
  with assms show ?thesis
    unfolding tss_install_def Let_def msg_def [symmetric] by (intro print_ok) simp_all
qed

lemma tss_bytes_size: "length (tss_bytes t) = unat sizeof_tss"
  by (simp add: tss_bytes_def le32_def le16_def sizeof_tss_def)

text \<open>
  Tss_install sets the ring 0 stack and loads the task register, and because it leaves the offset
  of the I/O bitmap zero the processor lets ring 3 use the keyboard ports.
\<close>

theorem tss_install_effect:
  assumes "tss_install k s = Inr s'"
  shows "tss_esp0 (tss s') = k \<and> tss_ss0 (tss s') = 0x10 \<and> task_register s' = 0x28 \<and>
    io_permitted (tss s') 0x60 \<and> io_permitted (tss s') 0x64"
proof -
  let ?t = "tss_zero\<lparr>tss_esp0 := k, tss_ss0 := 0x10, tss_es := 0x13, tss_cs := 0x0B, tss_ss := 0x13,
    tss_ds := 0x13, tss_fs := 0x13, tss_gs := 0x13\<rparr>"
  have "tss s' = ?t \<and> task_register s' = 0x28"
    using assms by (auto simp: tss_install_def Let_def segment_constants tss_zero_def elim!: print_changes)
  moreover have "io_permitted ?t 0x60" "io_permitted ?t 0x64"
    by (simp_all add: io_permitted_def tss_bytes_def le32_def le16_def tss_zero_def nth_append)
  ultimately show ?thesis
    by (simp add: tss_zero_def)
qed

section \<open>Instances\<close>

definition boot_cpu :: cpu where
  "boot_cpu = kbd.extend boot_kbd
     (cpu.fields (replicate 6 (gdt_make_entry 0 0 0 0)) (0, 0) (0, 0) 0 0 0 0 0 0 0 tss_zero)"

lemma boot_cpu_simps [simp]:
  "length (gdt_entries boot_cpu) = 6" "tty_lock boot_cpu = 0" "tss boot_cpu = tss_zero"
  by (simp_all add: boot_cpu_def boot_kbd_def boot_tty_def boot_hw_def hw.defs tty.defs kbd.defs cpu.defs)

text \<open>
  An instance of the statement above.
\<close>

theorem gdt_set_gate_descriptor_witness:
  "\<exists>s e. gdt_set_gate 5 0xC0123456 103 0xE9 0 boot_cpu = Inr s \<and> gdt_entries s ! 5 = e \<and>
     desc_base (gdt_entry_bytes e) = 0xC0123456 \<and> desc_last_byte (gdt_entry_bytes e) = 103"
  using gdt_set_gate_descriptor [of 5 boot_cpu "0xC0123456" 103 "0xE9" 0]
  by (auto simp: GDT_ENTRIES_def)

text \<open>
  An instance of C26.
\<close>

theorem gdt_install_flat_model_witness:
  "\<exists>s. gdt_install 0xC0100000 0xC0101000 boot_cpu = Inr s \<and> gdtr s = (47, 0xC0100000)"
  using gdt_install_flat_model [of boot_cpu "0xC0100000" "0xC0101000"] by (auto simp: GDT_ENTRIES_def)

text \<open>
  An instance of the statement above.
\<close>

theorem tss_install_effect_witness:
  "\<exists>s. tss_install 0xC0104000 boot_cpu = Inr s \<and> tss_esp0 (tss s) = 0xC0104000 \<and> io_permitted (tss s) 0x60"
proof -
  obtain s where s: "tss_install 0xC0104000 boot_cpu = Inr s"
    using tss_install_returns [of boot_cpu] by auto
  then show ?thesis
    using tss_install_effect [OF s] by blast
qed

end
