(* ===== verification/Idt.thy ===== *)
theory Idt
  imports Gdt
begin

text \<open>
  The interrupt descriptor table (\<^verbatim>\<open>cpu/idt.cpp\<close>, \<^verbatim>\<open>cpu/include/idt.h\<close>). The addresses of the
  assembly entry points \<^verbatim>\<open>isr0 .. isr31\<close>, \<^verbatim>\<open>irq0 .. irq15\<close>, \<^verbatim>\<open>isr128\<close> and of the table are
  chosen by the linker and are arguments. \<open>gate_target\<close> reads the table the way the processor
  does when an interrupt arrives.
\<close>

record idt_entry =
  gate_low :: u16
  gate_sel :: u16
  gate_zero :: u8
  gate_flags :: u8
  gate_high :: u16

record idt = cpu +
  idt_entries :: "idt_entry list"
  idt_ptr :: "u16 \<times> u32"
  idtr :: "u16 \<times> u32"

definition idt_make_entry :: "u32 \<Rightarrow> u16 \<Rightarrow> u8 \<Rightarrow> idt_entry" where
  "idt_make_entry base sel flags =
     \<lparr>gate_low = ucast (base AND 0xFFFF), gate_sel = sel, gate_zero = 0, gate_flags = flags,
      gate_high = ucast (drop_bit 16 base AND 0xFFFF)\<rparr>"

text \<open>The vector is one byte and the table has 256 entries, so the index is always inside.\<close>

definition idt_set_gate :: "u8 \<Rightarrow> u32 \<Rightarrow> u16 \<Rightarrow> u8 \<Rightarrow> 'a idt_scheme \<Rightarrow> 'a idt_scheme" where
  "idt_set_gate num base sel flags s =
     s\<lparr>idt_entries := (idt_entries s)[unat num := idt_make_entry base sel flags]\<rparr>"

definition idt_install ::
    "(nat \<Rightarrow> u32) \<Rightarrow> (nat \<Rightarrow> u32) \<Rightarrow> u32 \<Rightarrow> u32 \<Rightarrow> 'a idt_scheme \<Rightarrow> 'a idt_scheme" where
  "idt_install isr irq isr128 idt_addr s =
     (let s = s\<lparr>idt_ptr := (of_nat (8 * 256 - 1), idt_addr)\<rparr>;
          s = fold (\<lambda>i. idt_set_gate (of_nat i) 0 0 0) [0..<256] s;
          s = fold (\<lambda>i. idt_set_gate (of_nat i) (isr i) 0x08 0x8E) [0..<32] s;
          s = fold (\<lambda>i. idt_set_gate (of_nat (32 + i)) (irq i) 0x08 0x8E) [0..<16] s;
          s = idt_set_gate 128 isr128 0x08 0xEE s
      in s\<lparr>idtr := idt_ptr s\<rparr>)"

section \<open>What the processor reads\<close>

text \<open>
  The target of a vector: selector and offset, if the gate is present and is a 32 bit interrupt
  gate, and if a software interrupt from ring \<open>cpl\<close> may use it.
\<close>

definition gate_address :: "idt_entry \<Rightarrow> u32" where
  "gate_address e = push_bit 16 (ucast (gate_high e)) OR ucast (gate_low e)"

definition gate_target :: "idt_entry list \<Rightarrow> nat \<Rightarrow> (u16 \<times> u32) option" where
  "gate_target t v =
     (if v < length t \<and> bit (gate_flags (t ! v)) 7 \<and> gate_flags (t ! v) AND 0x1F = 0x0E
      then Some (gate_sel (t ! v), gate_address (t ! v)) else None)"

definition software_gate :: "idt_entry list \<Rightarrow> nat \<Rightarrow> u8 \<Rightarrow> bool" where
  "software_gate t v cpl \<longleftrightarrow>
     gate_target t v \<noteq> None \<and> cpl \<le> (drop_bit 5 (gate_flags (t ! v)) AND 3)"

lemma gate_address_make: "gate_address (idt_make_entry base sel flags) = base"
proof (rule bit_word_eqI)
  fix n
  assume "n < LENGTH(32)"
  then consider "n < 16" | "16 \<le> n" "n < 32"
    by fastforce
  then show "bit (gate_address (idt_make_entry base sel flags)) n \<longleftrightarrow> bit base n"
    by cases (auto simp: gate_address_def idt_make_entry_def bit_simps bit_mask_numerals_int)
qed

lemma idt_set_gate_frame [simp]:
  "length (idt_entries (idt_set_gate v b sel fl s)) = length (idt_entries s)"
  "idt_ptr (idt_set_gate v b sel fl s) = idt_ptr s"
  by (simp_all add: idt_set_gate_def)

lemma idt_set_gates:
  fixes base :: "nat \<Rightarrow> u32"
  assumes "length (idt_entries s) = 256" "k + n \<le> 256"
  shows "let t = fold (\<lambda>i. idt_set_gate (of_nat (k + i)) (base i) sel fl) [0..<n] s
    in length (idt_entries t) = 256 \<and> idt_ptr t = idt_ptr s \<and>
       (\<forall>v < 256. idt_entries t ! v =
          (if k \<le> v \<and> v < k + n then idt_make_entry (base (v - k)) sel fl else idt_entries s ! v))"
  using assms(2)
proof (induction n)
  case 0
  with assms(1) show ?case by auto
next
  case (Suc n)
  have "unat (of_nat (k + n) :: u8) = k + n"
    using Suc.prems by (subst unat_of_nat_small) simp_all
  with Suc show ?case
    by (auto simp: Let_def idt_set_gate_def nth_list_update simp del: of_nat_add)
qed


section \<open>Instances\<close>

definition boot_idt :: idt where
  "boot_idt = cpu.extend boot_cpu (idt.fields (replicate 256 (idt_make_entry 0 0 0)) (0, 0) (0, 0))"

lemma boot_idt_simps [simp]: "length (idt_entries boot_idt) = 256" "tty_lock boot_idt = 0"
  by (simp_all add: boot_idt_def boot_cpu_def boot_kbd_def boot_tty_def boot_hw_def hw.defs tty.defs kbd.defs
      cpu.defs idt.defs)


end
