(* ===== verification/CMem.thy ===== *)
theory CMem
  imports Prelude
begin

text \<open>
  Byte-addressed memory and the routines of \<^verbatim>\<open>libc/string\<close>. A memory is a function from 32-bit
  addresses to bytes and pointer arithmetic wraps around, as on the machine; a loop over a
  number of bytes is a \<open>fold\<close>, a loop that runs until a terminating zero is a
  \<open>partial_function\<close> whose value \<open>None\<close> means that it never returns.

  The routines are proved against ranges (\<open>mem_range\<close>) and C strings (\<open>c_str\<close>).
\<close>

type_synonym memory = "u32 \<Rightarrow> u8"

section \<open>Words in memory\<close>

definition load32 :: "memory \<Rightarrow> u32 \<Rightarrow> u32" where
  "load32 m a = ucast (m a) OR push_bit 8 (ucast (m (a + 1))) OR push_bit 16 (ucast (m (a + 2)))
     OR push_bit 24 (ucast (m (a + 3)))"

definition load64 :: "memory \<Rightarrow> u32 \<Rightarrow> u64" where
  "load64 m a = ucast (load32 m a) OR push_bit 32 (ucast (load32 m (a + 4)))"

definition store32 :: "memory \<Rightarrow> u32 \<Rightarrow> u32 \<Rightarrow> memory" where
  "store32 m a v = m(a := ucast v, a + 1 := ucast (drop_bit 8 v), a + 2 := ucast (drop_bit 16 v),
     a + 3 := ucast (drop_bit 24 v))"

definition aligned4 :: "u32 \<Rightarrow> bool" where
  "aligned4 a \<longleftrightarrow> unat a mod 4 = 0"

lemma offset_ne [simp]:
  fixes a :: u32
  shows "a + 1 \<noteq> a" "a + 2 \<noteq> a" "a + 3 \<noteq> a" "a + 2 \<noteq> a + 1" "a + 3 \<noteq> a + 1" "a + 3 \<noteq> a + 2"
    "a \<noteq> a + 1" "a \<noteq> a + 2" "a \<noteq> a + 3" "a + 1 \<noteq> a + 2" "a + 1 \<noteq> a + 3" "a + 2 \<noteq> a + 3"
  by (simp_all add: add_left_cancel)

lemma load_store_same [simp]: "load32 (store32 m a v) a = v"
proof (rule bit_word_eqI)
  fix n
  assume "n < LENGTH(32)"
  then consider "n < 8" | "8 \<le> n" "n < 16" | "16 \<le> n" "n < 24" | "24 \<le> n" "n < 32"
    by fastforce
  then show "bit (load32 (store32 m a v) a) n \<longleftrightarrow> bit v n"
    by cases (auto simp: load32_def store32_def bit_simps)
qed

lemma aligned4_offset: "aligned4 a \<Longrightarrow> i < 4 \<Longrightarrow> unat (a + of_nat i) = unat a + i"
proof -
  assume "aligned4 a" and "i < 4"
  then have "unat a + i < 4294967296"
    using unat_u32_bound [of a] unfolding aligned4_def by presburger
  with \<open>i < 4\<close> show ?thesis
    by (simp add: unat_add_small unat_of_nat_small)
qed

lemma aligned4_disjoint:
  assumes "aligned4 a" "aligned4 b" "a \<noteq> b" "i < 4" "j < 4"
  shows "a + of_nat i \<noteq> b + of_nat j"
proof
  assume "a + of_nat i = b + of_nat j"
  then have "unat a + i = unat b + j"
    using assms aligned4_offset by metis
  then have "unat a = unat b"
    using assms(1,2,4,5) unfolding aligned4_def by presburger
  with assms(3) show False
    by (simp add: word_unat_eq_iff)
qed

lemma load_store_other:
  assumes "aligned4 a" "aligned4 b" "a \<noteq> b"
  shows "load32 (store32 m a v) b = load32 m b"
proof -
  have "a + of_nat i \<noteq> b + of_nat j" if "i < 4" "j < 4" for i j
    using assms that by (rule aligned4_disjoint)
  from this [of 0 0] this [of 0 1] this [of 0 2] this [of 0 3] this [of 1 0] this [of 1 1]
    this [of 1 2] this [of 1 3] this [of 2 0] this [of 2 1] this [of 2 2] this [of 2 3]
    this [of 3 0] this [of 3 1] this [of 3 2] this [of 3 3]
  show ?thesis
    by (simp add: load32_def store32_def)
qed

section \<open>The routines\<close>

definition memset :: "memory \<Rightarrow> u32 \<Rightarrow> u32 \<Rightarrow> u32 \<Rightarrow> memory" where
  "memset m buf val sz = fold (\<lambda>i m. m(buf + of_nat i := ucast val)) [0..<unat sz] m"

definition copy_up :: "u32 \<Rightarrow> u32 \<Rightarrow> nat \<Rightarrow> memory \<Rightarrow> memory" where
  "copy_up dst src n m = fold (\<lambda>i m. m(dst + of_nat i := m (src + of_nat i))) [0..<n] m"

definition copy_down :: "u32 \<Rightarrow> u32 \<Rightarrow> nat \<Rightarrow> memory \<Rightarrow> memory" where
  "copy_down dst src n m = fold (\<lambda>i m. m(dst + of_nat i := m (src + of_nat i))) (rev [0..<n]) m"

definition memcpy :: "memory \<Rightarrow> u32 \<Rightarrow> u32 \<Rightarrow> u32 \<Rightarrow> memory" where
  "memcpy m dst src sz = copy_up dst src (unat sz) m"

definition memmove :: "memory \<Rightarrow> u32 \<Rightarrow> u32 \<Rightarrow> u32 \<Rightarrow> memory" where
  "memmove m dst src sz =
     (if dst < src then copy_up dst src (unat sz) m else copy_down dst src (unat sz) m)"

fun memcmp_loop :: "memory \<Rightarrow> u32 \<Rightarrow> u32 \<Rightarrow> nat list \<Rightarrow> u32" where
  "memcmp_loop m a b [] = 0"
| "memcmp_loop m a b (i # is) =
     (if m (a + of_nat i) < m (b + of_nat i) then -1
      else if m (b + of_nat i) < m (a + of_nat i) then 1
      else memcmp_loop m a b is)"

definition memcmp :: "memory \<Rightarrow> u32 \<Rightarrow> u32 \<Rightarrow> u32 \<Rightarrow> u32" where
  "memcmp m a b sz = memcmp_loop m a b [0..<unat sz]"

partial_function (option) strlen_loop :: "memory \<Rightarrow> u32 \<Rightarrow> u32 \<Rightarrow> u32 option" where
  "strlen_loop m str len =
     (if m (str + len) \<noteq> 0 then strlen_loop m str (len + 1) else Some len)"

definition strlen :: "memory \<Rightarrow> u32 \<Rightarrow> u32 option" where
  "strlen m str = strlen_loop m str 0"

partial_function (option) strcmp :: "memory \<Rightarrow> u32 \<Rightarrow> u32 \<Rightarrow> u32 option" where
  "strcmp m s1 s2 =
     (if m s1 \<noteq> 0 \<and> m s1 = m s2 then strcmp m (s1 + 1) (s2 + 1)
      else Some (ucast (m s1) - ucast (m s2)))"

partial_function (option) strcpy :: "memory \<Rightarrow> u32 \<Rightarrow> u32 \<Rightarrow> memory option" where
  "strcpy m dest src =
     (if m src \<noteq> 0 then strcpy (m(dest := m src)) (dest + 1) (src + 1) else Some (m(dest := 0)))"

section \<open>Ranges\<close>

text \<open>A range does not wrap around the address space.\<close>

definition range_ok :: "u32 \<Rightarrow> nat \<Rightarrow> bool" where
  "range_ok p n \<longleftrightarrow> unat p + n \<le> 4294967296"

definition in_range :: "u32 \<Rightarrow> nat \<Rightarrow> u32 \<Rightarrow> bool" where
  "in_range p n x \<longleftrightarrow> unat p \<le> unat x \<and> unat x < unat p + n"

lemma range_offset: "range_ok p n \<Longrightarrow> i < n \<Longrightarrow> unat (p + of_nat i) = unat p + i"
proof -
  assume "range_ok p n" and "i < n"
  then have "unat p + i < 4294967296" and "i < 4294967296"
    by (simp_all add: range_ok_def)
  then show ?thesis
    by (simp add: unat_add_small unat_of_nat_small)
qed

lemma in_range_offset: "range_ok p n \<Longrightarrow> i < n \<Longrightarrow> in_range p n (p + of_nat i)"
  by (simp add: range_offset in_range_def)

lemma in_range_iff:
  assumes "range_ok p n"
  shows "in_range p n x \<longleftrightarrow> (\<exists>i<n. x = p + of_nat i)"
proof
  assume x: "in_range p n x"
  then have "unat (p + of_nat (unat x - unat p)) = unat x"
    using assms by (subst range_offset [of p n]) (auto simp: in_range_def)
  then have "x = p + of_nat (unat x - unat p)"
    by (simp add: word_unat_eq_iff)
  with x show "\<exists>i<n. x = p + of_nat i"
    by (intro exI [of _ "unat x - unat p"]) (auto simp: in_range_def)
qed (use assms in \<open>auto simp: in_range_offset\<close>)

lemma range_ok_mono: "range_ok p n \<Longrightarrow> k \<le> n \<Longrightarrow> range_ok p k"
  by (simp add: range_ok_def)

lemma range_inj: "range_ok p n \<Longrightarrow> i < n \<Longrightarrow> j < n \<Longrightarrow> p + of_nat i = p + of_nat j \<longleftrightarrow> i = j"
  using range_offset by (metis add_left_cancel)

lemma in_range_Suc:
  "range_ok p (Suc n) \<Longrightarrow> in_range p (Suc n) x \<longleftrightarrow> in_range p n x \<or> x = p + of_nat n"
  by (auto simp: in_range_iff range_ok_mono [of p "Suc n" n] less_Suc_eq)

definition mem_range :: "memory \<Rightarrow> u32 \<Rightarrow> nat \<Rightarrow> u8 list" where
  "mem_range m p n = map (\<lambda>i. m (p + of_nat i)) [0..<n]"

lemma length_mem_range [simp]: "length (mem_range m p n) = n"
  by (simp add: mem_range_def)

lemma mem_range_cong:
  "(\<And>i. i < n \<Longrightarrow> m (p + of_nat i) = m' (q + of_nat i)) \<Longrightarrow> mem_range m p n = mem_range m' q n"
  by (simp add: mem_range_def)

lemma memset_apply:
  assumes "range_ok p (unat n)"
  shows "memset m p v n x = (if in_range p (unat n) x then ucast v else m x)"
proof -
  have "fold (\<lambda>i m. m(p + of_nat i := ucast v)) [0..<k] m x =
      (if in_range p k x then ucast v else m x)" if "range_ok p k" for k
    using that
  proof (induction k)
    case 0
    then show ?case by (auto simp: in_range_def)
  next
    case (Suc k)
    then show ?case
      using range_ok_mono [of p "Suc k" k] in_range_Suc [of p k x] by auto
  qed
  with assms show ?thesis
    by (simp add: memset_def)
qed

section \<open>Copying\<close>

lemma copy_up_other: "(\<And>j. j < n \<Longrightarrow> x \<noteq> d + of_nat j) \<Longrightarrow> copy_up d s n m x = m x"
  by (induction n) (simp_all add: copy_up_def)

lemma copy_up_at:
  assumes "range_ok d n" and "\<And>i j. j < i \<Longrightarrow> i < n \<Longrightarrow> s + of_nat i \<noteq> d + of_nat j" and "i < n"
  shows "copy_up d s n m (d + of_nat i) = m (s + of_nat i)"
  using assms
proof (induction n)
  case (Suc n)
  have step: "copy_up d s (Suc n) m = (copy_up d s n m)(d + of_nat n := copy_up d s n m (s + of_nat n))"
    by (simp add: copy_up_def)
  have src: "copy_up d s n m (s + of_nat n) = m (s + of_nat n)"
    using Suc.prems(2) by (intro copy_up_other) simp
  show ?case
  proof (cases "i = n")
    case True
    with step src show ?thesis by simp
  next
    case False
    with Suc.prems have "i < n" and "d + of_nat i \<noteq> d + of_nat n"
      using range_inj [OF Suc.prems(1)] by auto
    with step Suc show ?thesis
      by (simp add: range_ok_mono [of d "Suc n" n])
  qed
qed simp

lemma copy_down_Suc: "copy_down d s (Suc n) m = copy_down d s n (m(d + of_nat n := m (s + of_nat n)))"
  by (simp add: copy_down_def)

lemma copy_down_other: "(\<And>j. j < n \<Longrightarrow> x \<noteq> d + of_nat j) \<Longrightarrow> copy_down d s n m x = m x"
  by (induction n arbitrary: m) (simp_all add: copy_down_Suc, simp add: copy_down_def)

lemma copy_down_at:
  assumes "range_ok d n" and "\<And>i j. i < j \<Longrightarrow> j < n \<Longrightarrow> s + of_nat i \<noteq> d + of_nat j" and "i < n"
  shows "copy_down d s n m (d + of_nat i) = m (s + of_nat i)"
  using assms
proof (induction n arbitrary: m)
  case (Suc n)
  show ?case
  proof (cases "i = n")
    case True
    have "d + of_nat n \<noteq> d + of_nat j" if "j < n" for j
      using range_inj [OF Suc.prems(1), of n j] that by simp
    with True show ?thesis
      by (simp add: copy_down_Suc copy_down_other)
  next
    case False
    with Suc.prems have "i < n" and "s + of_nat i \<noteq> d + of_nat n"
      by auto
    with Suc show ?thesis
      by (simp add: copy_down_Suc range_ok_mono [of d "Suc n" n])
  qed
qed simp

text \<open>Whether two ranges share an address.\<close>

definition disjoint :: "u32 \<Rightarrow> u32 \<Rightarrow> nat \<Rightarrow> bool" where
  "disjoint p q n \<longleftrightarrow> unat p + n \<le> unat q \<or> unat q + n \<le> unat p"

lemma copy_result:
  assumes "range_ok d n" and "\<And>i. i < n \<Longrightarrow> m' (d + of_nat i) = m (s + of_nat i)"
    and "\<And>x. (\<And>j. j < n \<Longrightarrow> x \<noteq> d + of_nat j) \<Longrightarrow> m' x = m x"
  shows "mem_range m' d n = mem_range m s n \<and> (\<forall>x. \<not> in_range d n x \<longrightarrow> m' x = m x)"
  using assms by (auto simp: in_range_iff intro!: mem_range_cong)

lemma offsets_ordered:
  assumes "range_ok p n" "range_ok q n" "unat p < unat q" "i \<le> j" "j < n"
  shows "q + of_nat j \<noteq> p + of_nat i"
  using assms range_offset [of p n i] range_offset [of q n j]
  by (metis add_less_le_mono le_less_trans nat_neq_iff)

text \<open>
  Memcpy copies a range to a disjoint one and writes nothing else.
\<close>

theorem memcpy_copies:
  assumes "range_ok d (unat n)" and "range_ok s (unat n)" and "disjoint d s (unat n)"
  shows "mem_range (memcpy m d s n) d (unat n) = mem_range m s (unat n) \<and>
    (\<forall>x. \<not> in_range d (unat n) x \<longrightarrow> memcpy m d s n x = m x)"
proof (rule copy_result [OF assms(1)])
  have "s + of_nat i \<noteq> d + of_nat j" if "i < unat n" "j < unat n" for i j
    using range_offset [OF assms(1) that(2)] range_offset [OF assms(2) that(1)] assms(3) that
    by (auto simp: disjoint_def)
  then show "memcpy m d s n (d + of_nat i) = m (s + of_nat i)" if "i < unat n" for i
    using that by (simp add: memcpy_def copy_up_at [OF assms(1)])
qed (simp add: memcpy_def copy_up_other)

text \<open>
  C27. memmove copies a range to another, overlapping or not, and writes nothing else
\<close>

theorem memmove_copies:
  assumes "range_ok d (unat n)" and "range_ok s (unat n)"
  shows "mem_range (memmove m d s n) d (unat n) = mem_range m s (unat n) \<and>
    (\<forall>x. \<not> in_range d (unat n) x \<longrightarrow> memmove m d s n x = m x)"
proof (rule copy_result [OF assms(1)])
  fix i
  assume i: "i < unat n"
  show "memmove m d s n (d + of_nat i) = m (s + of_nat i)"
  proof (cases "d < s")
    case True
    then have "s + of_nat i \<noteq> d + of_nat j" if "j < i" "i < unat n" for i j
      using that offsets_ordered [OF assms, of j i] by (simp add: word_less_nat_alt)
    with True i show ?thesis
      by (simp add: memmove_def copy_up_at [OF assms(1)])
  next
    case False
    have "s + of_nat i \<noteq> d + of_nat j" if "i < j" "j < unat n" for i j
    proof (cases "d = s")
      case True
      with that range_inj [OF assms(1), of i j] show ?thesis by simp
    next
      case ne: False
      with False have "unat s < unat d"
        by (simp add: word_less_nat_alt word_unat_eq_iff)
      with that offsets_ordered [OF assms(2,1), of i j] show ?thesis
        by (metis less_imp_le_nat)
    qed
    with False i show ?thesis
      by (simp add: memmove_def copy_down_at [OF assms(1)])
  qed
qed (simp_all add: memmove_def copy_up_other copy_down_other)

section \<open>Strings in memory\<close>

text \<open>The characters \<open>cs\<close>, none of them zero, then a zero byte.\<close>

fun c_str :: "memory \<Rightarrow> u32 \<Rightarrow> string \<Rightarrow> bool" where
  "c_str m p [] \<longleftrightarrow> m p = 0"
| "c_str m p (c # cs) \<longleftrightarrow> c \<noteq> CHR 0x00 \<and> m p = of_char c \<and> c_str m (p + 1) cs"

lemma of_char_u8_inj: "(of_char c :: u8) = of_char d \<longleftrightarrow> c = d"
proof
  assume "(of_char c :: u8) = of_char d"
  then have "unat (of_nat (of_char c) :: u8) = unat (of_nat (of_char d) :: u8)"
    by (simp add: of_nat_of_char)
  then show "c = d"
    by (simp add: unat_of_nat)
qed simp

lemma of_char_u8_zero: "(of_char c :: u8) = 0 \<longleftrightarrow> c = CHR 0x00"
  using of_char_u8_inj [of c "CHR 0x00"] by simp

lemma of_char_u8_unat: "unat (of_char c :: u8) = of_char c"
proof -
  have "unat (of_nat (of_char c) :: u8) = of_char c"
    by (simp add: unat_of_nat)
  then show ?thesis
    by (simp add: of_nat_of_char)
qed

lemma c_str_unique: "c_str m p cs \<Longrightarrow> c_str m p ds \<Longrightarrow> cs = ds"
proof (induction cs arbitrary: p ds)
  case Nil
  then show ?case by (cases ds) (simp_all add: of_char_u8_zero)
next
  case (Cons c cs)
  then show ?case
    by (cases ds) (auto simp: of_char_u8_zero of_char_u8_inj)
qed

lemma c_str_frame:
  assumes "c_str m p cs" and "\<And>i. i \<le> length cs \<Longrightarrow> m' (p + of_nat i) = m (p + of_nat i)"
  shows "c_str m' p cs"
  using assms
proof (induction cs arbitrary: p)
  case Nil
  then show ?case using Nil.prems(2) [of 0] by simp
next
  case (Cons c cs)
  have "m' (p + 1 + of_nat i) = m (p + 1 + of_nat i)" if "i \<le> length cs" for i
    using Cons.prems(2) [of "Suc i"] that by (simp add: add.assoc)
  then show ?case
    using Cons Cons.prems(2) [of 0] by simp
qed

lemma strlen_loop_c_str:
  "c_str m (p + len) cs \<Longrightarrow> strlen_loop m p len = Some (len + of_nat (length cs))"
proof (induction cs arbitrary: len)
  case Nil
  then show ?case by (simp add: strlen_loop.simps)
next
  case (Cons c cs)
  then have "strlen_loop m p (len + 1) = Some (len + 1 + of_nat (length cs))"
    by (simp add: add.assoc)
  with Cons.prems show ?case
    by (simp add: strlen_loop.simps [of m p len] of_char_u8_zero)
qed

text \<open>What \<open>strcmp\<close> returns: the difference of the first characters that differ.\<close>

fun str_diff :: "string \<Rightarrow> string \<Rightarrow> int" where
  "str_diff [] [] = 0"
| "str_diff [] (d # ds) = - of_char d"
| "str_diff (c # cs) [] = of_char c"
| "str_diff (c # cs) (d # ds) = (if c = d then str_diff cs ds else of_char c - of_char d)"

lemma of_char_word: "word_of_int (of_char c) = (of_char c :: 'a::len word)"
  by (simp add: of_char_def of_int_of_bool)

lemma ucast_of_char: "ucast (of_char c :: u8) = (of_char c :: u32)"
proof -
  have "ucast (of_char c :: u8) = (of_nat (unat (of_char c :: u8)) :: u32)"
    by simp
  then show ?thesis
    by (simp only: of_char_u8_unat of_nat_of_char)
qed

lemma strcmp_c_str:
  "c_str m p cs \<Longrightarrow> c_str m q ds \<Longrightarrow> strcmp m p q = Some (word_of_int (str_diff cs ds))"
proof (induction cs ds arbitrary: p q rule: str_diff.induct)
  case 1
  then show ?case by (simp add: strcmp.simps)
next
  case (2 d ds)
  then show ?case by (simp add: strcmp.simps ucast_of_char wi_hom_syms of_char_word)
next
  case (3 c cs)
  then show ?case by (simp add: strcmp.simps [of m p] ucast_of_char of_char_word of_char_u8_zero)
next
  case (4 c cs d ds)
  then show ?case
    by (simp add: strcmp.simps [of m p q] ucast_of_char of_char_word of_char_u8_zero of_char_u8_inj
        flip: wi_hom_sub)
qed

lemma str_diff_zero: "CHR 0x00 \<notin> set cs \<Longrightarrow> CHR 0x00 \<notin> set ds \<Longrightarrow> str_diff cs ds = 0 \<longleftrightarrow> cs = ds"
proof (induction cs ds rule: str_diff.induct)
  case (2 d ds)
  then have "(of_char d :: int) \<noteq> of_char (CHR 0x00)"
    by (subst of_char_eq_iff) auto
  then show ?case by simp
next
  case (3 c cs)
  then have "(of_char c :: int) \<noteq> of_char (CHR 0x00)"
    by (subst of_char_eq_iff) auto
  then show ?case by simp
qed (auto simp: of_char_eq_iff)

lemma c_str_no_zero: "c_str m p cs \<Longrightarrow> CHR 0x00 \<notin> set cs"
  by (induction cs arbitrary: p) auto

lemma str_diff_bound: "\<bar>str_diff cs ds\<bar> < 256"
proof -
  have b: "(of_char c :: int) < 256" "0 \<le> (of_char c :: int)" for c
    by (metis of_char_mod_256 pos_mod_bound zero_less_numeral,
        metis of_char_mod_256 pos_mod_sign zero_less_numeral)
  have d: "\<bar>of_char c - of_char d\<bar> < (256 :: int)" for c d
    using b [of c] b [of d] by linarith
  show ?thesis
    by (induction cs ds rule: str_diff.induct) (use b d in auto)
qed

text \<open>
  Strlen returns with the number of characters before the terminator.
\<close>

theorem strlen_measures:
  "c_str m p cs \<Longrightarrow> strlen m p = Some (of_nat (length cs))"
  using strlen_loop_c_str [of m p 0 cs] by (simp add: strlen_def)

text \<open>
  Strcmp returns with the difference of the first bytes that differ, which is zero exactly for
  equal strings.
\<close>

theorem strcmp_compares:
  assumes "c_str m p cs" and "c_str m q ds"
  shows "\<exists>r. strcmp m p q = Some r \<and> sint r = str_diff cs ds \<and> (r = 0 \<longleftrightarrow> cs = ds)"
proof (intro exI conjI)
  show "strcmp m p q = Some (word_of_int (str_diff cs ds))"
    using assms by (rule strcmp_c_str)
  show s: "sint (word_of_int (str_diff cs ds) :: u32) = str_diff cs ds"
    using str_diff_bound [of cs ds] by (simp add: signed_of_int signed_take_bit_int_eq_self)
  have "str_diff cs ds = 0 \<longleftrightarrow> cs = ds"
    using assms by (intro str_diff_zero c_str_no_zero)
  then show "(word_of_int (str_diff cs ds) :: u32) = 0 \<longleftrightarrow> cs = ds"
    using s by (metis sint_0 word_of_int_0)
qed

lemma strcpy_c_str:
  assumes "c_str m s cs"
    and "range_ok d (Suc (length cs))"
    and "\<And>i j. i \<le> length cs \<Longrightarrow> j \<le> length cs \<Longrightarrow> s + of_nat i \<noteq> d + of_nat j"
  shows "\<exists>m'. strcpy m d s = Some m' \<and> c_str m' d cs \<and>
    (\<forall>x. (\<forall>j \<le> length cs. x \<noteq> d + of_nat j) \<longrightarrow> m' x = m x)"
  using assms
proof (induction cs arbitrary: m d s)
  case Nil
  then show ?case
    by (auto simp: strcpy.simps [of m d s])
next
  case (Cons c cs)
  let ?m = "m(d := m s)"
  have sep: "s + of_nat i \<noteq> d + of_nat j" if "i \<le> Suc (length cs)" "j \<le> Suc (length cs)" for i j
    using Cons.prems(3) [of i j] that by simp
  have src: "c_str ?m (s + 1) cs"
  proof (rule c_str_frame)
    show "c_str m (s + 1) cs"
      using Cons.prems(1) by simp
    show "?m (s + 1 + of_nat i) = m (s + 1 + of_nat i)" if "i \<le> length cs" for i
      using sep [of "Suc i" 0] that by (simp add: add.assoc)
  qed
  have "unat d + 1 < 4294967296"
    using Cons.prems(2) by (simp add: range_ok_def)
  then have d1: "unat (d + 1) = unat d + 1"
    by (simp add: unat_add_small)
  then have ok: "range_ok (d + 1) (Suc (length cs))"
    using Cons.prems(2) by (simp add: range_ok_def)
  have "\<exists>m'. strcpy ?m (d + 1) (s + 1) = Some m' \<and> c_str m' (d + 1) cs \<and>
      (\<forall>x. (\<forall>j \<le> length cs. x \<noteq> d + 1 + of_nat j) \<longrightarrow> m' x = ?m x)"
  proof (rule Cons.IH [OF src ok])
    show "s + 1 + of_nat i \<noteq> d + 1 + of_nat j" if "i \<le> length cs" "j \<le> length cs" for i j
      using sep [of "Suc i" "Suc j"] that by (simp add: add.assoc)
  qed
  then obtain m' where m': "strcpy ?m (d + 1) (s + 1) = Some m'" "c_str m' (d + 1) cs"
    "\<And>x. (\<And>j. j \<le> length cs \<Longrightarrow> x \<noteq> d + 1 + of_nat j) \<Longrightarrow> m' x = ?m x"
    by blast
  have "d \<noteq> d + 1 + of_nat j" if "j \<le> length cs" for j
    using range_offset [OF ok, of j] d1 that by (metis less_Suc_eq_le n_not_Suc_n add_Suc_right
        Suc_eq_plus1 add.commute add_left_cancel nat.simps(3) Nat.add_0_right plus_nat.simps(2))
  then have "m' d = of_char c"
    using m'(3) [of d] Cons.prems(1) by simp
  moreover have "m' x = m x" if "\<forall>j \<le> Suc (length cs). x \<noteq> d + of_nat j" for x
  proof -
    have "x \<noteq> d + 1 + of_nat j" if "j \<le> length cs" for j
      using \<open>\<forall>j \<le> Suc (length cs). x \<noteq> d + of_nat j\<close> [rule_format, of "Suc j"] that
      by (simp add: add.assoc)
    then show ?thesis
      using m'(3) [of x] that [rule_format, of 0] by simp
  qed
  ultimately show ?case
    using m' Cons.prems(1) by (auto simp: strcpy.simps [of m d s] of_char_u8_zero)
qed

text \<open>
  Strcpy returns with the string at its destination and writes nothing beyond its terminator.
\<close>

theorem strcpy_copies:
  assumes "c_str m s cs"
    and "range_ok d (length cs + 1)" and "range_ok s (length cs + 1)"
    and "disjoint d s (length cs + 1)"
  shows "\<exists>m'. strcpy m d s = Some m' \<and> c_str m' d cs \<and>
    (\<forall>x. \<not> in_range d (length cs + 1) x \<longrightarrow> m' x = m x)"
proof -
  have "s + of_nat i \<noteq> d + of_nat j" if "i \<le> length cs" "j \<le> length cs" for i j
    using range_offset [OF assms(2), of j] range_offset [OF assms(3), of i] assms(4) that
    by (auto simp: disjoint_def)
  then obtain m' where "strcpy m d s = Some m'" "c_str m' d cs"
    and frame: "\<And>x. (\<forall>j \<le> length cs. x \<noteq> d + of_nat j) \<Longrightarrow> m' x = m x"
    using strcpy_c_str [OF assms(1), of d] assms(2) by auto
  moreover have "m' x = m x" if "\<not> in_range d (length cs + 1) x" for x
    using frame that in_range_iff [OF assms(2)] by (simp add: less_Suc_eq_le)
  ultimately show ?thesis by blast
qed

section \<open>Instances\<close>

text \<open>The string \<^verbatim>\<open>"ab"\<close> at 0x1000 in a memory that is zero elsewhere.\<close>

definition mem_ab :: memory where
  "mem_ab = (\<lambda>_. 0)(0x1000 := 97, 0x1001 := 98)"

lemma mem_ab_str: "c_str mem_ab 0x1000 ''ab''" "c_str mem_ab 0x1001 ''b''"
  by (simp_all add: mem_ab_def)

text \<open>
  An instance of the statement above.
\<close>

theorem memcpy_copies_witness: "mem_range (memcpy mem_ab 0x2000 0x1000 2) 0x2000 2 = [97, 98]"
  using memcpy_copies [of "0x2000" 2 "0x1000" mem_ab]
  by (simp add: range_ok_def disjoint_def mem_range_def mem_ab_def upt_rec)

text \<open>
  An instance of C27.
\<close>

theorem memmove_copies_witness: "mem_range (memmove mem_ab 0x1001 0x1000 2) 0x1001 2 = [97, 98]"
  using memmove_copies [of "0x1001" 2 "0x1000" mem_ab]
  by (simp add: range_ok_def mem_range_def mem_ab_def upt_rec)

text \<open>
  An instance of the statement above.
\<close>

theorem strlen_measures_witness: "strlen mem_ab 0x1000 = Some 2"
  using strlen_measures [OF mem_ab_str(1)] by simp

text \<open>
  An instance of the statement above.
\<close>

theorem strcmp_compares_witness: "\<exists>r. strcmp mem_ab 0x1000 0x1001 = Some r \<and> sint r = - 1"
  using strcmp_compares [OF mem_ab_str] by auto

text \<open>
  An instance of the statement above.
\<close>

theorem strcpy_copies_witness: "\<exists>m. strcpy mem_ab 0x2000 0x1000 = Some m \<and> c_str m 0x2000 ''ab''"
  using strcpy_copies [OF mem_ab_str(1), of "0x2000"] by (auto simp: range_ok_def disjoint_def)

end
