(* ===== verification/Pmm.thy ===== *)
theory Pmm
  imports Idt CMem
begin

text \<open>
  The physical page allocator (\<^verbatim>\<open>mm/pmm.cpp\<close>, \<^verbatim>\<open>mm/include/pmm.h\<close>) and the memory map that the
  boot loader leaves behind (\<^verbatim>\<open>kernel/multiboot.h\<close>). \<open>mem\<close> is physical memory; the allocator
  reaches its bitmap and the memory map through the identity mapping of the first 4 MB, which
  is in force before and after paging is set up, so its addresses are physical ones. The two
  linker symbols \<^verbatim>\<open>_kernel_start\<close> and \<^verbatim>\<open>_kernel_end\<close> are arguments.

  The bitmap is abstracted to the set \<open>used_pages\<close>. Initialisation is proved to free exactly the
  pages of the available regions outside the kernel and the bitmap, allocation to return the
  lowest free page, and the counter to be the size of the set.
\<close>

section \<open>The state\<close>

record pmm = idt +
  mem :: memory
  pmm_bitmap :: u32
  pmm_max_blocks :: u32
  pmm_used_blocks :: u32

definition PAGE_SIZE :: u32 where "PAGE_SIZE = 4096"
definition KERNEL_VIRT_BASE :: u32 where "KERNEL_VIRT_BASE = 0xC0000000"
definition MULTIBOOT_MEMORY_AVAILABLE :: u32 where "MULTIBOOT_MEMORY_AVAILABLE = 1"

text \<open>The packed \<^verbatim>\<open>multiboot_mmap_entry\<close> at an address.\<close>

definition entry_size :: "memory \<Rightarrow> u32 \<Rightarrow> u32" where "entry_size m e = load32 m e"
definition entry_addr :: "memory \<Rightarrow> u32 \<Rightarrow> u64" where "entry_addr m e = load64 m (e + 4)"
definition entry_len :: "memory \<Rightarrow> u32 \<Rightarrow> u64" where "entry_len m e = load64 m (e + 12)"
definition entry_type :: "memory \<Rightarrow> u32 \<Rightarrow> u32" where "entry_type m e = load32 m (e + 20)"

section \<open>The bitmap\<close>

definition mmap_set :: "u32 \<Rightarrow> 'a pmm_scheme \<Rightarrow> 'a pmm_scheme" where
  "mmap_set b s =
     (let p = pmm_bitmap s + b div 8
      in s\<lparr>mem := (mem s)(p := mem s p OR push_bit (unat (b mod 8)) 1)\<rparr>)"

definition mmap_unset :: "u32 \<Rightarrow> 'a pmm_scheme \<Rightarrow> 'a pmm_scheme" where
  "mmap_unset b s =
     (let p = pmm_bitmap s + b div 8
      in s\<lparr>mem := (mem s)(p := mem s p AND NOT (push_bit (unat (b mod 8)) 1))\<rparr>)"

definition mmap_test :: "u32 \<Rightarrow> 'a pmm_scheme \<Rightarrow> bool" where
  "mmap_test b s \<longleftrightarrow> mem s (pmm_bitmap s + b div 8) AND push_bit (unat (b mod 8)) 1 \<noteq> 0"

section \<open>Initialisation\<close>

text \<open>The first pass over the memory map: the highest end of an available region.\<close>

partial_function (option) highest_loop :: "memory \<Rightarrow> u32 \<Rightarrow> u32 \<Rightarrow> u64 \<Rightarrow> u64 option" where
  "highest_loop m fin entry highest =
     (if entry < fin
      then highest_loop m fin (entry + entry_size m entry + 4)
             (if entry_type m entry = MULTIBOOT_MEMORY_AVAILABLE
              then (let current_end = entry_addr m entry + entry_len m entry
                    in if highest < current_end then current_end else highest)
              else highest)
      else Some highest)"

text \<open>The bodies of the two loops over pages.\<close>

definition release_block :: "u32 \<Rightarrow> 'a pmm_scheme \<Rightarrow> 'a pmm_scheme" where
  "release_block b s =
     (if b < pmm_max_blocks s \<and> mmap_test b s
      then (mmap_unset b s)\<lparr>pmm_used_blocks := pmm_used_blocks s - 1\<rparr> else s)"

definition reserve_block :: "u32 \<Rightarrow> 'a pmm_scheme \<Rightarrow> 'a pmm_scheme" where
  "reserve_block b s =
     (if b < pmm_max_blocks s \<and> \<not> mmap_test b s
      then (mmap_set b s)\<lparr>pmm_used_blocks := pmm_used_blocks s + 1\<rparr> else s)"

definition release_entry :: "u32 \<Rightarrow> 'a pmm_scheme \<Rightarrow> 'a pmm_scheme" where
  "release_entry entry s =
     (if entry_type (mem s) entry = MULTIBOOT_MEMORY_AVAILABLE
      then (let block_start = ucast (entry_addr (mem s) entry div 4096) :: u32;
                block_count = ucast (entry_len (mem s) entry div 4096) :: u32
            in fold (\<lambda>i. release_block (block_start + of_nat i)) [0..<unat block_count] s)
      else s)"

partial_function (option) release_loop :: "u32 \<Rightarrow> u32 \<Rightarrow> 'a pmm_scheme \<Rightarrow> 'a pmm_scheme option" where
  "release_loop fin entry s =
     (if entry < fin
      then (let s = release_entry entry s
            in release_loop fin (entry + entry_size (mem s) entry + 4) s)
      else Some s)"

definition bitmap_bytes :: "u32 \<Rightarrow> u32" where
  "bitmap_bytes blocks = (if blocks mod 8 \<noteq> 0 then blocks div 8 + 1 else blocks div 8)"

definition pmm_get_free_memory :: "'a pmm_scheme \<Rightarrow> u32" where
  "pmm_get_free_memory s = (pmm_max_blocks s - pmm_used_blocks s) * PAGE_SIZE"

definition pmm_get_total_memory :: "'a pmm_scheme \<Rightarrow> u32" where
  "pmm_get_total_memory s = pmm_max_blocks s * PAGE_SIZE"

definition pmm_report :: "u64 \<Rightarrow> u32 \<Rightarrow> 'a pmm_scheme \<Rightarrow> 'a pmm_scheme outcome" where
  "pmm_report highest bitmap_size s =
     bind_outcome (print (''PMM initialized with %d MB total physical memory.'' @ [newline_char])
         [PInt (ucast (highest div 1024 div 1024))] s) (\<lambda>s.
     bind_outcome (print (''Bitmap size: %d bytes at 0x%x'' @ [newline_char])
         [PInt bitmap_size, PInt (pmm_bitmap s)] s) (\<lambda>s.
     print (''Free memory: %d KB'' @ [newline_char]) [PInt (pmm_get_free_memory s div 1024)] s))"

definition pmm_init :: "u32 \<Rightarrow> u32 \<Rightarrow> u32 \<Rightarrow> u32 \<Rightarrow> 'a pmm_scheme \<Rightarrow> 'a pmm_scheme outcome" where
  "pmm_init kernel_start kernel_end mmap_addr mmap_length s =
     (case highest_loop (mem s) (mmap_addr + mmap_length) mmap_addr 0 of
        None \<Rightarrow> Inl Hang
      | Some highest \<Rightarrow>
         (let phys_kernel_end = kernel_end - KERNEL_VIRT_BASE;
              s = s\<lparr>pmm_max_blocks := ucast (highest div 4096), pmm_bitmap := phys_kernel_end\<rparr>;
              bitmap_size = bitmap_bytes (pmm_max_blocks s);
              s = s\<lparr>mem := memset (mem s) (pmm_bitmap s) 0xFF bitmap_size,
                    pmm_used_blocks := pmm_max_blocks s\<rparr>
          in (case release_loop (mmap_addr + mmap_length) mmap_addr s of
                None \<Rightarrow> Inl Hang
              | Some s \<Rightarrow>
                 (let kernel_start_block = (kernel_start - KERNEL_VIRT_BASE) div PAGE_SIZE;
                      reserved_end_addr = phys_kernel_end + bitmap_size;
                      end_block = (reserved_end_addr + PAGE_SIZE - 1) div PAGE_SIZE;
                      s = fold (\<lambda>i. reserve_block (of_nat i))
                            [unat kernel_start_block..<unat end_block] s
                  in pmm_report highest bitmap_size s))))"

section \<open>Allocation\<close>

text \<open>The search loop leaves at its first hit and changes nothing before it.\<close>

definition pmm_alloc_page :: "'a pmm_scheme \<Rightarrow> u32 \<times> 'a pmm_scheme" where
  "pmm_alloc_page s =
     (case List.find (\<lambda>i. \<not> mmap_test (of_nat i) s) [0..<unat (pmm_max_blocks s)] of
        None \<Rightarrow> (0, s)
      | Some i \<Rightarrow>
         (of_nat i * PAGE_SIZE,
          (mmap_set (of_nat i) s)\<lparr>pmm_used_blocks := pmm_used_blocks s + 1\<rparr>))"

definition pmm_free_page :: "u32 \<Rightarrow> 'a pmm_scheme \<Rightarrow> 'a pmm_scheme" where
  "pmm_free_page ptr s =
     (let page_index = ptr div PAGE_SIZE
      in if page_index < pmm_max_blocks s \<and> mmap_test page_index s
         then (mmap_unset page_index s)\<lparr>pmm_used_blocks := pmm_used_blocks s - 1\<rparr> else s)"

section \<open>The bitmap as a set of pages\<close>

definition used_pages :: "'a pmm_scheme \<Rightarrow> nat set" where
  "used_pages s = {i. i < unat (pmm_max_blocks s) \<and> mmap_test (of_nat i) s}"

definition free_pages :: "'a pmm_scheme \<Rightarrow> nat set" where
  "free_pages s = {i. i < unat (pmm_max_blocks s) \<and> \<not> mmap_test (of_nat i) s}"

definition bitmap_ok :: "'a pmm_scheme \<Rightarrow> bool" where
  "bitmap_ok s \<longleftrightarrow>
     unat (pmm_max_blocks s) \<le> 1048576 \<and> range_ok (pmm_bitmap s) ((unat (pmm_max_blocks s) + 7) div 8)"

definition pmm_ok :: "'a pmm_scheme \<Rightarrow> bool" where
  "pmm_ok s \<longleftrightarrow> bitmap_ok s \<and> unat (pmm_used_blocks s) = card (used_pages s)"

lemma mmap_test_bit: "mmap_test b s \<longleftrightarrow> bit (mem s (pmm_bitmap s + b div 8)) (unat b mod 8)"
proof -
  have "unat (b mod 8) = unat b mod 8"
    by (simp add: unat_mod)
  then show ?thesis
    by (simp add: mmap_test_def push_bit_of_1 and_exp_eq_0_iff_not_bit)
qed

lemma u32_of_page: "i < 1048576 \<Longrightarrow> unat (of_nat i :: u32) = i"
  by (simp add: unat_of_nat_small)

lemma page_byte: "i < 1048576 \<Longrightarrow> (of_nat i :: u32) div 8 = of_nat (i div 8)"
  by (simp add: word_eq_nat unat_div u32_of_page unat_of_nat_small)

text \<open>Two pages have the same bit only if they are the same page.\<close>

lemma page_bit_inj:
  assumes "bitmap_ok s" "i < unat (pmm_max_blocks s)" "j < unat (pmm_max_blocks s)"
    and "pmm_bitmap s + of_nat (i div 8) = pmm_bitmap s + of_nat (j div 8)" "i mod 8 = j mod 8"
  shows "i = j"
proof -
  let ?n = "(unat (pmm_max_blocks s) + 7) div 8"
  have "i div 8 < ?n" "j div 8 < ?n"
    using assms(2,3) by auto
  then have "i div 8 = j div 8"
    using assms range_inj [of "pmm_bitmap s" ?n "i div 8" "j div 8"] by (simp add: bitmap_ok_def)
  with assms(5) show ?thesis
    by (metis mult_div_mod_eq)
qed

lemma bitmap_frame [simp]:
  "pmm_bitmap (mmap_set b s) = pmm_bitmap s" "pmm_bitmap (mmap_unset b s) = pmm_bitmap s"
  "pmm_max_blocks (mmap_set b s) = pmm_max_blocks s" "pmm_max_blocks (mmap_unset b s) = pmm_max_blocks s"
  by (simp_all add: mmap_set_def mmap_unset_def Let_def)

lemma byte_set_bit: "m < 8 \<Longrightarrow> n < 8 \<Longrightarrow> bit (x OR 2 ^ m) n \<longleftrightarrow> m = n \<or> bit x n" for x :: u8
  by (auto simp: bit_or_iff bit_exp_iff possible_bit_word)

lemma byte_unset_bit: "m < 8 \<Longrightarrow> n < 8 \<Longrightarrow> bit (x AND NOT (2 ^ m)) n \<longleftrightarrow> m \<noteq> n \<and> bit x n" for x :: u8
  by (auto simp: bit_and_iff bit_not_iff bit_exp_iff possible_bit_word)

lemma mmap_test_update:
  assumes "bitmap_ok s" "i < unat (pmm_max_blocks s)" "j < unat (pmm_max_blocks s)"
  shows "mmap_test (of_nat j) (mmap_set (of_nat i) s) \<longleftrightarrow> i = j \<or> mmap_test (of_nat j) s"
    and "mmap_test (of_nat j) (mmap_unset (of_nat i) s) \<longleftrightarrow> i \<noteq> j \<and> mmap_test (of_nat j) s"
proof -
  have ij: "i < 1048576" "j < 1048576"
    using assms by (auto simp: bitmap_ok_def)
  have u: "unat (of_nat i mod 8 :: u32) = i mod 8"
    using u32_of_page [OF ij(1)] by (simp add: unat_mod)
  have same: "pmm_bitmap s + of_nat (i div 8) = pmm_bitmap s + of_nat (j div 8) \<and> i mod 8 = j mod 8 \<longleftrightarrow> i = j"
    using page_bit_inj [OF assms] by blast
  have b: "mmap_test (of_nat j) t \<longleftrightarrow> bit (mem t (pmm_bitmap t + of_nat (j div 8))) (j mod 8)"
    for t :: "'a pmm_scheme"
    by (simp only: mmap_test_bit page_byte [OF ij(2)] u32_of_page [OF ij(2)])
  have m: "i mod 8 < 8" "j mod 8 < 8"
    by simp_all
  show "mmap_test (of_nat j) (mmap_set (of_nat i) s) \<longleftrightarrow> i = j \<or> mmap_test (of_nat j) s"
    unfolding b bitmap_frame mmap_set_def Let_def u page_byte [OF ij(1)] using same m
    by (auto simp: byte_set_bit)
  show "mmap_test (of_nat j) (mmap_unset (of_nat i) s) \<longleftrightarrow> i \<noteq> j \<and> mmap_test (of_nat j) s"
    unfolding b bitmap_frame mmap_unset_def Let_def u page_byte [OF ij(1)] using same m
    by (auto simp: byte_unset_bit)
qed

text \<open>The bits are the only memory that is written.\<close>

definition in_bitmap :: "'a pmm_scheme \<Rightarrow> u32 \<Rightarrow> bool" where
  "in_bitmap s a \<longleftrightarrow> in_range (pmm_bitmap s) ((unat (pmm_max_blocks s) + 7) div 8) a"

lemma mmap_update_elsewhere:
  assumes "bitmap_ok s" "i < unat (pmm_max_blocks s)" "\<not> in_bitmap s a"
  shows "mem (mmap_set (of_nat i) s) a = mem s a" "mem (mmap_unset (of_nat i) s) a = mem s a"
proof -
  have "i div 8 < (unat (pmm_max_blocks s) + 7) div 8"
    using assms(2) by auto
  then have "in_bitmap s (pmm_bitmap s + of_nat (i div 8))"
    using assms(1) in_range_offset by (simp add: in_bitmap_def bitmap_ok_def)
  moreover have "i < 1048576"
    using assms by (simp add: bitmap_ok_def)
  ultimately show "mem (mmap_set (of_nat i) s) a = mem s a" "mem (mmap_unset (of_nat i) s) a = mem s a"
    using assms(3) by (auto simp: mmap_set_def mmap_unset_def Let_def page_byte)
qed

text \<open>What an operation on pages may change: the counter and the bytes of the bitmap.\<close>

definition page_change :: "'a pmm_scheme \<Rightarrow> 'a pmm_scheme \<Rightarrow> bool" where
  "page_change s t \<longleftrightarrow>
     (\<exists>m u. t = s\<lparr>mem := m, pmm_used_blocks := u\<rparr> \<and> (\<forall>a. \<not> in_bitmap s a \<longrightarrow> m a = mem s a))"

lemma page_change_refl [simp]: "page_change s s"
  unfolding page_change_def by (intro exI [of _ "mem s"] exI [of _ "pmm_used_blocks s"]) simp

lemma page_change_trans: "page_change s t \<Longrightarrow> page_change t v \<Longrightarrow> page_change s v"
  unfolding page_change_def in_bitmap_def by (cases s) (auto; metis)

lemma page_change_simps:
  assumes "page_change s t"
  shows "pmm_bitmap t = pmm_bitmap s" "pmm_max_blocks t = pmm_max_blocks s" "tty_lock t = tty_lock s"
    "\<And>a. \<not> in_bitmap s a \<Longrightarrow> mem t a = mem s a"
  using assms by (auto simp: page_change_def)

lemma page_change_mmap:
  assumes "bitmap_ok s" "i < unat (pmm_max_blocks s)"
  shows "page_change s ((mmap_set (of_nat i) s)\<lparr>pmm_used_blocks := u\<rparr>)"
    "page_change s ((mmap_unset (of_nat i) s)\<lparr>pmm_used_blocks := u\<rparr>)"
  using mmap_update_elsewhere [OF assms]
  by (auto simp: page_change_def mmap_set_def mmap_unset_def Let_def split: if_splits)

lemma mmap_test_frame [simp]:
  "mmap_test b (s\<lparr>pmm_used_blocks := u\<rparr>) = mmap_test b s"
  by (simp add: mmap_test_def)

lemma used_pages_frame [simp]:
  "used_pages (s\<lparr>pmm_used_blocks := u\<rparr>) = used_pages s"
  by (simp add: used_pages_def)

lemma bitmap_ok_frame [simp]:
  "bitmap_ok (s\<lparr>pmm_used_blocks := u\<rparr>) = bitmap_ok s"
  "bitmap_ok (mmap_set b s) = bitmap_ok s" "bitmap_ok (mmap_unset b s) = bitmap_ok s"
  by (simp_all add: bitmap_ok_def)

lemma used_pages_update:
  assumes "bitmap_ok s" "i < unat (pmm_max_blocks s)"
  shows "used_pages (mmap_set (of_nat i) s) = insert i (used_pages s)"
    "used_pages (mmap_unset (of_nat i) s) = used_pages s - {i}"
  using assms by (auto simp: used_pages_def mmap_test_update)

lemma used_pages_bounded: "used_pages s \<subseteq> {..<unat (pmm_max_blocks s)}"
  by (auto simp: used_pages_def)

lemma finite_used_pages [simp]: "finite (used_pages s)"
  using used_pages_bounded finite_subset by blast

lemma card_used_pages: "card (used_pages s) \<le> unat (pmm_max_blocks s)"
  using card_mono [OF _ used_pages_bounded] by fastforce

lemma free_pages_eq: "free_pages s = {..<unat (pmm_max_blocks s)} - used_pages s"
  by (auto simp: free_pages_def used_pages_def)

lemma unat_pred: "0 < unat x \<Longrightarrow> unat (x - 1) = unat x - 1" for x :: "'a::len word"
  by (metis One_nat_def Suc_pred unat_minus_one unat_gt_0)

lemma reserve_page:
  assumes "pmm_ok s" "i < unat (pmm_max_blocks s)" "i \<notin> used_pages s"
  shows "pmm_ok ((mmap_set (of_nat i) s)\<lparr>pmm_used_blocks := pmm_used_blocks s + 1\<rparr>)"
    "used_pages ((mmap_set (of_nat i) s)\<lparr>pmm_used_blocks := pmm_used_blocks s + 1\<rparr>) = insert i (used_pages s)"
proof -
  have b: "bitmap_ok s" and c: "unat (pmm_used_blocks s) = card (used_pages s)"
    using assms(1) by (auto simp: pmm_ok_def)
  have "unat (pmm_max_blocks s) \<le> 1048576"
    using b by (simp add: bitmap_ok_def)
  then have "unat (pmm_used_blocks s + 1) = unat (pmm_used_blocks s) + 1"
    using card_used_pages [of s] c by (simp add: unat_add_small)
  with b c assms show "pmm_ok ((mmap_set (of_nat i) s)\<lparr>pmm_used_blocks := pmm_used_blocks s + 1\<rparr>)"
    by (simp add: pmm_ok_def used_pages_update)
  show "used_pages ((mmap_set (of_nat i) s)\<lparr>pmm_used_blocks := pmm_used_blocks s + 1\<rparr>) = insert i (used_pages s)"
    using b assms by (simp add: used_pages_update)
qed

lemma release_page:
  assumes "pmm_ok s" "i \<in> used_pages s"
  shows "pmm_ok ((mmap_unset (of_nat i) s)\<lparr>pmm_used_blocks := pmm_used_blocks s - 1\<rparr>)"
    "used_pages ((mmap_unset (of_nat i) s)\<lparr>pmm_used_blocks := pmm_used_blocks s - 1\<rparr>) = used_pages s - {i}"
proof -
  have b: "bitmap_ok s" and c: "unat (pmm_used_blocks s) = card (used_pages s)"
    using assms(1) by (auto simp: pmm_ok_def)
  have i: "i < unat (pmm_max_blocks s)"
    using assms(2) by (simp add: used_pages_def)
  have "0 < card (used_pages s)"
    using assms(2) by (auto simp: card_gt_0_iff)
  then have "unat (pmm_used_blocks s - 1) = card (used_pages s - {i})"
    using assms(2) c by (simp add: unat_pred)
  with b i show "pmm_ok ((mmap_unset (of_nat i) s)\<lparr>pmm_used_blocks := pmm_used_blocks s - 1\<rparr>)"
    by (simp add: pmm_ok_def used_pages_update)
  show "used_pages ((mmap_unset (of_nat i) s)\<lparr>pmm_used_blocks := pmm_used_blocks s - 1\<rparr>) = used_pages s - {i}"
    using b i by (simp add: used_pages_update)
qed

lemma mmap_test_used: "b < pmm_max_blocks s \<Longrightarrow> mmap_test b s \<longleftrightarrow> unat b \<in> used_pages s"
  by (simp add: used_pages_def word_less_nat_alt)

lemma release_block_pages:
  assumes "pmm_ok s"
  shows "pmm_ok (release_block b s) \<and> used_pages (release_block b s) = used_pages s - {unat b} \<and>
    page_change s (release_block b s)"
proof (cases "b < pmm_max_blocks s \<and> mmap_test b s")
  case True
  then have "unat b \<in> used_pages s"
    by (simp add: used_pages_def word_less_nat_alt)
  with True assms show ?thesis
    using release_page [OF assms, of "unat b"] page_change_mmap(2) [of s "unat b"]
    by (simp add: release_block_def pmm_ok_def word_less_nat_alt)
next
  case False
  then have "unat b \<notin> used_pages s"
    by (auto simp: used_pages_def word_less_nat_alt)
  with False assms show ?thesis
    by (auto simp: release_block_def)
qed

lemma reserve_block_pages:
  assumes "pmm_ok s"
  shows "pmm_ok (reserve_block b s) \<and>
    used_pages (reserve_block b s) = used_pages s \<union> {i. i = unat b \<and> i < unat (pmm_max_blocks s)} \<and>
    page_change s (reserve_block b s)"
proof (cases "b < pmm_max_blocks s \<and> \<not> mmap_test b s")
  case True
  then have "unat b \<notin> used_pages s" "unat b < unat (pmm_max_blocks s)"
    by (simp_all add: used_pages_def word_less_nat_alt)
  with True assms show ?thesis
    using reserve_page [OF assms, of "unat b"] page_change_mmap(1) [of s "unat b"]
    by (auto simp: reserve_block_def pmm_ok_def)
next
  case False
  with assms show ?thesis
    by (auto simp: reserve_block_def used_pages_def word_less_nat_alt)
qed

section \<open>The memory map\<close>

text \<open>
  \<open>mmap_at A m fin p es\<close>: the walk of the code that starts at \<open>p\<close> and ends at \<open>fin\<close> reads the
  regions \<open>es\<close> (address, length, type), and no byte it reads satisfies \<open>A\<close>.
\<close>

type_synonym region = "u64 \<times> u64 \<times> u32"

fun mmap_at :: "(u32 \<Rightarrow> bool) \<Rightarrow> memory \<Rightarrow> u32 \<Rightarrow> u32 \<Rightarrow> region list \<Rightarrow> bool" where
  "mmap_at A m fin p [] \<longleftrightarrow> \<not> p < fin"
| "mmap_at A m fin p ((a, l, t) # es) \<longleftrightarrow>
     p < fin \<and> (\<forall>k < 24. \<not> A (p + of_nat k)) \<and> entry_addr m p = a \<and> entry_len m p = l \<and>
     entry_type m p = t \<and> mmap_at A m fin (p + entry_size m p + 4) es"

fun region_pages :: "region \<Rightarrow> nat set" where
  "region_pages (a, l, t) =
     (if t = MULTIBOOT_MEMORY_AVAILABLE
      then (\<lambda>i. unat (ucast (a div 4096) + of_nat i :: u32)) ` {..<unat (ucast (l div 4096) :: u32)}
      else {})"

fun highest_step :: "region \<Rightarrow> u64 \<Rightarrow> u64" where
  "highest_step (a, l, t) h =
     (if t = MULTIBOOT_MEMORY_AVAILABLE then (if h < a + l then a + l else h) else h)"

lemma entry_frame:
  assumes "\<forall>k < 24. \<not> A (p + of_nat k)" and "\<And>a. \<not> A a \<Longrightarrow> m' a = m a"
  shows "entry_addr m' p = entry_addr m p" "entry_len m' p = entry_len m p"
    "entry_type m' p = entry_type m p" "entry_size m' p = entry_size m p"
proof -
  have e: "m' (p + of_nat k) = m (p + of_nat k)" if "k < 24" for k
    using assms that by blast
  note b = e [of 0] e [of 1] e [of 2] e [of 3] e [of 4] e [of 5] e [of 6] e [of 7] e [of 8]
    e [of 9] e [of 10] e [of 11] e [of 12] e [of 13] e [of 14] e [of 15] e [of 16] e [of 17]
    e [of 18] e [of 19] e [of 20] e [of 21] e [of 22] e [of 23]
  show "entry_addr m' p = entry_addr m p" "entry_len m' p = entry_len m p"
    "entry_type m' p = entry_type m p" "entry_size m' p = entry_size m p"
    using b by (simp_all add: entry_addr_def entry_len_def entry_type_def entry_size_def
        load64_def load32_def add.assoc)
qed

lemma mmap_at_frame:
  assumes "mmap_at A m fin p es" and same: "\<And>a. \<not> A a \<Longrightarrow> m' a = m a"
  shows "mmap_at A m' fin p es"
  using assms(1)
proof (induction es arbitrary: p)
  case (Cons e es)
  obtain a l t where e: "e = (a, l, t)"
    by (cases e)
  with Cons.prems have k: "\<forall>k < 24. \<not> A (p + of_nat k)"
    by simp
  show ?case
    using Cons entry_frame [OF k same] by (simp add: e)
qed simp

lemma highest_loop_mmap:
  "mmap_at A m fin p es \<Longrightarrow> highest_loop m fin p h = Some (fold highest_step es h)"
proof (induction es arbitrary: p h)
  case (Cons e es)
  then show ?case
    by (cases e) (simp add: highest_loop.simps [of m fin p] Let_def)
qed (simp add: highest_loop.simps)

lemma release_blocks_pages:
  assumes "pmm_ok s"
  shows "let t = fold (\<lambda>i. release_block (f i)) [0..<n] s
    in pmm_ok t \<and> used_pages t = used_pages s - (\<lambda>i. unat (f i)) ` {..<n} \<and> page_change s t"
proof (induction n)
  case (Suc n)
  define t where "t = fold (\<lambda>i. release_block (f i)) [0..<n] s"
  have "pmm_ok t" "used_pages t = used_pages s - (\<lambda>i. unat (f i)) ` {..<n}" "page_change s t"
    using Suc by (simp_all add: t_def Let_def)
  then show ?case
    using release_block_pages [of t "f n"] page_change_trans [of s t]
    by (auto simp: Let_def lessThan_Suc simp flip: t_def)
qed (simp add: assms)

lemma reserve_blocks_pages:
  assumes "pmm_ok s" "b < 4294967296"
  shows "let t = fold (\<lambda>i. reserve_block (of_nat i)) [a..<b] s
    in pmm_ok t \<and> used_pages t = used_pages s \<union> {i. a \<le> i \<and> i < b \<and> i < unat (pmm_max_blocks s)} \<and>
       page_change s t"
  using assms(2)
proof (induction b)
  case (Suc b)
  define t where "t = fold (\<lambda>i. reserve_block (of_nat i)) [a..<b] s"
  have t: "pmm_ok t" "used_pages t = used_pages s \<union> {i. a \<le> i \<and> i < b \<and> i < unat (pmm_max_blocks s)}"
    "page_change s t"
    using Suc by (simp_all add: t_def Let_def)
  have u: "unat (of_nat b :: u32) = b"
    using Suc.prems by (intro unat_of_nat_small) simp
  show ?case
  proof (cases "a \<le> b")
    case True
    with t show ?thesis
      using reserve_block_pages [of t "of_nat b"] page_change_trans [of s t] page_change_simps [of s t]
      by (auto simp: Let_def u simp flip: t_def)
  next
    case False
    with assms(1) show ?thesis by (auto simp: Let_def)
  qed
qed (simp add: assms)

lemma release_entry_pages:
  assumes "pmm_ok s"
  shows "pmm_ok (release_entry p s) \<and>
    used_pages (release_entry p s) =
      used_pages s - region_pages (entry_addr (mem s) p, entry_len (mem s) p, entry_type (mem s) p) \<and>
    page_change s (release_entry p s)"
  using assms release_blocks_pages [OF assms] by (simp add: release_entry_def Let_def)

lemma release_loop_pages:
  assumes "pmm_ok s" and "mmap_at (in_bitmap s) (mem s) fin p es"
  shows "\<exists>t. release_loop fin p s = Some t \<and> pmm_ok t \<and>
    used_pages t = used_pages s - \<Union> (region_pages ` set es) \<and> page_change s t"
  using assms
proof (induction es arbitrary: p s)
  case Nil
  then show ?case
    by (subst release_loop.simps) auto
next
  case (Cons e es)
  obtain a l ty where e: "e = (a, l, ty)"
    by (cases e)
  define u where "u = release_entry p s"
  have u: "pmm_ok u" "used_pages u = used_pages s - region_pages e" "page_change s u"
    using release_entry_pages [OF Cons.prems(1), of p] Cons.prems(2) by (simp_all add: u_def e)
  have same: "\<And>a. \<not> in_bitmap s a \<Longrightarrow> mem u a = mem s a"
    and bm: "in_bitmap u = in_bitmap s"
    using page_change_simps [OF u(3)] by (auto simp: in_bitmap_def)
  have k: "\<forall>k < 24. \<not> in_bitmap s (p + of_nat k)"
    using Cons.prems(2) by (simp add: e)
  have "mmap_at (in_bitmap u) (mem u) fin (p + entry_size (mem u) p + 4) es"
    unfolding bm using Cons.prems(2) entry_frame(4) [OF k same]
    by (intro mmap_at_frame [OF _ same]) (simp_all add: e)
  from Cons.IH [OF u(1) this] obtain t where
    "release_loop fin (p + entry_size (mem u) p + 4) u = Some t" "pmm_ok t"
    "used_pages t = used_pages u - \<Union> (region_pages ` set es)" "page_change u t"
    by blast
  moreover have "p < fin"
    using Cons.prems(2) by (simp add: e)
  ultimately show ?case
    using u page_change_trans by (subst release_loop.simps) (auto simp: Let_def simp flip: u_def)
qed

section \<open>Initialisation frees the available memory\<close>

fun available :: "region \<Rightarrow> nat set" where
  "available (a, l, t) =
     (if t = MULTIBOOT_MEMORY_AVAILABLE
      then {unat a div 4096..<unat a div 4096 + unat l div 4096} else {})"

fun region_low :: "region \<Rightarrow> bool" where
  "region_low (a, l, t) \<longleftrightarrow> unat a + unat l \<le> 4294967296"

definition memory_end :: "region list \<Rightarrow> nat" where
  "memory_end es = fold (\<lambda>(a, l, t) h.
     if t = MULTIBOOT_MEMORY_AVAILABLE then max h (unat a + unat l) else h) es 0"

lemma region_pages_low:
  assumes "region_low r"
  shows "region_pages r = available r"
proof -
  obtain a l t where r: "r = (a, l, t)"
    by (cases r)
  have *: "unat (ucast (x div 4096) :: u32) = unat x div 4096" if "unat x \<le> 4294967296" for x :: u64
    using that by (simp add: unsigned_ucast_eq unsigned_take_bit_eq unat_div take_bit_nat_eq_self)
  have al: "unat a \<le> 4294967296" "unat l \<le> 4294967296" "unat a div 4096 + unat l div 4096 \<le> 1048576"
    using assms by (auto simp: r)
  have "unat (ucast (a div 4096) + of_nat i :: u32) = unat a div 4096 + i" if "i < unat l div 4096" for i
  proof -
    have "unat (of_nat i :: u32) = i"
      using that al by (intro unat_of_nat_small) simp
    then show ?thesis
      using that al by (subst unat_add_small) (simp_all add: *)
  qed
  then have "(\<lambda>i. unat (ucast (a div 4096) + of_nat i :: u32)) ` {..<unat l div 4096} =
      (\<lambda>i. unat a div 4096 + i) ` {..<unat l div 4096}"
    by (intro image_cong) simp_all
  also have "\<dots> = {unat a div 4096..<unat a div 4096 + unat l div 4096}"
    using image_add_atLeastLessThan [of "unat a div 4096" 0 "unat l div 4096"]
    by (simp add: lessThan_atLeast0 add.commute)
  finally show ?thesis
    using al by (simp add: r *)
qed

lemma highest_low:
  assumes "\<forall>r \<in> set es. region_low r" "unat h \<le> 4294967296"
  shows "unat (fold highest_step es h) = fold (\<lambda>(a, l, t) h.
      if t = MULTIBOOT_MEMORY_AVAILABLE then max h (unat a + unat l) else h) es (unat h) \<and>
    unat (fold highest_step es h) \<le> 4294967296"
  using assms
proof (induction es arbitrary: h)
  case (Cons e es)
  obtain a l t where e: "e = (a, l, t)"
    by (cases e)
  then have "unat a + unat l \<le> 4294967296"
    using Cons.prems(1) by simp
  then have "unat (a + l) = unat a + unat l"
    by (simp add: unat_add_small)
  then have "unat (highest_step e h) = (if t = MULTIBOOT_MEMORY_AVAILABLE then max (unat h) (unat a + unat l) else unat h)"
    by (auto simp: e word_less_nat_alt)
  moreover have "unat (highest_step e h) \<le> 4294967296"
    using calculation Cons.prems(2) \<open>unat a + unat l \<le> 4294967296\<close> by simp
  ultimately show ?case
    using Cons.IH [of "highest_step e h"] Cons.prems(1) by (simp add: e)
qed simp

lemma bitmap_bytes_round: "unat (bitmap_bytes n) = (unat n + 7) div 8"
proof -
  have d: "unat (n div 8) = unat n div 8" and m: "unat (n mod 8) = unat n mod 8"
    by (simp_all add: unat_div unat_mod)
  have nz: "n mod 8 \<noteq> 0 \<longleftrightarrow> unat n mod 8 \<noteq> 0"
    by (simp add: word_eq_nat m)
  have "unat n div 8 + 1 < 4294967296"
    using unat_u32_bound [of n] by linarith
  then have "unat (n div 8 + 1) = unat n div 8 + 1"
    using d by (subst unat_add_small) simp_all
  then have "unat (bitmap_bytes n) = (if unat n mod 8 \<noteq> 0 then unat n div 8 + 1 else unat n div 8)"
    using d nz by (simp add: bitmap_bytes_def)
  also have "\<dots> = (unat n + 7) div 8"
    by presburger
  finally show ?thesis .
qed

lemma mmap_test_full:
  assumes "bitmap_ok s" "\<And>a. in_bitmap s a \<Longrightarrow> mem s a = 0xFF" "i < unat (pmm_max_blocks s)"
  shows "mmap_test (of_nat i) s"
proof -
  have i: "i < 1048576" "i div 8 < (unat (pmm_max_blocks s) + 7) div 8"
    using assms(1,3) by (auto simp: bitmap_ok_def)
  then have "in_bitmap s (pmm_bitmap s + of_nat (i div 8))"
    using assms(1) by (simp add: in_bitmap_def bitmap_ok_def in_range_offset)
  then have "mem s (pmm_bitmap s + of_nat (i div 8)) = - 1"
    using assms(2) by simp
  moreover have "i mod 8 < 8"
    by simp
  ultimately show ?thesis
    using i by (simp add: mmap_test_bit u32_of_page page_byte)
qed

lemma used_pages_full:
  assumes "bitmap_ok s" "\<And>a. in_bitmap s a \<Longrightarrow> mem s a = 0xFF" "pmm_used_blocks s = pmm_max_blocks s"
  shows "used_pages s = {..<unat (pmm_max_blocks s)}" "pmm_ok s"
proof -
  show u: "used_pages s = {..<unat (pmm_max_blocks s)}"
    using mmap_test_full [OF assms(1,2)] by (auto simp: used_pages_def)
  show "pmm_ok s"
    using assms(1,3) by (simp add: pmm_ok_def u)
qed

text \<open>Printing leaves the pages alone.\<close>

definition same_pages :: "'a pmm_scheme \<Rightarrow> 'a pmm_scheme \<Rightarrow> bool" where
  "same_pages s t \<longleftrightarrow>
     (\<exists>l r c b. t = s\<lparr>io_log := l, terminal_row := r, terminal_column := c, terminal_buffer := b\<rparr>)"

lemma same_pages_simps:
  assumes "same_pages s t"
  shows "pmm_ok t = pmm_ok s" "used_pages t = used_pages s" "free_pages t = free_pages s"
    "pmm_max_blocks t = pmm_max_blocks s" "pmm_bitmap t = pmm_bitmap s"
    "mem t = mem s" "tty_lock t = tty_lock s"
  using assms
  by (auto simp: same_pages_def pmm_ok_def bitmap_ok_def used_pages_def free_pages_def mmap_test_def)

lemma same_pages_trans: "same_pages s t \<Longrightarrow> same_pages t u \<Longrightarrow> same_pages s u"
  unfolding same_pages_def by (cases s) auto

lemma print_same_pages:
  assumes "tty_lock s = 0" "render format args \<noteq> None"
  shows "\<exists>t. print format args s = Inr t \<and> same_pages s t \<and> (tty_inv s \<longrightarrow> tty_inv t)"
  using print_returns [OF assms] unfolding same_pages_def by metis

lemma pmm_report_returns:
  assumes "tty_lock s = 0"
  shows "\<exists>t. pmm_report h n s = Inr t \<and> same_pages s t \<and> (tty_inv s \<longrightarrow> tty_inv t)"
proof -
  note p = print_same_pages
  obtain t where t: "print (''PMM initialized with %d MB total physical memory.'' @ [newline_char])
      [PInt (ucast (h div 1024 div 1024))] s = Inr t" "same_pages s t" "tty_inv s \<longrightarrow> tty_inv t"
    using p [OF assms, of "''PMM initialized with %d MB total physical memory.'' @ [newline_char]"
        "[PInt (ucast (h div 1024 div 1024))]"] by auto
  have lt: "tty_lock t = 0"
    using t(2) assms by (simp add: same_pages_simps)
  obtain u where u: "print (''Bitmap size: %d bytes at 0x%x'' @ [newline_char])
      [PInt n, PInt (pmm_bitmap t)] t = Inr u" "same_pages t u" "tty_inv t \<longrightarrow> tty_inv u"
    using p [OF lt, of "''Bitmap size: %d bytes at 0x%x'' @ [newline_char]" "[PInt n, PInt (pmm_bitmap t)]"]
    by auto
  have lu: "tty_lock u = 0"
    using u(2) lt by (simp add: same_pages_simps)
  obtain v where v: "print (''Free memory: %d KB'' @ [newline_char])
      [PInt (pmm_get_free_memory u div 1024)] u = Inr v" "same_pages u v" "tty_inv u \<longrightarrow> tty_inv v"
    using p [OF lu, of "''Free memory: %d KB'' @ [newline_char]" "[PInt (pmm_get_free_memory u div 1024)]"]
    by auto
  show ?thesis
    using t u v same_pages_trans by (simp add: pmm_report_def) blast
qed

text \<open>The state in which the second pass over the memory map starts: every page is marked.\<close>

lemma pmm_marked:
  fixes s :: "'a pmm_scheme"
  assumes "unat n \<le> 1048576" "range_ok p ((unat n + 7) div 8)"
    and t: "t = s\<lparr>pmm_max_blocks := n, pmm_bitmap := p,
      mem := memset (mem s) p 0xFF (bitmap_bytes n), pmm_used_blocks := n\<rparr>"
  shows "pmm_ok t" "used_pages t = {..<unat n}"
    "\<And>a. \<not> in_range p ((unat n + 7) div 8) a \<Longrightarrow> mem t a = mem s a"
proof -
  have r: "range_ok p (unat (bitmap_bytes n))"
    using assms(2) by (simp add: bitmap_bytes_round)
  have m: "mem t a = (if in_range p ((unat n + 7) div 8) a then 0xFF else mem s a)" for a
    by (simp add: t memset_apply [OF r] bitmap_bytes_round)
  have "bitmap_ok t"
    using assms(1,2) by (simp add: bitmap_ok_def t)
  moreover have "pmm_max_blocks t = n" "pmm_bitmap t = p" "pmm_used_blocks t = n"
    by (simp_all add: t)
  ultimately show "pmm_ok t" "used_pages t = {..<unat n}"
    using used_pages_full [of t] m by (simp_all add: in_bitmap_def)
  show "\<And>a. \<not> in_range p ((unat n + 7) div 8) a \<Longrightarrow> mem t a = mem s a"
    by (simp add: m)
qed

lemma block_end: "i < (x + 4095) div 4096 \<longleftrightarrow> i * 4096 < x" for x :: nat
  using less_eq_div_iff_mult_less_eq [of 4096 "Suc i" "x + 4095"] by (simp add: Suc_le_eq)

text \<open>The set-up writes no memory outside the bitmap, and no other field but those of the allocator and the terminal.\<close>

definition pmm_change :: "'a pmm_scheme \<Rightarrow> 'a pmm_scheme \<Rightarrow> bool" where
  "pmm_change s t \<longleftrightarrow>
     (\<exists>m n p u l r c b. t = s\<lparr>mem := m, pmm_max_blocks := n, pmm_bitmap := p, pmm_used_blocks := u,
        io_log := l, terminal_row := r, terminal_column := c, terminal_buffer := b\<rparr>) \<and>
     (tty_inv s \<longrightarrow> tty_inv t)"

lemma pmm_init_ok:
  assumes lock: "tty_lock s = 0"
    and low: "\<forall>r \<in> set es. region_low r"
    and bytes: "bytes = (memory_end es div 4096 + 7) div 8"
    and room: "unat (kernel_end - KERNEL_VIRT_BASE) + bytes + 4095 < 4294967296"
    and map: "mmap_at (in_range (kernel_end - KERNEL_VIRT_BASE) bytes) (mem s)
      (mmap_addr + mmap_length) mmap_addr es"
  shows "\<exists>s'. pmm_init kernel_start kernel_end mmap_addr mmap_length s = Inr s' \<and> pmm_ok s' \<and> tty_lock s' = 0 \<and>
    pmm_bitmap s' = kernel_end - KERNEL_VIRT_BASE \<and>
    unat (pmm_max_blocks s') = memory_end es div 4096 \<and>
    used_pages s' = {i. i < memory_end es div 4096 \<and>
      ((\<forall>r \<in> set es. i \<notin> available r) \<or>
       unat (kernel_start - KERNEL_VIRT_BASE) div 4096 \<le> i \<and>
       i * 4096 < unat (kernel_end - KERNEL_VIRT_BASE) + bytes)} \<and>
    pmm_change s s' \<and> (\<forall>a. \<not> in_range (kernel_end - KERNEL_VIRT_BASE) bytes a \<longrightarrow> mem s' a = mem s a)"
proof -
  define h where "h = fold highest_step es 0"
  define n :: u32 where "n = ucast (h div 4096)"
  define p where "p = kernel_end - KERNEL_VIRT_BASE"
  define a where "a = s\<lparr>pmm_max_blocks := n, pmm_bitmap := p,
      mem := memset (mem s) p 0xFF (bitmap_bytes n), pmm_used_blocks := n\<rparr>"
  have "unat h = memory_end es" and h_le: "memory_end es \<le> 4294967296"
    using highest_low [OF low, of 0] by (simp_all add: h_def memory_end_def)
  then have n: "unat n = memory_end es div 4096" "unat n \<le> 1048576"
    by (simp_all add: n_def unsigned_ucast_eq unsigned_take_bit_eq unat_div take_bit_nat_eq_self)
  have size: "(unat n + 7) div 8 = bytes"
    by (simp add: bytes n)
  have p: "range_ok p bytes"
    using room by (simp add: range_ok_def p_def)
  have a: "pmm_ok a" "used_pages a = {..<unat n}" "\<And>x. \<not> in_range p bytes x \<Longrightarrow> mem a x = mem s x"
    using pmm_marked [OF n(2), of p a s] p by (simp_all add: size a_def)
  have bm: "in_bitmap a = in_range p bytes"
    by (simp add: fun_eq_iff in_bitmap_def a_def size)
  have map_a: "mmap_at (in_bitmap a) (mem a) (mmap_addr + mmap_length) mmap_addr es"
    using map a(3) unfolding bm p_def [symmetric] by (rule mmap_at_frame)
  obtain b where b: "release_loop (mmap_addr + mmap_length) mmap_addr a = Some b" "pmm_ok b"
    "used_pages b = used_pages a - \<Union> (region_pages ` set es)" "page_change a b"
    using release_loop_pages [OF a(1) map_a] by blast
  let ?k = "(kernel_start - KERNEL_VIRT_BASE) div PAGE_SIZE"
  let ?e = "(p + bitmap_bytes n + PAGE_SIZE - 1) div PAGE_SIZE"
  define c where "c = fold (\<lambda>i. reserve_block (of_nat i)) [unat ?k..<unat ?e] b"
  have c: "pmm_ok c" "used_pages c = used_pages b \<union> {i. unat ?k \<le> i \<and> i < unat ?e \<and> i < unat (pmm_max_blocks b)}"
    "page_change b c"
    using reserve_blocks_pages [OF b(2), of "unat ?e" "unat ?k"] by (simp_all add: c_def Let_def)
  have max: "pmm_max_blocks b = n" "pmm_max_blocks c = n" "tty_lock c = 0" "pmm_bitmap c = p"
    using page_change_simps [OF b(4)] page_change_simps [OF c(3)] lock by (simp_all add: a_def)
  obtain d where d: "pmm_report h (bitmap_bytes n) c = Inr d" "same_pages c d" "tty_inv c \<longrightarrow> tty_inv d"
    using pmm_report_returns [OF max(3)] by blast
  have k: "unat ?k = unat (kernel_start - KERNEL_VIRT_BASE) div 4096"
    by (simp add: unat_div PAGE_SIZE_def)
  have "p + bitmap_bytes n + PAGE_SIZE - 1 = p + bitmap_bytes n + 4095"
    by (simp add: PAGE_SIZE_def)
  moreover have "unat (p + bitmap_bytes n) = unat p + bytes"
    using room bitmap_bytes_round [of n] by (subst unat_add_small) (simp_all add: size p_def)
  then have "unat (p + bitmap_bytes n + 4095) = unat p + bytes + 4095"
    using room by (subst unat_add_small) (simp_all add: p_def)
  ultimately have e: "unat ?e = (unat p + bytes + 4095) div 4096"
    by (simp only: unat_div PAGE_SIZE_def) simp
  have "pmm_init kernel_start kernel_end mmap_addr mmap_length s = Inr d"
    using highest_loop_mmap [OF map, of 0] b(1) d(1)
    by (simp add: pmm_init_def Let_def flip: h_def n_def p_def a_def c_def)
  moreover have "(\<Union> (region_pages ` set es)) = {i. \<exists>r \<in> set es. i \<in> available r}"
    using low region_pages_low by auto
  moreover have "pmm_change s d"
  proof -
    have "tty_inv c = tty_inv s"
      using b(4) c(3) by (auto simp: page_change_def tty_inv_def a_def)
    moreover have "\<exists>m n p u l r c b. d = s\<lparr>mem := m, pmm_max_blocks := n, pmm_bitmap := p, pmm_used_blocks := u,
        io_log := l, terminal_row := r, terminal_column := c, terminal_buffer := b\<rparr>"
      using b(4) c(3) d(2) unfolding page_change_def same_pages_def a_def by (cases s) auto
    ultimately show ?thesis
      using d(3) by (simp add: pmm_change_def)
  qed
  moreover have "mem d x = mem s x" if "\<not> in_range p bytes x" for x
  proof -
    have "in_bitmap b = in_bitmap a"
      using page_change_simps [OF b(4)] by (simp add: in_bitmap_def fun_eq_iff)
    then show ?thesis
      using that a(3) page_change_simps(4) [OF b(4)] page_change_simps(4) [OF c(3)] same_pages_simps [OF d(2)] bm by simp
  qed
  ultimately show ?thesis
    using c a b d(2) max n k e
    by (intro exI [of _ d]) (auto simp: same_pages_simps block_end p_def)
qed


section \<open>Allocation and release\<close>

lemma find_upt:
  "List.find P [0..<n] = (if \<exists>i < n. P i then Some (Min {i. i < n \<and> P i}) else None)"
proof (cases "List.find P [0..<n]")
  case None
  then show ?thesis by (auto simp: find_None_iff)
next
  case (Some k)
  then have "k < n" "P k" "\<And>j. j < k \<Longrightarrow> \<not> P j"
    by (auto simp: find_Some_iff)
  then have "Min {i. i < n \<and> P i} = k"
    by (intro Min_eqI) (auto simp: not_less [symmetric])
  with Some \<open>k < n\<close> \<open>P k\<close> show ?thesis by auto
qed

lemma finite_free_pages [simp]: "finite (free_pages s)"
  by (simp add: free_pages_def)

lemma pmm_alloc_page_cases:
  assumes "pmm_ok s"
  shows "free_pages s = {} \<Longrightarrow> pmm_alloc_page s = (0, s)"
    and "free_pages s \<noteq> {} \<Longrightarrow> \<exists>t. pmm_alloc_page s = (of_nat (Min (free_pages s)) * PAGE_SIZE, t) \<and>
      pmm_ok t \<and> page_change s t \<and> used_pages t = insert (Min (free_pages s)) (used_pages s)"
proof -
  have f: "List.find (\<lambda>i. \<not> mmap_test (of_nat i) s) [0..<unat (pmm_max_blocks s)] =
      (if free_pages s = {} then None else Some (Min (free_pages s)))"
    by (auto simp: find_upt free_pages_def)
  show "pmm_alloc_page s = (0, s)" if "free_pages s = {}"
    using that by (simp add: pmm_alloc_page_def f)
  assume ne: "free_pages s \<noteq> {}"
  let ?i = "Min (free_pages s)"
  have "?i \<in> free_pages s"
    using ne by (intro Min_in) simp_all
  then have i: "?i < unat (pmm_max_blocks s)" "?i \<notin> used_pages s"
    by (auto simp: free_pages_eq)
  then show "\<exists>t. pmm_alloc_page s = (of_nat ?i * PAGE_SIZE, t) \<and>
      pmm_ok t \<and> page_change s t \<and> used_pages t = insert ?i (used_pages s)"
    using reserve_page [OF assms i] page_change_mmap(1) [of s ?i] assms ne
    by (simp add: pmm_alloc_page_def f pmm_ok_def)
qed

lemma free_pages_change:
  assumes "page_change s t"
  shows "free_pages t = {..<unat (pmm_max_blocks s)} - used_pages t"
  using page_change_simps [OF assms] by (simp add: free_pages_eq)

lemma unat_page_size: "unat PAGE_SIZE = 4096"
  by (simp add: PAGE_SIZE_def)

lemma page_address:
  assumes "i < 1048576"
  shows "unat (of_nat i * PAGE_SIZE) = i * 4096"
proof -
  have "unat (of_nat i :: u32) * unat PAGE_SIZE = i * 4096"
    using assms by (simp only: u32_of_page unat_page_size)
  then show ?thesis
    using assms unat_mult_small [of "of_nat i" PAGE_SIZE] by simp
qed

lemma page_of_address:
  assumes i: "i < 1048576"
  shows "(of_nat i * PAGE_SIZE) div PAGE_SIZE = (of_nat i :: u32)"
proof (rule word_unat_eq_iff [THEN iffD2])
  show "unat ((of_nat i * PAGE_SIZE) div PAGE_SIZE) = unat (of_nat i :: u32)"
    unfolding unat_div page_address [OF i] u32_of_page [OF i] unat_page_size
    by (rule nonzero_mult_div_cancel_right) (rule zero_neq_numeral [symmetric])
qed

lemma page_address_zero: "i < 1048576 \<Longrightarrow> (of_nat i * PAGE_SIZE :: u32) = 0 \<longleftrightarrow> i = 0"
  unfolding word_unat_eq_iff page_address by simp

lemma pmm_free_page_release: "pmm_free_page p s = release_block (p div PAGE_SIZE) s"
  by (simp add: pmm_free_page_def release_block_def Let_def)

text \<open>
  C17. pmm_alloc_page returns the lowest free page, marks only that page and writes no memory
  outside the bitmap
\<close>

theorem pmm_alloc_page_first_fit:
  assumes "pmm_ok s" "free_pages s \<noteq> {}"
  shows "\<exists>i t. i \<in> free_pages s \<and> (\<forall>j \<in> free_pages s. i \<le> j) \<and>
    pmm_alloc_page s = (of_nat (i * 4096), t) \<and> pmm_ok t \<and>
    used_pages t = insert i (used_pages s) \<and> free_pages t = free_pages s - {i} \<and>
    (\<forall>a. \<not> in_bitmap s a \<longrightarrow> mem t a = mem s a)"
proof -
  let ?i = "Min (free_pages s)"
  obtain t where t: "pmm_alloc_page s = (of_nat ?i * PAGE_SIZE, t)" "pmm_ok t" "page_change s t"
    "used_pages t = insert ?i (used_pages s)"
    using pmm_alloc_page_cases(2) [OF assms] by blast
  have f: "free_pages t = free_pages s - {?i}"
    using t(4) unfolding free_pages_change [OF t(3)] free_pages_eq [of s] by blast
  have "?i \<in> free_pages s" "\<forall>j \<in> free_pages s. ?i \<le> j"
    using assms Min_in [OF finite_free_pages] Min_le [OF finite_free_pages] by blast+
  moreover have "of_nat ?i * PAGE_SIZE = (of_nat (?i * 4096) :: u32)"
    by (simp add: PAGE_SIZE_def)
  ultimately show ?thesis
    using t f page_change_simps(4) [OF t(3)] by (intro exI [of _ ?i] exI [of _ t]) metis
qed

text \<open>
  Pmm_alloc_page returns the null pointer exactly when no page is free or page 0 is free: its
  failure value is also the address of a page it hands out.
\<close>

theorem pmm_alloc_page_null:
  assumes "pmm_ok s"
  shows "fst (pmm_alloc_page s) = 0 \<longleftrightarrow> free_pages s = {} \<or> 0 \<in> free_pages s"
proof (cases "free_pages s = {}")
  case True
  then show ?thesis
    using pmm_alloc_page_cases(1) [OF assms] by simp
next
  case False
  let ?i = "Min (free_pages s)"
  have i: "?i \<in> free_pages s"
    using False by (intro Min_in) simp_all
  then have "?i < 1048576"
    using assms by (auto simp: free_pages_def pmm_ok_def bitmap_ok_def)
  then have "fst (pmm_alloc_page s) = 0 \<longleftrightarrow> ?i = 0"
    using pmm_alloc_page_cases(2) [OF assms False] page_address_zero [of ?i] by fastforce
  moreover have "?i = 0 \<longleftrightarrow> 0 \<in> free_pages s"
    using i Min_le [OF finite_free_pages, of 0 s] by fastforce
  ultimately show ?thesis
    using False by simp
qed

text \<open>
  Pmm_free_page makes exactly the page of its argument free, keeps the counter, and a release of a
  page that is not in use (a double free) changes nothing.
\<close>

theorem pmm_free_page_pages:
  assumes "pmm_ok s"
  shows "pmm_ok (pmm_free_page p s) \<and> used_pages (pmm_free_page p s) = used_pages s - {unat p div 4096} \<and>
    (unat p div 4096 \<notin> used_pages s \<longrightarrow> pmm_free_page p s = s)"
proof -
  have u: "unat (p div PAGE_SIZE) = unat p div 4096"
    by (simp only: unat_div unat_page_size)
  have "release_block (p div PAGE_SIZE) s = s" if "unat (p div PAGE_SIZE) \<notin> used_pages s"
    using that mmap_test_used unfolding release_block_def by metis
  then show ?thesis
    using release_block_pages [OF assms, of "p div PAGE_SIZE"]
    unfolding pmm_free_page_release u by blast
qed

section \<open>The contract of a page allocator\<close>

text \<open>
  What the rest of the kernel relies on: an allocation takes one page out of the available ones
  as long as there is one, and a release makes at most its own page available.
\<close>

locale page_allocator =
  fixes alloc :: "'s \<Rightarrow> u32 \<times> 's"
    and release :: "u32 \<Rightarrow> 's \<Rightarrow> 's"
    and ok :: "'s \<Rightarrow> bool"
    and avail :: "'s \<Rightarrow> nat set"
  assumes avail_bound: "ok s \<Longrightarrow> avail s \<subseteq> {..<1048576}"
    and alloc_page: "ok s \<Longrightarrow> avail s \<noteq> {} \<Longrightarrow>
      \<exists>i t. i \<in> avail s \<and> alloc s = (of_nat i * PAGE_SIZE, t) \<and> ok t \<and> avail t = avail s - {i}"
    and release_ok: "ok s \<Longrightarrow> ok (release p s)"
    and release_avail: "ok s \<Longrightarrow> avail (release p s) = avail s \<or>
      avail (release p s) = insert (unat p div 4096) (avail s)"

primrec alloc_pages :: "('s \<Rightarrow> u32 \<times> 's) \<Rightarrow> nat \<Rightarrow> 's \<Rightarrow> u32 list \<times> 's" where
  "alloc_pages alloc 0 s = ([], s)"
| "alloc_pages alloc (Suc n) s =
     (let (a, s) = alloc s; (as, s) = alloc_pages alloc n s in (a # as, s))"

context page_allocator
begin

lemma alloc_pages_fresh:
  assumes "ok s" "n \<le> card (avail s)"
  shows "\<exists>is t. alloc_pages alloc n s = (List.map (\<lambda>i. of_nat i * PAGE_SIZE) is, t) \<and> ok t \<and>
    length is = n \<and> distinct is \<and> set is \<subseteq> avail s \<and> avail t = avail s - set is"
  using assms
proof (induction n arbitrary: s)
  case 0
  then show ?case by auto
next
  case (Suc n)
  have fin: "finite (avail s)"
    using avail_bound [OF Suc.prems(1)] finite_subset by blast
  then have "avail s \<noteq> {}"
    using Suc.prems(2) by auto
  then obtain i t where i: "i \<in> avail s" "alloc s = (of_nat i * PAGE_SIZE, t)" "ok t"
    "avail t = avail s - {i}"
    using alloc_page [OF Suc.prems(1)] by blast
  then have "n \<le> card (avail t)"
    using Suc.prems(2) fin by simp
  from Suc.IH [OF i(3) this] obtain "is" u where u:
    "alloc_pages alloc n t = (List.map (\<lambda>i. of_nat i * PAGE_SIZE) is, u)" "ok u" "length is = n"
    "distinct is" "set is \<subseteq> avail t" "avail u = avail t - set is"
    by blast
  then show ?case
    using i by (intro exI [of _ "i # is"] exI [of _ u]) auto
qed

lemma alloc_pages_frames:
  assumes "ok s" "n \<le> card (avail s)"
  shows "\<exists>as t. alloc_pages alloc n s = (as, t) \<and> ok t \<and> length as = n \<and> distinct as \<and>
    (\<forall>a \<in> set as. unat a mod 4096 = 0 \<and> unat a div 4096 \<in> avail s \<and> unat a div 4096 \<notin> avail t)"
proof -
  obtain "is" t where t: "alloc_pages alloc n s = (List.map (\<lambda>i. of_nat i * PAGE_SIZE) is, t)" "ok t"
    "length is = n" "distinct is" "set is \<subseteq> avail s" "avail t = avail s - set is"
    using alloc_pages_fresh [OF assms] by blast
  have low: "i < 1048576" if "i \<in> set is" for i
    using that t(5) avail_bound [OF assms(1)] by blast
  have "inj_on (\<lambda>i. of_nat i * PAGE_SIZE :: u32) (set is)"
  proof (rule inj_onI)
    fix i j
    assume "i \<in> set is" "j \<in> set is" "(of_nat i * PAGE_SIZE :: u32) = of_nat j * PAGE_SIZE"
    then show "i = j"
      using page_address [OF low] by (metis mult_cancel2 zero_neq_numeral)
  qed
  then have "distinct (List.map (\<lambda>i. of_nat i * PAGE_SIZE :: u32) is)"
    using t(4) by (simp add: distinct_map)
  moreover have "unat (of_nat i * PAGE_SIZE) mod 4096 = 0 \<and> unat (of_nat i * PAGE_SIZE) div 4096 = i"
    if "i \<in> set is" for i
    using page_address [OF low [OF that]] by simp
  ultimately show ?thesis
    using t by (intro exI [of _ "List.map (\<lambda>i. of_nat i * PAGE_SIZE) is"] exI [of _ t]) auto
qed

end

interpretation pmm_pages: page_allocator pmm_alloc_page pmm_free_page pmm_ok free_pages
proof
  fix s :: "'a pmm_scheme" and p :: u32
  assume ok: "pmm_ok s"
  then show "free_pages s \<subseteq> {..<1048576}"
    by (auto simp: free_pages_def pmm_ok_def bitmap_ok_def)
  show "pmm_ok (pmm_free_page p s)"
    using release_block_pages [OF ok] by (simp add: pmm_free_page_release)
  have f: "free_pages (pmm_free_page p s) = {..<unat (pmm_max_blocks s)} - (used_pages s - {unat p div 4096})"
    using release_block_pages [OF ok, of "p div PAGE_SIZE"] free_pages_change
    unfolding pmm_free_page_release unat_div unat_page_size by metis
  then show "free_pages (pmm_free_page p s) = free_pages s \<or>
      free_pages (pmm_free_page p s) = insert (unat p div 4096) (free_pages s)"
    using used_pages_bounded [of s] unfolding f free_pages_eq [of s] by blast
  show "\<exists>i t. i \<in> free_pages s \<and> pmm_alloc_page s = (of_nat i * PAGE_SIZE, t) \<and> pmm_ok t \<and>
      free_pages t = free_pages s - {i}" if ne: "free_pages s \<noteq> {}"
  proof -
    let ?i = "Min (free_pages s)"
    obtain t where t: "pmm_alloc_page s = (of_nat ?i * PAGE_SIZE, t)" "pmm_ok t" "page_change s t"
      "used_pages t = insert ?i (used_pages s)"
      using pmm_alloc_page_cases(2) [OF ok ne] by blast
    then have "free_pages t = free_pages s - {?i}"
      unfolding free_pages_change [OF t(3)] free_pages_eq [of s] by blast
    with t Min_in [OF finite_free_pages ne] show ?thesis
      by blast
  qed
qed

text \<open>
  Pmm_get_free_memory is 4096 times the number of free pages, reduced modulo 2^32.
\<close>

theorem pmm_free_memory_counts:
  assumes "pmm_ok s"
  shows "unat (pmm_get_free_memory s) = 4096 * card (free_pages s) mod 4294967296"
proof -
  have c: "unat (pmm_used_blocks s) = card (used_pages s)"
    using assms by (simp add: pmm_ok_def)
  have "card (free_pages s) = unat (pmm_max_blocks s) - unat (pmm_used_blocks s)"
    unfolding free_pages_eq c using used_pages_bounded [of s] by (subst card_Diff_subset) simp_all
  moreover have "unat (pmm_max_blocks s - pmm_used_blocks s) = unat (pmm_max_blocks s) - unat (pmm_used_blocks s)"
    using card_used_pages [of s] c by (intro unat_sub) (simp add: word_le_nat_alt)
  ultimately show ?thesis
    by (simp add: pmm_get_free_memory_def unat_word_ariths unat_page_size mult.commute)
qed

text \<open>
  C18. as long as enough pages are free, successive calls of pmm_alloc_page return pairwise
  distinct page addresses that were free before and are not free afterwards
\<close>

theorem pmm_allocations_distinct:
  assumes "pmm_ok s" "n \<le> card (free_pages s)"
  shows "\<exists>as t. alloc_pages pmm_alloc_page n s = (as, t) \<and> pmm_ok t \<and> length as = n \<and> distinct as \<and>
    (\<forall>a \<in> set as. unat a mod 4096 = 0 \<and> unat a div 4096 \<in> free_pages s \<and> unat a div 4096 \<notin> free_pages t)"
  using assms by (rule pmm_pages.alloc_pages_frames)

section \<open>Instances\<close>

definition boot_pmm :: pmm where
  "boot_pmm = idt.extend boot_idt (pmm.fields (\<lambda>_. 0) 0 0 0)"

lemma boot_pmm_simps [simp]: "mem boot_pmm a = 0" "tty_lock boot_pmm = 0"
  by (simp_all add: boot_pmm_def boot_idt_def boot_cpu_def boot_kbd_def boot_tty_def boot_hw_def hw.defs
      tty.defs kbd.defs cpu.defs idt.defs pmm.defs)

text \<open>8 MB of memory, with the bitmap in page 512 and that page marked.\<close>

definition pmm_8mb :: "'a pmm_scheme \<Rightarrow> 'a pmm_scheme" where
  "pmm_8mb s = s\<lparr>mem := (\<lambda>_. 0)(0x200040 := 1), pmm_bitmap := 0x200000, pmm_max_blocks := 2048,
     pmm_used_blocks := 1\<rparr>"

lemma pmm_8mb_simps [simp]:
  "pmm_bitmap (pmm_8mb s) = 0x200000" "pmm_max_blocks (pmm_8mb s) = 2048" "tty_lock (pmm_8mb s) = tty_lock s"
  by (simp_all add: pmm_8mb_def)

lemma pmm_8mb_bitmap: "bitmap_ok (pmm_8mb s)" "in_bitmap (pmm_8mb s) a \<longleftrightarrow> in_range 0x200000 256 a"
  by (simp_all add: bitmap_ok_def in_bitmap_def range_ok_def)

lemma pmm_8mb_used: "used_pages (pmm_8mb s) = {512}"
proof -
  have "mmap_test (of_nat i) (pmm_8mb s) \<longleftrightarrow> i = 512" if i: "i < 2048" for i
  proof -
    have u: "unat (of_nat i :: u32) = i" "(of_nat i :: u32) div 8 = of_nat (i div 8)"
      using i by (simp_all add: u32_of_page page_byte)
    have "unat (of_nat (i div 8) :: u32) = i div 8"
      using i by (simp add: unat_of_nat_small)
    then have "(0x200000 + of_nat (i div 8) :: u32) = 0x200040 \<longleftrightarrow> i div 8 = 64"
      using i by (simp add: word_unat_eq_iff unat_add_small)
    moreover have "i div 8 = 64 \<and> i mod 8 = 0 \<longleftrightarrow> i = 512"
      using mult_div_mod_eq [of 8 i] by auto
    ultimately show ?thesis
      by (auto simp: mmap_test_bit u pmm_8mb_def bit_1_iff)
  qed
  from this have t: "i < 2048 \<and> mmap_test (of_nat i) (pmm_8mb s) \<longleftrightarrow> i = 512" for i
    by (metis numeral_less_iff semiring_norm(76,78,79,80,81))
  then show ?thesis
    by (simp add: used_pages_def)
qed

lemma pmm_8mb_ok: "pmm_ok (pmm_8mb s)"
  using pmm_8mb_used [of s] by (simp add: pmm_ok_def pmm_8mb_bitmap) (simp add: pmm_8mb_def)

lemma pmm_8mb_free: "free_pages (pmm_8mb s) = {..<2048} - {512}"
  by (simp add: free_pages_eq pmm_8mb_used)

text \<open>A memory map with one available region of 4 MB.\<close>

definition map_4mb :: memory where
  "map_4mb = (\<lambda>_. 0)(0x9000 := 20, 0x900E := 0x40, 0x9014 := 1)"

lemma map_4mb_region:
  "mmap_at (in_range 0x180000 128) map_4mb 0x9018 0x9000 [(0, 0x400000, MULTIBOOT_MEMORY_AVAILABLE)]"
proof -
  have "unat (0x9000 + of_nat k :: u32) = 0x9000 + k" if "k < 24" for k
  proof -
    have "unat (of_nat k :: u32) = k"
      using that by (simp add: unat_of_nat_small)
    with that show ?thesis
      by (simp add: unat_add_small)
  qed
  then have "\<forall>k < 24. \<not> in_range 0x180000 128 (0x9000 + of_nat k)"
    by (simp add: in_range_def)
  then show ?thesis
    by (simp add: map_4mb_def entry_addr_def entry_len_def entry_type_def entry_size_def load64_def load32_def
        MULTIBOOT_MEMORY_AVAILABLE_def)
qed


text \<open>
  An instance of C17.
\<close>

theorem pmm_alloc_page_first_fit_witness:
  "\<exists>t. pmm_alloc_page (pmm_8mb boot_pmm) = (0, t) \<and> used_pages t = {0, 512}"
proof -
  have z: "0 \<in> free_pages (pmm_8mb boot_pmm)"
    by (simp add: pmm_8mb_free)
  then have "free_pages (pmm_8mb boot_pmm) \<noteq> {}"
    by blast
  then obtain i t where "i \<in> free_pages (pmm_8mb boot_pmm)" "\<forall>j \<in> free_pages (pmm_8mb boot_pmm). i \<le> j"
    "pmm_alloc_page (pmm_8mb boot_pmm) = (of_nat (i * 4096), t)" "used_pages t = insert i (used_pages (pmm_8mb boot_pmm))"
    using pmm_alloc_page_first_fit [OF pmm_8mb_ok [of boot_pmm]] by blast
  with z have "i = 0" "pmm_alloc_page (pmm_8mb boot_pmm) = (of_nat (i * 4096), t)" "used_pages t = {i, 512}"
    by (auto simp: pmm_8mb_used)
  then show ?thesis
    by auto
qed

text \<open>
  An instance of the statement above.
\<close>

theorem pmm_alloc_page_null_witness: "fst (pmm_alloc_page (pmm_8mb boot_pmm)) = 0"
  using pmm_alloc_page_null [OF pmm_8mb_ok [of boot_pmm]] by (auto simp: pmm_8mb_free)

text \<open>
  An instance of the statement above.
\<close>

theorem pmm_free_page_pages_witness:
  "used_pages (pmm_free_page 0x200000 (pmm_8mb boot_pmm)) = {}"
  using pmm_free_page_pages [OF pmm_8mb_ok [of boot_pmm], of "0x200000"] by (simp add: pmm_8mb_used)

text \<open>
  An instance of the statement above.
\<close>

theorem pmm_free_memory_counts_witness: "unat (pmm_get_free_memory (pmm_8mb boot_pmm)) = 8384512"
  using pmm_free_memory_counts [OF pmm_8mb_ok [of boot_pmm]] by (simp add: pmm_8mb_free)

text \<open>
  An instance of C18.
\<close>

theorem pmm_allocations_distinct_witness:
  "\<exists>as t. alloc_pages pmm_alloc_page 3 (pmm_8mb boot_pmm) = (as, t) \<and> length as = 3 \<and> distinct as"
  using pmm_allocations_distinct [OF pmm_8mb_ok [of boot_pmm], of 3] by (auto simp: pmm_8mb_free)

end
