(* ===== verification/Vmm.thy ===== *)
theory Vmm
  imports Pmm
begin

text \<open>
  Paging (\<^verbatim>\<open>mm/vmm.cpp\<close>, \<^verbatim>\<open>mm/include/vmm.h\<close>). \<open>translate\<close> is the processor's two-level walk
  from the directory in \<open>cr3\<close>; the code that runs after paging is set up reaches the directory
  and the tables through the recursive slot 1023, and every such access goes through
  \<open>translate\<close>. Before that it uses physical addresses in the identity mapping of the first
  4 MB, and an address above it is not mapped. The translation cache is not modelled: a walk
  always reads the tables as they are (the code invalidates the one page it changes).

  Initialisation is proved to map the first 4 MB at 0 and at 3 GB, and \<open>vmm_map_page\<close> to map
  exactly the page it is asked to.
\<close>

section \<open>The state\<close>

record vmm = pmm +
  kernel_directory :: u32
  cr0 :: u32
  cr3 :: u32

definition VMM_PRESENT :: u32 where "VMM_PRESENT = 0x1"
definition VMM_WRITABLE :: u32 where "VMM_WRITABLE = 0x2"
definition VMM_USER :: u32 where "VMM_USER = 0x4"
definition VMM_RECURSIVE_SLOT :: nat where "VMM_RECURSIVE_SLOT = 1023"
definition VMM_PAGE_TABLES :: u32 where "VMM_PAGE_TABLES = 0xFFC00000"
definition VMM_PAGE_DIRECTORY :: u32 where "VMM_PAGE_DIRECTORY = 0xFFFFF000"

lemmas vmm_flags = VMM_PRESENT_def VMM_WRITABLE_def VMM_USER_def

section \<open>The processor's walk\<close>

definition dir_index :: "u32 \<Rightarrow> nat" where "dir_index v = unat (drop_bit 22 v)"
definition table_index :: "u32 \<Rightarrow> nat" where "table_index v = unat (drop_bit 12 v AND 0x3FF)"
definition frame :: "u32 \<Rightarrow> u32" where "frame e = push_bit 12 (drop_bit 12 e)"
definition offset :: "u32 \<Rightarrow> u32" where "offset v = take_bit 12 v"
definition present :: "u32 \<Rightarrow> bool" where "present e \<longleftrightarrow> bit e 0"

text \<open>Entry \<open>i\<close> of the directory or table whose page starts at \<open>f\<close>.\<close>

definition entry_at :: "u32 \<Rightarrow> nat \<Rightarrow> u32" where
  "entry_at f i = f + of_nat (4 * i)"

definition translate :: "memory \<Rightarrow> u32 \<Rightarrow> u32 \<Rightarrow> u32 option" where
  "translate m dir v =
     (let pde = load32 m (entry_at (frame dir) (dir_index v));
          pte = load32 m (entry_at (frame pde) (table_index v))
      in if present pde \<and> present pte then Some (frame pte OR offset v) else None)"

definition vload32 :: "u32 \<Rightarrow> 'a vmm_scheme \<Rightarrow> u32 outcome" where
  "vload32 v s =
     (case translate (mem s) (cr3 s) v of None \<Rightarrow> Inl Wild | Some p \<Rightarrow> Inr (load32 (mem s) p))"

definition vstore32 :: "u32 \<Rightarrow> u32 \<Rightarrow> 'a vmm_scheme \<Rightarrow> 'a vmm_scheme outcome" where
  "vstore32 v x s =
     (case translate (mem s) (cr3 s) v of None \<Rightarrow> Inl Wild
      | Some p \<Rightarrow> Inr (s\<lparr>mem := store32 (mem s) p x\<rparr>))"

definition vstore8 :: "u32 \<Rightarrow> u8 \<Rightarrow> 'a vmm_scheme \<Rightarrow> 'a vmm_scheme outcome" where
  "vstore8 v x s =
     (case translate (mem s) (cr3 s) v of None \<Rightarrow> Inl Wild
      | Some p \<Rightarrow> Inr (s\<lparr>mem := (mem s)(p := x)\<rparr>))"

text \<open>\<open>memset\<close> on virtual addresses: one byte after the other.\<close>

primrec vmemset :: "u32 \<Rightarrow> u8 \<Rightarrow> nat \<Rightarrow> 'a vmm_scheme \<Rightarrow> 'a vmm_scheme outcome" where
  "vmemset v x 0 s = Inr s"
| "vmemset v x (Suc n) s = bind_outcome (vmemset v x n s) (vstore8 (v + of_nat n) x)"

section \<open>The operations\<close>

definition identity_mapped :: "u32 \<Rightarrow> bool" where
  "identity_mapped p \<longleftrightarrow> unat p + 4096 \<le> 4194304"

text \<open>The stores of the set-up, once the page of the directory is clear: the first table and the directory.\<close>

definition paging_memory :: "memory \<Rightarrow> u32 \<Rightarrow> u32 \<Rightarrow> memory" where
  "paging_memory m kd pt =
     (let m = memset m pt 0 PAGE_SIZE;
          m = fold (\<lambda>i m. store32 m (entry_at pt i)
                (of_nat i * PAGE_SIZE OR VMM_PRESENT OR VMM_WRITABLE OR VMM_USER)) [0..<1024] m;
          e = pt OR VMM_PRESENT OR VMM_WRITABLE OR VMM_USER;
          m = store32 m (entry_at kd 0) e;
          m = store32 m (entry_at kd (unat (drop_bit 22 KERNEL_VIRT_BASE))) e
      in store32 m (entry_at kd VMM_RECURSIVE_SLOT) (kd OR VMM_PRESENT OR VMM_WRITABLE))"

definition vmm_init :: "'a vmm_scheme \<Rightarrow> 'a vmm_scheme outcome" where
  "vmm_init s =
     (let (kd, s) = pmm_alloc_page s
      in if \<not> identity_mapped kd then Inl Wild
         else let s = s\<lparr>kernel_directory := kd, mem := memset (mem s) kd 0 PAGE_SIZE\<rparr>;
                  (pt, s) = pmm_alloc_page s
              in if \<not> identity_mapped pt then Inl Wild
                 else let s = s\<lparr>mem := paging_memory (mem s) kd pt, cr3 := kd,
                                cr0 := cr0 s OR 0x80000000, kernel_directory := VMM_PAGE_DIRECTORY\<rparr>
                      in print (''VMM: Paging enabled. Higher-half kernel mapped at 0x%x'' @ [newline_char])
                           [PInt KERNEL_VIRT_BASE] s)"

text \<open>A page table of the region, allocated and cleared if it is missing.\<close>

definition vmm_need_table :: "u32 \<Rightarrow> u32 \<Rightarrow> 'a vmm_scheme \<Rightarrow> 'a vmm_scheme outcome" where
  "vmm_need_table pd_index flags s =
     bind_outcome (vload32 (VMM_PAGE_DIRECTORY + 4 * pd_index) s) (\<lambda>e.
       if e AND VMM_PRESENT = 0 then
         (let (pt_phys, s) = pmm_alloc_page s
          in bind_outcome (vstore32 (VMM_PAGE_DIRECTORY + 4 * pd_index)
                 (pt_phys OR VMM_PRESENT OR VMM_WRITABLE OR (flags AND VMM_USER)) s)
               (vmemset (VMM_PAGE_TABLES + 4 * (pd_index * 1024)) 0 4096))
       else Inr s)"

definition vmm_map_page :: "u32 \<Rightarrow> u32 \<Rightarrow> u32 \<Rightarrow> 'a vmm_scheme \<Rightarrow> 'a vmm_scheme outcome" where
  "vmm_map_page phys virt flags s =
     (let pd_index = drop_bit 22 virt;
          pt_index = drop_bit 12 virt AND 0x3FF
      in bind_outcome (vmm_need_table pd_index flags s) (\<lambda>s.
           vstore32 (VMM_PAGE_TABLES + 4 * (pd_index * 1024 + pt_index))
             (phys OR (flags AND 0xFFF) OR VMM_PRESENT) s))"

section \<open>Index arithmetic\<close>

lemma dir_index_div: "dir_index v = unat v div 4194304"
  by (simp add: dir_index_def drop_bit_eq_div unat_div)

lemma mask_3ff: "x AND 0x3FF = take_bit 10 x" for x :: u32
  by (simp add: take_bit_eq_mask mask_eq_exp_minus_1)

lemma table_index_div: "table_index v = unat v div 4096 mod 1024"
  by (simp add: table_index_def mask_3ff drop_bit_eq_div unat_div unsigned_take_bit_eq take_bit_eq_mod unat_mod)

lemma dir_index_bound: "dir_index v < 1024"
  unfolding dir_index_div using unat_u32_bound [of v] by linarith

lemma table_index_bound: "table_index v < 1024"
  by (simp add: table_index_div)

lemma unat_frame: "unat (frame e) = unat e div 4096 * 4096"
proof -
  have "unat e div 4096 * 4096 < 4294967296"
    using unat_u32_bound [of e] by (meson div_times_less_eq_dividend le_less_trans)
  moreover have "frame e = (e div 4096) * 4096"
    by (simp add: frame_def push_bit_eq_mult drop_bit_eq_div)
  moreover have "unat (e div 4096) = unat e div 4096"
    by (simp add: unat_div)
  ultimately show ?thesis
    by (simp add: unat_mult_small)
qed

lemma unat_offset: "unat (offset v) = unat v mod 4096"
  by (simp add: offset_def unsigned_take_bit_eq take_bit_eq_mod unat_mod)

text \<open>A page address.\<close>

definition page_base :: "u32 \<Rightarrow> bool" where
  "page_base f \<longleftrightarrow> unat f mod 4096 = 0"

lemma page_base_frame [simp]: "page_base (frame e)"
  by (simp add: page_base_def unat_frame)

lemma page_baseE:
  assumes "page_base f"
  obtains q where "unat f = 4096 * q" "q < 1048576"
proof -
  from assms obtain q where q: "unat f = 4096 * q"
    unfolding page_base_def by (auto simp: mod_eq_0_iff_dvd)
  moreover have "q < 1048576"
    using unat_u32_bound [of f] unfolding q by linarith
  ultimately show thesis
    by (rule that)
qed

lemma frame_page_base [simp]: "page_base f \<Longrightarrow> frame f = f"
  by (erule page_baseE) (simp add: word_unat_eq_iff unat_frame)

lemma page_base_bound: "page_base f \<Longrightarrow> unat f + 4096 \<le> 4294967296"
  by (erule page_baseE) simp

lemma page_offset_add:
  assumes "page_base f" "n < 4096"
  shows "unat (f + of_nat n) = unat f + n"
proof -
  have "unat (of_nat n :: u32) = n"
    using assms(2) by (intro unat_of_nat_small) simp
  then show ?thesis
    using page_base_bound [OF assms(1)] assms(2) by (subst unat_add_small) simp_all
qed

lemma bit_frame: "bit (frame e) n \<longleftrightarrow> 12 \<le> n \<and> bit e n"
  using bit_imp_le_length [of e n] by (auto simp: frame_def bit_simps)

lemma frame_or: "frame (a OR b) = frame a OR frame b"
  by (rule bit_word_eqI) (auto simp: bit_frame bit_or_iff)

lemma frame_small: "unat x < 4096 \<Longrightarrow> frame x = 0"
  unfolding word_unat_eq_iff unat_frame by simp

lemma small_bit: "unat x < 4096 \<Longrightarrow> bit x n \<Longrightarrow> n < 12" for x :: u32
proof (rule ccontr)
  assume x: "unat x < 4096" and b: "bit x n" and "\<not> n < 12"
  then have "bit (frame x) n"
    by (simp add: bit_frame)
  with frame_small [OF x] show False
    by simp
qed

lemma or_offset: "page_base f \<Longrightarrow> unat x < 4096 \<Longrightarrow> f OR x = f + x"
proof -
  assume f: "page_base f" and x: "unat x < 4096"
  have "\<not> bit f n \<or> \<not> bit x n" for n
    using small_bit [OF x, of n] bit_frame [of f n] f by auto
  then show ?thesis
    by (simp add: disjunctive_add)
qed

lemma frame_entry:
  assumes "page_base f" "unat x < 4096"
  shows "frame (f OR x) = f"
  using assms by (simp add: frame_or frame_small)

section \<open>Tables as arrays of entries\<close>

definition entry :: "memory \<Rightarrow> u32 \<Rightarrow> nat \<Rightarrow> u32" where
  "entry m f i = load32 m (entry_at f i)"

lemma unat_entry_at: "page_base f \<Longrightarrow> i < 1024 \<Longrightarrow> unat (entry_at f i) = unat f + 4 * i"
  unfolding entry_at_def by (rule page_offset_add) simp_all

lemma entry_at_aligned:
  assumes "page_base f" "i < 1024"
  shows "aligned4 (entry_at f i)"
proof -
  obtain q where "unat f = 4096 * q"
    using page_baseE [OF assms(1)] by blast
  then have "unat (entry_at f i) = 4 * (1024 * q + i)"
    by (simp add: unat_entry_at assms)
  then show ?thesis
    by (simp add: aligned4_def)
qed

lemma page_split:
  assumes f: "page_base f" and g: "page_base g" and "a < 4096" "b < 4096" "unat f + a = unat g + b"
  shows "f = g \<and> a = b"
proof -
  obtain p q where pq: "unat f = 4096 * p" "unat g = 4096 * q"
    using page_baseE [OF f] page_baseE [OF g] by metis
  have "p = q"
    using assms(3-5) unfolding pq by (cases p q rule: linorder_cases) linarith+
  with assms(3-5) pq show ?thesis
    by (simp add: word_unat_eq_iff)
qed

lemma entry_at_inj:
  "page_base f \<Longrightarrow> page_base g \<Longrightarrow> i < 1024 \<Longrightarrow> k < 1024 \<Longrightarrow> entry_at f i = entry_at g k \<longleftrightarrow> f = g \<and> i = k"
  using page_split [of f g "4 * i" "4 * k"] by (auto simp: word_unat_eq_iff [of "entry_at f i"] unat_entry_at)

lemma entry_store:
  assumes "page_base f" "page_base g" "i < 1024" "k < 1024"
  shows "entry (store32 m (entry_at f i) v) g k = (if f = g \<and> i = k then v else entry m g k)"
  using assms entry_at_inj [OF assms] load_store_other [of "entry_at f i" "entry_at g k" m v]
  by (auto simp: entry_def entry_at_aligned)

lemma entry_cong:
  assumes "page_base f" "i < 1024" "\<And>n. n < 4096 \<Longrightarrow> m' (f + of_nat n) = m (f + of_nat n)"
  shows "entry m' f i = entry m f i"
proof -
  have "m' (entry_at f i + of_nat j) = m (entry_at f i + of_nat j)" if "j < 4" for j
    using assms(3) [of "4 * i + j"] that assms(2) by (simp add: entry_at_def add.assoc)
  from this [of 0] this [of 1] this [of 2] this [of 3] show ?thesis
    by (simp add: entry_def load32_def)
qed

lemma in_page_iff:
  assumes "page_base f" "page_base g" "n < 4096"
  shows "in_range f 4096 (g + of_nat n) \<longleftrightarrow> f = g"
proof -
  have "unat f \<le> unat g + n \<and> unat g + n < unat f + 4096 \<longleftrightarrow> f = g"
  proof
    assume r: "unat f \<le> unat g + n \<and> unat g + n < unat f + 4096"
    then show "f = g"
      using page_split [OF assms(1,2), of "unat g + n - unat f" n] assms(3) by simp
  qed (use assms(3) in simp)
  then show ?thesis
    by (simp add: in_range_def page_offset_add assms)
qed

lemma entry_cleared:
  assumes f: "page_base f" and g: "page_base g" and k: "k < 1024"
    and clear: "\<And>x. m' x = (if in_range f 4096 x then 0 else m x)"
  shows "entry m' g k = (if f = g then 0 else entry m g k)"
proof (cases "f = g")
  case True
  have "m' (entry_at g k + of_nat j) = 0" if "j < 4" for j
    using in_page_iff [OF f g, of "4 * k + j"] that k True
    by (simp add: clear entry_at_def add.assoc)
  from this [of 0] this [of 1] this [of 2] this [of 3] True show ?thesis
    by (simp add: entry_def load32_def)
next
  case False
  then show ?thesis
    using in_page_iff [OF f g] clear by (simp add: entry_cong [OF g k, of m' m])
qed

section \<open>The recursive slot\<close>

lemma translate_entry:
  "page_base dir \<Longrightarrow> translate m dir v =
     (let pde = entry m dir (dir_index v); pte = entry m (frame pde) (table_index v)
      in if present pde \<and> present pte then Some (frame pte OR offset v) else None)"
  by (simp add: translate_def entry_def)

definition recursive :: "memory \<Rightarrow> u32 \<Rightarrow> bool" where
  "recursive m dir \<longleftrightarrow> page_base dir \<and> present (entry m dir 1023) \<and> frame (entry m dir 1023) = dir"

lemma table_window:
  assumes "i < 1024" "n < 4096"
  shows "dir_index (VMM_PAGE_TABLES + of_nat (4096 * i + n)) = 1023"
    "table_index (VMM_PAGE_TABLES + of_nat (4096 * i + n)) = i"
    "offset (VMM_PAGE_TABLES + of_nat (4096 * i + n)) = of_nat n"
proof -
  have n: "unat (of_nat (4096 * i + n) :: u32) = 4096 * i + n"
    using assms by (intro unat_of_nat_small) simp
  have u: "unat (VMM_PAGE_TABLES + of_nat (4096 * i + n)) = 4290772992 + (4096 * i + n)"
    using assms n by (subst unat_add_small) (simp_all add: VMM_PAGE_TABLES_def)
  show "dir_index (VMM_PAGE_TABLES + of_nat (4096 * i + n)) = 1023"
    unfolding dir_index_div u using assms by (intro div_nat_eqI) simp_all
  have "(4290772992 + (4096 * i + n)) div 4096 = 1047552 + i"
    using assms by (intro div_nat_eqI) simp_all
  moreover have "(1047552 + i) mod 1024 = i"
    using assms by (simp add: mod_add_eq [symmetric, of 1047552])
  ultimately show "table_index (VMM_PAGE_TABLES + of_nat (4096 * i + n)) = i"
    unfolding table_index_div u by simp
  have "(4290772992 + (4096 * i + n)) mod 4096 = n"
    using assms by (simp add: mod_add_eq [symmetric, of 4290772992])
  then have "unat (offset (VMM_PAGE_TABLES + of_nat (4096 * i + n))) = n"
    unfolding unat_offset u .
  then show "offset (VMM_PAGE_TABLES + of_nat (4096 * i + n)) = of_nat n"
    by (metis of_nat_unat_inverse)
qed

lemma translate_table:
  assumes "recursive m dir" "i < 1024" "n < 4096" "present (entry m dir i)"
  shows "translate m dir (VMM_PAGE_TABLES + of_nat (4096 * i + n)) = Some (frame (entry m dir i) + of_nat n)"
proof -
  have "unat (of_nat n :: u32) < 4096"
    using assms(3) by (subst unat_of_nat_small) simp_all
  then show ?thesis
    using assms unfolding recursive_def
    by (simp only: translate_entry Let_def table_window or_offset page_base_frame if_True simp_thms)
qed

lemma directory_window: "VMM_PAGE_DIRECTORY + 4 * of_nat i = VMM_PAGE_TABLES + of_nat (4096 * 1023 + 4 * i)"
  by (simp add: VMM_PAGE_DIRECTORY_def VMM_PAGE_TABLES_def)

lemma translate_directory:
  "recursive m dir \<Longrightarrow> i < 1024 \<Longrightarrow>
     translate m dir (VMM_PAGE_DIRECTORY + 4 * of_nat i) = Some (entry_at dir i)"
  unfolding directory_window
  using translate_table [of m dir 1023 "4 * i"] by (simp add: recursive_def entry_at_def)

lemma vmemset_table:
  assumes r: "recursive (mem s) (cr3 s)" and i: "i < 1023" and p: "present (entry (mem s) (cr3 s) i)"
    and f: "f = frame (entry (mem s) (cr3 s) i)" "f \<noteq> cr3 s" and "n \<le> 4096"
  shows "vmemset (VMM_PAGE_TABLES + of_nat (4096 * i)) x n s =
    Inr (s\<lparr>mem := (\<lambda>a. if in_range f n a then x else mem s a)\<rparr>)"
  using \<open>n \<le> 4096\<close>
proof (induction n)
  case 0
  have "(\<lambda>a. if in_range f 0 a then x else mem s a) = mem s"
    by (rule ext) (auto simp: in_range_def)
  then show ?case by simp
next
  case (Suc n)
  let ?m = "\<lambda>a. if in_range f n a then x else mem s a"
  have pb: "page_base f" "page_base (cr3 s)"
    using r by (simp_all add: f(1) recursive_def)
  have "?m (cr3 s + of_nat k) = mem s (cr3 s + of_nat k)" if "k < 4096" for k
    using in_page_iff [OF pb that] f(2) Suc.prems by (auto simp: in_range_def)
  then have e: "entry ?m (cr3 s) k = entry (mem s) (cr3 s) k" if "k < 1024" for k
    using that by (intro entry_cong [OF pb(2)]) simp_all
  have "recursive ?m (cr3 s)"
    using r by (simp add: recursive_def e)
  moreover have ei: "entry ?m (cr3 s) i = entry (mem s) (cr3 s) i"
    using i by (intro e) simp
  moreover have "i < 1024" "n < 4096"
    using i Suc.prems by simp_all
  ultimately have "translate ?m (cr3 s) (VMM_PAGE_TABLES + of_nat (4096 * i + n)) = Some (f + of_nat n)"
    using translate_table [of ?m "cr3 s" i n] p unfolding ei f(1) [symmetric] by blast
  moreover have "VMM_PAGE_TABLES + of_nat (4096 * i) + of_nat n = VMM_PAGE_TABLES + of_nat (4096 * i + n)"
    by simp
  moreover have "?m(f + of_nat n := x) = (\<lambda>a. if in_range f (Suc n) a then x else mem s a)"
    using page_offset_add [OF pb(1), of n] Suc.prems
    by (auto simp: fun_eq_iff in_range_def word_unat_eq_iff)
  ultimately show ?case
    using Suc by (simp add: vstore8_def add.assoc)
qed

section \<open>The invariant of the address space\<close>

definition tables :: "memory \<Rightarrow> u32 \<Rightarrow> u32 set" where
  "tables m dir = insert dir {frame (entry m dir i) | i. i < 1023 \<and> present (entry m dir i)}"

definition page_no :: "u32 \<Rightarrow> nat" where
  "page_no f = unat f div 4096"

text \<open>The two slots that share the table of the first 4 MB.\<close>

definition shared_slots :: "nat set" where
  "shared_slots = {0, 768}"

definition private_tables :: "memory \<Rightarrow> u32 \<Rightarrow> bool" where
  "private_tables m dir \<longleftrightarrow>
     (\<forall>i < 1023. \<forall>k < 1023. i \<noteq> k \<and> present (entry m dir i) \<and> present (entry m dir k) \<and>
        frame (entry m dir i) = frame (entry m dir k) \<longrightarrow> i \<in> shared_slots \<and> k \<in> shared_slots)"

definition vmm_ok :: "'a vmm_scheme \<Rightarrow> bool" where
  "vmm_ok s \<longleftrightarrow> pmm_ok s \<and> recursive (mem s) (cr3 s) \<and>
     (\<forall>a. in_bitmap s a \<longrightarrow> page_no a \<in> used_pages s) \<and>
     (\<forall>f \<in> tables (mem s) (cr3 s). page_no f \<in> used_pages s \<and> (\<forall>n < 4096. \<not> in_bitmap s (f + of_nat n))) \<and>
     (\<forall>i < 1023. present (entry (mem s) (cr3 s) i) \<longrightarrow> frame (entry (mem s) (cr3 s) i) \<noteq> cr3 s) \<and>
     private_tables (mem s) (cr3 s)"

lemma tables_base: "recursive m dir \<Longrightarrow> f \<in> tables m dir \<Longrightarrow> page_base f"
  by (auto simp: tables_def recursive_def)

lemma page_no_inj: "page_base f \<Longrightarrow> page_base g \<Longrightarrow> page_no f = page_no g \<longleftrightarrow> f = g"
  by (erule page_baseE, erule page_baseE) (auto simp: page_no_def word_unat_eq_iff)

lemma page_no_page: "i < 1048576 \<Longrightarrow> page_no (of_nat i * PAGE_SIZE) = i"
  unfolding page_no_def page_address by simp

lemma page_base_page: "i < 1048576 \<Longrightarrow> page_base (of_nat i * PAGE_SIZE)"
  unfolding page_base_def page_address by simp

lemma page_no_offset: "page_base f \<Longrightarrow> n < 4096 \<Longrightarrow> page_no (f + of_nat n) = page_no f"
  unfolding page_no_def by (simp add: page_offset_add) (erule page_baseE, simp)

lemma vmm_frame [simp]:
  "cr3 (mmap_set b s) = cr3 s" "cr3 (s\<lparr>pmm_used_blocks := u\<rparr>) = cr3 s"
  by (simp_all add: mmap_set_def Let_def)

text \<open>An allocation leaves the tables as they are and returns a page that none of them uses.\<close>

lemma vmm_alloc:
  fixes s :: "'a vmm_scheme"
  assumes ok: "vmm_ok s" and ne: "free_pages s \<noteq> {}"
  obtains f t where "pmm_alloc_page s = (f, t)" "page_base f" "page_no f \<in> free_pages s"
    "f \<notin> tables (mem s) (cr3 s)" "\<And>n. n < 4096 \<Longrightarrow> \<not> in_bitmap s (f + of_nat n)"
    "cr3 t = cr3 s" "page_change s t" "pmm_ok t" "used_pages t = insert (page_no f) (used_pages s)"
    "\<And>i. i < 1024 \<Longrightarrow> entry (mem t) (cr3 s) i = entry (mem s) (cr3 s) i"
    "\<And>g i. g \<in> tables (mem s) (cr3 s) \<Longrightarrow> i < 1024 \<Longrightarrow> entry (mem t) g i = entry (mem s) g i"
proof -
  have pmm: "pmm_ok s" and r: "recursive (mem s) (cr3 s)"
    using ok by (simp_all add: vmm_ok_def)
  let ?i = "Min (free_pages s)"
  obtain t where t: "pmm_alloc_page s = (of_nat ?i * PAGE_SIZE, t)" "pmm_ok t" "page_change s t"
    "used_pages t = insert ?i (used_pages s)"
    using pmm_alloc_page_cases(2) [OF pmm ne] by blast
  have i: "?i \<in> free_pages s"
    using ne by (intro Min_in) simp_all
  then have low: "?i < 1048576" and free: "?i \<notin> used_pages s"
    using pmm by (auto simp: free_pages_eq pmm_ok_def bitmap_ok_def)
  let ?f = "of_nat ?i * PAGE_SIZE :: u32"
  have cr3: "cr3 t = cr3 s"
    using t(3) by (auto simp: page_change_def)
  have e: "entry (mem t) g k = entry (mem s) g k" if "g \<in> tables (mem s) (cr3 s)" "k < 1024" for g k
    using that ok page_change_simps(4) [OF t(3)] tables_base [OF r]
    by (intro entry_cong) (auto simp: vmm_ok_def)
  show thesis
  proof (rule that [of ?f t])
    show "page_base ?f"
      using page_base_page [OF low] .
    show "page_no ?f \<in> free_pages s"
      using page_no_page [OF low] i by simp
    show "used_pages t = insert (page_no ?f) (used_pages s)"
      using t(4) page_no_page [OF low] by simp
    show "?f \<notin> tables (mem s) (cr3 s)"
      using ok free page_no_page [OF low] by (auto simp: vmm_ok_def)
    show "\<not> in_bitmap s (?f + of_nat n)" if "n < 4096" for n
      using ok free page_no_page [OF low] page_no_offset [OF page_base_page [OF low] that]
      by (auto simp: vmm_ok_def)
    show "entry (mem t) (cr3 s) k = entry (mem s) (cr3 s) k" if "k < 1024" for k
      using e that by (simp add: tables_def)
  qed (use t cr3 e in auto)
qed

section \<open>Mapping a page\<close>

lemma index_word: "drop_bit 22 v = (of_nat (dir_index v) :: u32)"
    "drop_bit 12 v AND 0x3FF = (of_nat (table_index v) :: u32)"
  by (simp_all only: dir_index_def table_index_def of_nat_unat_inverse)

lemma present_or: "present (x OR VMM_PRESENT)" "present (x OR VMM_PRESENT OR y OR z)"
  by (simp_all add: present_def bit_simps vmm_flags)

lemma and_present: "e AND VMM_PRESENT = 0 \<longleftrightarrow> \<not> present e"
  using and_exp_eq_0_iff_not_bit [of e 0] by (simp add: present_def vmm_flags)

lemma frame_zero: "frame x = 0 \<longleftrightarrow> unat x < 4096"
  unfolding word_unat_eq_iff unat_frame by (simp add: div_eq_0_iff)

lemma small_or: "unat x < 4096 \<Longrightarrow> unat y < 4096 \<Longrightarrow> unat (x OR y) < 4096" for x y :: u32
  unfolding frame_zero [symmetric] frame_or by simp

lemma small_and: "unat y < 4096 \<Longrightarrow> unat (x AND y) < 4096" for x y :: u32
proof -
  assume "unat y < 4096"
  moreover have "frame (x AND y) = x AND frame y"
    by (rule bit_word_eqI) (auto simp: bit_frame bit_and_iff)
  ultimately show ?thesis
    unfolding frame_zero [symmetric] by simp
qed

lemma flags_small:
  "unat VMM_PRESENT < 4096" "unat VMM_WRITABLE < 4096" "unat VMM_USER < 4096"
  "unat (flags AND VMM_USER) < 4096" "unat (flags AND 0xFFF) < 4096"
  by (simp_all add: vmm_flags small_and)

text \<open>Writing outside the bitmap leaves the allocator as it is.\<close>

lemma pages_mem_frame:
  assumes "bitmap_ok s" and same: "\<And>a. in_bitmap s a \<Longrightarrow> m a = mem s a"
  shows "used_pages (s\<lparr>mem := m\<rparr>) = used_pages s" "free_pages (s\<lparr>mem := m\<rparr>) = free_pages s"
    "pmm_ok (s\<lparr>mem := m\<rparr>) = pmm_ok s"
proof -
  have b: "pmm_bitmap (s\<lparr>mem := m\<rparr>) = pmm_bitmap s" "pmm_max_blocks (s\<lparr>mem := m\<rparr>) = pmm_max_blocks s"
    by simp_all
  have t: "mmap_test (of_nat i) (s\<lparr>mem := m\<rparr>) = mmap_test (of_nat i) s" if i: "i < unat (pmm_max_blocks s)" for i
  proof -
    have "i div 8 < (unat (pmm_max_blocks s) + 7) div 8"
      using i by (simp add: less_eq_div_iff_mult_less_eq Suc_le_eq [symmetric])
    then have "in_bitmap s (pmm_bitmap s + of_nat (i div 8))"
      using assms(1) in_range_offset by (simp add: in_bitmap_def bitmap_ok_def)
    moreover have "i < 1048576"
      using assms(1) i by (simp add: bitmap_ok_def)
    ultimately show ?thesis
      by (simp add: mmap_test_bit page_byte same)
  qed
  then show u: "used_pages (s\<lparr>mem := m\<rparr>) = used_pages s" and "free_pages (s\<lparr>mem := m\<rparr>) = free_pages s"
    unfolding used_pages_def free_pages_def b by blast+
  show "pmm_ok (s\<lparr>mem := m\<rparr>) = pmm_ok s"
    by (simp add: pmm_ok_def u bitmap_ok_def)
qed

lemma store32_elsewhere: "(\<And>j. j < 4 \<Longrightarrow> a \<noteq> p + of_nat j) \<Longrightarrow> store32 m p v a = m a"
proof -
  assume e: "\<And>j. j < 4 \<Longrightarrow> a \<noteq> p + of_nat j"
  from e [of 0] e [of 1] e [of 2] e [of 3] show ?thesis
    by (simp add: store32_def)
qed

lemma store_entry_elsewhere:
  assumes "\<And>n. n < 4096 \<Longrightarrow> a \<noteq> f + of_nat n" "i < 1024"
  shows "store32 m (entry_at f i) v a = m a"
proof (rule store32_elsewhere)
  fix j :: nat
  assume "j < 4"
  then have "a \<noteq> f + of_nat (4 * i + j)"
    using assms by (intro assms(1)) simp
  then show "a \<noteq> entry_at f i + of_nat j"
    by (simp add: entry_at_def add.assoc)
qed

lemma page_member:
  assumes "page_base f" "in_range f 4096 a"
  obtains n where "n < 4096" "a = f + of_nat n"
proof -
  let ?n = "unat a - unat f"
  have "?n < 4096" "unat f \<le> unat a"
    using assms(2) by (auto simp: in_range_def)
  moreover have "a = f + of_nat ?n"
    using page_offset_add [OF assms(1), of ?n] calculation by (simp add: word_unat_eq_iff)
  ultimately show thesis
    using that by blast
qed

lemma vmm_ok_entries:
  fixes t :: "'a vmm_scheme"
  assumes "vmm_ok s" and f: "page_base f" "f \<notin> tables (mem s) (cr3 s)" and i: "i < 1023"
    and e: "\<And>k. k < 1024 \<Longrightarrow> entry (mem t) (cr3 s) k = (if k = i then e else entry (mem s) (cr3 s) k)"
    and pe: "present e" "frame e = f" and absent: "\<not> present (entry (mem s) (cr3 s) i)"
    and t: "cr3 t = cr3 s" "pmm_ok t" "used_pages t = insert (page_no f) (used_pages s)" "in_bitmap t = in_bitmap s"
    and nb: "\<And>n. n < 4096 \<Longrightarrow> \<not> in_bitmap s (f + of_nat n)"
  shows "vmm_ok t" "tables (mem t) (cr3 t) = insert f (tables (mem s) (cr3 s))"
proof -
  have r: "recursive (mem s) (cr3 s)"
    using assms(1) by (simp add: vmm_ok_def)
  show tab: "tables (mem t) (cr3 t) = insert f (tables (mem s) (cr3 s))"
  proof -
    have "{frame (entry (mem t) (cr3 s) k) | k. k < 1023 \<and> present (entry (mem t) (cr3 s) k)} =
        insert f {frame (entry (mem s) (cr3 s) k) | k. k < 1023 \<and> present (entry (mem s) (cr3 s) k)}"
      (is "?l = insert f ?r")
    proof
      show "?l \<subseteq> insert f ?r"
        using e pe by (auto split: if_splits)
      have "f \<in> ?l"
        using e [of i] i pe by (intro CollectI exI [of _ i]) simp
      moreover have "?r \<subseteq> ?l"
      proof
        fix x
        assume "x \<in> ?r"
        then obtain k where k: "x = frame (entry (mem s) (cr3 s) k)" "k < 1023" "present (entry (mem s) (cr3 s) k)"
          by blast
        then have "k \<noteq> i"
          using absent by blast
        then show "x \<in> ?l"
          using k e [of k] by (intro CollectI exI [of _ k]) simp
      qed
      ultimately show "insert f ?r \<subseteq> ?l" by blast
    qed
    then show ?thesis
      by (auto simp: tables_def t(1))
  qed
  have "recursive (mem t) (cr3 t)"
    using r i e [of 1023] by (simp add: recursive_def t(1))
  moreover have "frame (entry (mem t) (cr3 t) k) \<noteq> cr3 t" if "k < 1023" "present (entry (mem t) (cr3 t) k)" for k
    using that e [of k] assms(1) f(2) pe by (auto simp: vmm_ok_def t(1) tables_def split: if_splits)
  moreover have "private_tables (mem t) (cr3 t)"
  proof -
    have old: "frame (entry (mem s) (cr3 s) k) \<noteq> f" if "k < 1023" "present (entry (mem s) (cr3 s) k)" for k
      using that f(2) by (auto simp: tables_def)
    show ?thesis
      unfolding private_tables_def t(1)
    proof (intro allI impI)
      fix x y
      assume xy: "x < 1023" "y < 1023" "x \<noteq> y \<and> present (entry (mem t) (cr3 s) x) \<and>
        present (entry (mem t) (cr3 s) y) \<and> frame (entry (mem t) (cr3 s) x) = frame (entry (mem t) (cr3 s) y)"
      then have "x \<noteq> i" "y \<noteq> i"
        using e [of x] e [of y] old [of x] old [of y] pe(2) by auto
      then show "x \<in> shared_slots \<and> y \<in> shared_slots"
        using assms(1) xy e [of x] e [of y] by (auto simp: vmm_ok_def private_tables_def)
    qed
  qed
  ultimately show "vmm_ok t"
    using assms(1) t(2-4) nb unfolding vmm_ok_def tab by simp
qed

text \<open>
  A page that is in use but holds neither a table nor a part of the bitmap belongs to somebody
  else. \<open>keeps s t\<close>: it still does, and its contents are as they were.
\<close>

definition foreign_page :: "'a vmm_scheme \<Rightarrow> nat \<Rightarrow> bool" where
  "foreign_page s n \<longleftrightarrow> n \<in> used_pages s \<and> n \<notin> page_no ` tables (mem s) (cr3 s) \<and> (\<forall>a. page_no a = n \<longrightarrow> \<not> in_bitmap s a)"

definition keeps :: "'a vmm_scheme \<Rightarrow> 'a vmm_scheme \<Rightarrow> bool" where
  "keeps s t \<longleftrightarrow> (\<forall>n. foreign_page s n \<longrightarrow> foreign_page t n \<and> (\<forall>a. page_no a = n \<longrightarrow> mem t a = mem s a))"

lemma keeps_refl [simp]: "keeps s s"
  by (simp add: keeps_def)

lemma keeps_trans: "keeps s t \<Longrightarrow> keeps t u \<Longrightarrow> keeps s u"
  by (auto simp: keeps_def)

lemma keepsI:
  assumes "used_pages s \<subseteq> used_pages t" "in_bitmap t = in_bitmap s"
    and "\<And>n. foreign_page s n \<Longrightarrow> n \<notin> page_no ` tables (mem t) (cr3 t)"
    and "\<And>a. foreign_page s (page_no a) \<Longrightarrow> mem t a = mem s a"
  shows "keeps s t"
  using assms by (auto simp: keeps_def foreign_page_def)

lemma keeps_cong:
  assumes "mem s' = mem s" "cr3 s' = cr3 s" "pmm_bitmap s' = pmm_bitmap s" "pmm_max_blocks s' = pmm_max_blocks s"
  shows "keeps s' t = keeps s t" "keeps t s' = keeps t s"
proof -
  have "used_pages s' = used_pages s" "in_bitmap s' = in_bitmap s"
    using assms by (simp_all add: used_pages_def mmap_test_def in_bitmap_def fun_eq_iff)
  then show "keeps s' t = keeps s t" "keeps t s' = keeps t s"
    using assms by (simp_all add: keeps_def foreign_page_def)
qed

lemma foreign_elsewhere: "page_base f \<Longrightarrow> page_no a \<noteq> page_no f \<Longrightarrow> n < 4096 \<Longrightarrow> a \<noteq> f + of_nat n"
  using page_no_offset by metis

lemma vmm_need_table_absent:
  fixes s :: "'a vmm_scheme"
  assumes ok: "vmm_ok s" and i: "i < 1023" and absent: "\<not> present (entry (mem s) (cr3 s) i)"
    and ne: "free_pages s \<noteq> {}"
  obtains f t where "vmm_need_table (of_nat i) flags s = Inr t" "vmm_ok t" "cr3 t = cr3 s" "page_base f"
    "f \<notin> tables (mem s) (cr3 s)" "page_no f \<in> free_pages s" "used_pages t = insert (page_no f) (used_pages s)"
    "pmm_max_blocks t = pmm_max_blocks s" "tty_lock t = tty_lock s"
    "present (entry (mem t) (cr3 s) i)" "frame (entry (mem t) (cr3 s) i) = f"
    "\<And>g k. g \<in> tables (mem s) (cr3 s) \<Longrightarrow> k < 1024 \<Longrightarrow> \<not> (g = cr3 s \<and> k = i) \<Longrightarrow>
       entry (mem t) g k = entry (mem s) g k"
    "\<And>k. k < 1024 \<Longrightarrow> entry (mem t) f k = 0" "keeps s t"
proof -
  have r: "recursive (mem s) (cr3 s)" and dir: "page_base (cr3 s)" "cr3 s \<in> tables (mem s) (cr3 s)"
    using ok by (auto simp: vmm_ok_def recursive_def tables_def)
  obtain f u where u: "pmm_alloc_page s = (f, u)" "page_base f" "page_no f \<in> free_pages s"
    "f \<notin> tables (mem s) (cr3 s)" "\<And>n. n < 4096 \<Longrightarrow> \<not> in_bitmap s (f + of_nat n)"
    "cr3 u = cr3 s" "page_change s u" "pmm_ok u" "used_pages u = insert (page_no f) (used_pages s)"
    "\<And>i. i < 1024 \<Longrightarrow> entry (mem u) (cr3 s) i = entry (mem s) (cr3 s) i"
    "\<And>g i. g \<in> tables (mem s) (cr3 s) \<Longrightarrow> i < 1024 \<Longrightarrow> entry (mem u) g i = entry (mem s) g i"
    using vmm_alloc [OF ok ne] by metis
  define e where "e = f OR VMM_PRESENT OR VMM_WRITABLE OR (flags AND VMM_USER)"
  define m where "m = store32 (mem u) (entry_at (cr3 s) i) e"
  define m' where "m' = (\<lambda>a. if in_range f 4096 a then 0 else m a)"
  have e: "present e" "frame e = f"
    using u(2) by (simp_all add: e_def present_or frame_entry small_or flags_small)
  have fd: "f \<noteq> cr3 s"
    using u(4) dir by blast
  have em: "entry m g k = (if g = cr3 s \<and> k = i then e else entry (mem u) g k)" if "page_base g" "k < 1024" for g k
    using entry_store [OF dir(1) that(1), of i k "mem u" e] i that(2) by (auto simp: m_def)
  have em': "entry m' g k = (if f = g then 0 else entry m g k)" if "page_base g" "k < 1024" for g k
    using that u(2) by (intro entry_cleared) (simp_all add: m'_def)
  have tab: "entry m' g k = entry (mem s) g k"
    if "g \<in> tables (mem s) (cr3 s)" "k < 1024" "\<not> (g = cr3 s \<and> k = i)" for g k
    using that tables_base [OF r that(1)] u(4,11) by (auto simp: em em')
  have rm: "recursive m (cr3 s)"
    using r i by (simp add: recursive_def em u(10))
  let ?v = "u\<lparr>mem := m\<rparr>" and ?t = "u\<lparr>mem := m'\<rparr>"
  have entry_i: "entry m (cr3 s) i = e" "entry m' (cr3 s) i = e"
    using dir i fd by (simp_all add: em em')
  have "recursive (mem u) (cr3 u)"
    using r by (simp add: recursive_def u(6,10))
  then have st: "vstore32 (VMM_PAGE_DIRECTORY + 4 * of_nat i) e u = Inr ?v"
    using translate_directory [of "mem u" "cr3 u" i] i by (simp add: vstore32_def u(6) m_def)
  have addr: "VMM_PAGE_TABLES + 4 * (of_nat i * 1024) = VMM_PAGE_TABLES + of_nat (4096 * i)"
    by simp
  have "recursive (mem ?v) (cr3 ?v)" "present (entry (mem ?v) (cr3 ?v) i)"
    "f = frame (entry (mem ?v) (cr3 ?v) i)" "f \<noteq> cr3 ?v"
    using rm entry_i e fd by (simp_all add: u(6))
  from vmemset_table [OF this(1) i this(2-4) order_refl, where x = 0]
  have cl: "vmemset (VMM_PAGE_TABLES + 4 * (of_nat i * 1024)) 0 4096 ?v = Inr ?t"
    unfolding addr m'_def by (simp cong: if_cong)
  have ld: "vload32 (VMM_PAGE_DIRECTORY + 4 * of_nat i) s = Inr (entry (mem s) (cr3 s) i)"
    using translate_directory [OF r, of i] i by (simp add: vload32_def entry_def)
  have run: "vmm_need_table (of_nat i) flags s = Inr ?t"
    using st cl absent by (simp add: vmm_need_table_def ld and_present u(1) flip: e_def)
  have bm: "in_bitmap u = in_bitmap s"
    using page_change_simps [OF u(7)] by (auto simp: in_bitmap_def)
  then have bmt: "in_bitmap ?t = in_bitmap s"
    by (simp add: in_bitmap_def fun_eq_iff)
  have same: "m' a = mem u a" if "in_bitmap u a" for a
  proof -
    have "\<not> in_range f 4096 a"
      using page_member [OF u(2)] u(5) that bm by metis
    moreover have "a \<noteq> cr3 s + of_nat n" if "n < 4096" for n
      using ok dir(2) that \<open>in_bitmap u a\<close> bm by (auto simp: vmm_ok_def)
    ultimately show ?thesis
      using i by (simp add: m'_def m_def store_entry_elsewhere)
  qed
  have "bitmap_ok u"
    using u(8) by (simp add: pmm_ok_def)
  note keep = pages_mem_frame [OF this same]
  have "vmm_ok ?t" and tables_t: "tables (mem ?t) (cr3 ?t) = insert f (tables (mem s) (cr3 s))"
    using u(5) keep i fd absent
    by (intro vmm_ok_entries [OF ok u(2) u(4) i _ e absent]; simp add: u em em' dir bmt)+
  moreover have "keeps s ?t"
  proof (rule keepsI)
    show "used_pages s \<subseteq> used_pages ?t"
      using keep u(9) by auto
    show "n \<notin> page_no ` tables (mem ?t) (cr3 ?t)" if "foreign_page s n" for n
      using that u(3) unfolding tables_t by (auto simp: foreign_page_def free_pages_eq)
    fix a
    assume a: "foreign_page s (page_no a)"
    then have n: "page_no a \<noteq> page_no f" "page_no a \<noteq> page_no (cr3 s)" "\<not> in_bitmap s a"
      using u(3) dir(2) by (auto simp: foreign_page_def free_pages_eq)
    have "\<not> in_range f 4096 a"
      using page_member [OF u(2)] foreign_elsewhere [OF u(2) n(1)] by metis
    moreover have "m a = mem u a"
      unfolding m_def using foreign_elsewhere [OF dir(1) n(2)] i by (intro store_entry_elsewhere) auto
    ultimately show "mem ?t a = mem s a"
      using page_change_simps(4) [OF u(7) n(3)] by (simp add: m'_def)
  qed (rule bmt)
  ultimately show thesis
    using run u entry_i e tab keep page_change_simps [OF u(7)]
    by (intro that [of ?t f]) (simp_all add: em')
qed

text \<open>No other slot of the directory uses the table of slot \<open>i\<close>.\<close>

definition unshared :: "'a vmm_scheme \<Rightarrow> nat \<Rightarrow> bool" where
  "unshared s i \<longleftrightarrow>
     (present (entry (mem s) (cr3 s) i) \<longrightarrow>
        (\<forall>k < 1023. k \<noteq> i \<and> present (entry (mem s) (cr3 s) k) \<longrightarrow>
           frame (entry (mem s) (cr3 s) k) \<noteq> frame (entry (mem s) (cr3 s) i)))"

lemma unshared_slot: "vmm_ok s \<Longrightarrow> i < 1023 \<Longrightarrow> i \<notin> shared_slots \<Longrightarrow> unshared s i"
  unfolding unshared_def vmm_ok_def private_tables_def by blast

lemma page_no_indices: "page_no v = page_no w \<longleftrightarrow> dir_index v = dir_index w \<and> table_index v = table_index w"
proof -
  have "dir_index x = page_no x div 1024" "table_index x = page_no x mod 1024" for x
    by (simp_all add: dir_index_div table_index_div page_no_def div_mult2_eq [of _ 4096 1024, simplified])
  then show ?thesis
    by (metis mult_div_mod_eq)
qed

lemma translate_slot:
  "page_base dir \<Longrightarrow> \<not> present (entry m dir (dir_index v)) \<Longrightarrow> translate m dir v = None"
  "page_base dir \<Longrightarrow> present (entry m dir (dir_index v)) \<Longrightarrow> translate m dir v =
     (let pte = entry m (frame (entry m dir (dir_index v))) (table_index v)
      in if present pte then Some (frame pte + offset v) else None)"
  by (simp_all add: translate_entry Let_def or_offset unat_offset)

lemma table_in_tables: "k < 1023 \<Longrightarrow> present (entry m dir k) \<Longrightarrow> frame (entry m dir k) \<in> tables m dir"
  by (auto simp: tables_def)

lemma dir_index_low: "dir_index v \<noteq> 1023 \<Longrightarrow> dir_index v < 1023"
  using dir_index_bound [of v] by simp

lemma vmm_store_entry:
  fixes s :: "'a vmm_scheme"
  assumes ok: "vmm_ok s" and d: "dir_index virt = i" "i < 1023" and p: "present (entry (mem s) (cr3 s) i)"
    and un: "unshared s i" and e: "present e" "frame e = phys"
  obtains t where
    "vstore32 (VMM_PAGE_TABLES + 4 * (of_nat i * 1024 + of_nat (table_index virt))) e s = Inr t"
    "vmm_ok t" "cr3 t = cr3 s" "used_pages t = used_pages s" "free_pages t = free_pages s"
    "tty_lock t = tty_lock s" "\<And>k. k < 1024 \<Longrightarrow> entry (mem t) (cr3 s) k = entry (mem s) (cr3 s) k"
    "\<And>v. dir_index v \<noteq> 1023 \<Longrightarrow> translate (mem t) (cr3 t) v =
      (if page_no v = page_no virt then Some (phys + offset v) else translate (mem s) (cr3 s) v)"
    "keeps s t"
proof -
  have r: "recursive (mem s) (cr3 s)" and dir: "page_base (cr3 s)"
    using ok by (auto simp: vmm_ok_def recursive_def)
  define f where "f = frame (entry (mem s) (cr3 s) i)"
  define j where "j = table_index virt"
  define m where "m = store32 (mem s) (entry_at f j) e"
  have j: "j < 1024" and f: "page_base f" "f \<in> tables (mem s) (cr3 s)" "f \<noteq> cr3 s"
    using ok d p table_in_tables by (auto simp: j_def f_def table_index_bound vmm_ok_def)
  have em: "entry m g k = (if f = g \<and> j = k then e else entry (mem s) g k)" if "page_base g" "k < 1024" for g k
    unfolding m_def using entry_store [OF f(1) that(1) j that(2)] .
  have ed: "entry m (cr3 s) k = entry (mem s) (cr3 s) k" if "k < 1024" for k
    using em [OF dir that] f(3) by simp
  let ?t = "s\<lparr>mem := m\<rparr>"
  have a: "VMM_PAGE_TABLES + 4 * (of_nat i * 1024 + of_nat j) = VMM_PAGE_TABLES + of_nat (4096 * i + 4 * j)"
    by (simp add: algebra_simps)
  have run: "vstore32 (VMM_PAGE_TABLES + 4 * (of_nat i * 1024 + of_nat j)) e s = Inr ?t"
  proof -
    have "translate (mem s) (cr3 s) (VMM_PAGE_TABLES + of_nat (4096 * i + 4 * j)) = Some (entry_at f j)"
      unfolding entry_at_def f_def using p d j by (intro translate_table [OF r]) simp_all
    then show ?thesis
      unfolding a vstore32_def m_def by (simp only: option.case)
  qed
  have same: "m a = mem s a" if "in_bitmap s a" for a
    using ok f(2) that j by (auto simp: m_def vmm_ok_def intro!: store_entry_elsewhere)
  have "bitmap_ok s"
    using ok by (simp add: vmm_ok_def pmm_ok_def)
  note keep = pages_mem_frame [OF this same]
  have tab: "tables m (cr3 s) = tables (mem s) (cr3 s)"
    unfolding tables_def using ed by (intro arg_cong [where f = "insert (cr3 s)"] Collect_cong ex_cong1) auto
  have bmt: "in_bitmap ?t = in_bitmap s"
    by (simp add: in_bitmap_def fun_eq_iff)
  have "vmm_ok ?t"
    using ok r by (simp add: vmm_ok_def recursive_def private_tables_def keep tab bmt ed)
  moreover have "translate m (cr3 s) v =
      (if page_no v = page_no virt then Some (phys + offset v) else translate (mem s) (cr3 s) v)"
    if v: "dir_index v \<noteq> 1023" for v
  proof (cases "present (entry (mem s) (cr3 s) (dir_index v))")
    case False
    then have "page_no v \<noteq> page_no virt"
      using p d by (auto simp: page_no_indices)
    with False show ?thesis
      using translate_slot(1) [OF dir] ed dir_index_bound by simp
  next
    case True
    let ?g = "frame (entry (mem s) (cr3 s) (dir_index v))"
    have "f = ?g \<longleftrightarrow> dir_index v = i"
      using un True p dir_index_low [OF v] by (auto simp: unshared_def f_def)
    then have "entry m ?g (table_index v) =
        (if page_no v = page_no virt then e else entry (mem s) ?g (table_index v))"
      using em [of ?g "table_index v"] d by (auto simp: table_index_bound page_no_indices j_def)
    then show ?thesis
      using translate_slot(2) [OF dir, of _ v] True e ed dir_index_bound by (simp add: Let_def)
  qed
  moreover have "keeps s ?t"
  proof (rule keepsI)
    show "used_pages s \<subseteq> used_pages ?t"
      by (simp add: keep)
    show "n \<notin> page_no ` tables (mem ?t) (cr3 ?t)" if "foreign_page s n" for n
      using that by (simp add: foreign_page_def tab)
    fix a
    assume "foreign_page s (page_no a)"
    then have "page_no a \<noteq> page_no f"
      using f(2) by (auto simp: foreign_page_def)
    then show "mem ?t a = mem s a"
      using foreign_elsewhere [OF f(1)] j by (simp add: m_def store_entry_elsewhere)
  qed (rule bmt)
  ultimately show thesis
    using run keep ed by (intro that [of ?t]) (simp_all add: j_def)
qed

definition has_room :: "'a vmm_scheme \<Rightarrow> u32 \<Rightarrow> bool" where
  "has_room s virt \<longleftrightarrow> present (entry (mem s) (cr3 s) (dir_index virt)) \<or> free_pages s \<noteq> {}"

lemma vmm_need_table_ok:
  fixes s :: "'a vmm_scheme"
  assumes ok: "vmm_ok s" and v: "dir_index virt \<noteq> 1023" and room: "has_room s virt"
    and un: "unshared s (dir_index virt)"
  obtains u where "vmm_need_table (of_nat (dir_index virt)) flags s = Inr u" "vmm_ok u" "cr3 u = cr3 s"
    "tty_lock u = tty_lock s" "unshared u (dir_index virt)" "present (entry (mem u) (cr3 u) (dir_index virt))"
    "free_pages u \<subseteq> free_pages s" "card (free_pages s) \<le> Suc (card (free_pages u))"
    "\<And>w. dir_index w \<noteq> 1023 \<Longrightarrow> translate (mem u) (cr3 u) w = translate (mem s) (cr3 s) w" "keeps s u"
proof (cases "present (entry (mem s) (cr3 s) (dir_index virt))")
  case True
  have "recursive (mem s) (cr3 s)"
    using ok by (simp add: vmm_ok_def)
  then have "vload32 (VMM_PAGE_DIRECTORY + 4 * of_nat (dir_index virt)) s =
      Inr (entry (mem s) (cr3 s) (dir_index virt))"
    using translate_directory [of "mem s" "cr3 s" "dir_index virt"]
    by (simp add: vload32_def entry_def dir_index_bound)
  then have "vmm_need_table (of_nat (dir_index virt)) flags s = Inr s"
    using True by (simp add: vmm_need_table_def and_present)
  with ok un True show thesis
    by (intro that [of s]) auto
next
  case False
  let ?i = "dir_index virt"
  have i: "?i < 1023" and ne: "free_pages s \<noteq> {}" and dir: "page_base (cr3 s)" "cr3 s \<in> tables (mem s) (cr3 s)"
    using ok room False dir_index_low [OF v] by (auto simp: has_room_def vmm_ok_def recursive_def tables_def)
  obtain f u where u: "vmm_need_table (of_nat ?i) flags s = Inr u" "vmm_ok u" "cr3 u = cr3 s" "page_base f"
    "f \<notin> tables (mem s) (cr3 s)" "page_no f \<in> free_pages s" "used_pages u = insert (page_no f) (used_pages s)"
    "pmm_max_blocks u = pmm_max_blocks s" "tty_lock u = tty_lock s"
    "present (entry (mem u) (cr3 s) ?i)" "frame (entry (mem u) (cr3 s) ?i) = f"
    "\<And>g k. g \<in> tables (mem s) (cr3 s) \<Longrightarrow> k < 1024 \<Longrightarrow> \<not> (g = cr3 s \<and> k = ?i) \<Longrightarrow>
       entry (mem u) g k = entry (mem s) g k"
    "\<And>k. k < 1024 \<Longrightarrow> entry (mem u) f k = 0" "keeps s u"
    using vmm_need_table_absent [OF ok i False ne, where flags = flags] by metis
  have other: "entry (mem u) (cr3 s) k = entry (mem s) (cr3 s) k" if "k < 1024" "k \<noteq> ?i" for k
    using u(12) dir that by simp
  have "unshared u ?i"
    unfolding unshared_def u(3,11)
  proof (intro impI allI)
    fix k assume k: "k < 1023" "k \<noteq> ?i \<and> present (entry (mem u) (cr3 s) k)"
    then have "frame (entry (mem u) (cr3 s) k) \<in> tables (mem s) (cr3 s)"
      using other [of k] table_in_tables [of k "mem s" "cr3 s"] by simp
    with u(5) show "frame (entry (mem u) (cr3 s) k) \<noteq> f"
      by blast
  qed
  moreover have "translate (mem u) (cr3 u) w = translate (mem s) (cr3 s) w" if w: "dir_index w \<noteq> 1023" for w
  proof (cases "dir_index w = ?i")
    case True
    then show ?thesis
      using False u(10,11,13) translate_slot(1) [OF dir(1), of "mem s" w] translate_slot(2) [OF dir(1), of "mem u" w]
      by (simp add: u(3) table_index_bound present_def)
  next
    case n: False
    have o: "entry (mem u) (cr3 s) (dir_index w) = entry (mem s) (cr3 s) (dir_index w)"
      using other n dir_index_bound by blast
    show ?thesis
    proof (cases "present (entry (mem s) (cr3 s) (dir_index w))")
      case True
      let ?g = "frame (entry (mem s) (cr3 s) (dir_index w))"
      have g: "?g \<in> tables (mem s) (cr3 s)" "?g \<noteq> cr3 s"
        using table_in_tables True dir_index_low [OF w] ok by (auto simp: vmm_ok_def)
      then have "entry (mem u) ?g (table_index w) = entry (mem s) ?g (table_index w)"
        by (intro u(12)) (simp_all add: table_index_bound)
      then show ?thesis
        using True o translate_slot(2) [OF dir(1)] by (simp add: u(3))
    qed (use o translate_slot(1) [OF dir(1)] u(3) in simp)
  qed
  moreover have f: "free_pages u = free_pages s - {page_no f}"
    unfolding free_pages_eq u(7,8) by blast
  moreover have "card (free_pages s) \<le> Suc (card (free_pages u))"
    unfolding f using u(6) by (simp add: card_Diff_singleton)
  ultimately show thesis
    using u by (intro that [of u]) auto
qed

lemma vmm_map_page_ok:
  fixes s :: "'a vmm_scheme"
  assumes "vmm_ok s" "dir_index virt \<notin> {0, 768, 1023}" "has_room s virt" "page_base phys"
  shows "\<exists>t. vmm_map_page phys virt flags s = Inr t \<and> vmm_ok t \<and> tty_lock t = tty_lock s \<and>
    cr3 t = cr3 s \<and> free_pages t \<subseteq> free_pages s \<and>
    card (free_pages s) \<le> Suc (card (free_pages t)) \<and>
    (\<forall>v. dir_index v \<noteq> 1023 \<longrightarrow> translate (mem t) (cr3 t) v =
       (if page_no v = page_no virt then Some (phys + offset v) else translate (mem s) (cr3 s) v)) \<and> keeps s t"
proof -
  have v: "dir_index virt \<noteq> 1023" and un: "unshared s (dir_index virt)"
    using assms(2) unshared_slot [OF assms(1)] dir_index_low by (auto simp: shared_slots_def)
  obtain u where u: "vmm_need_table (of_nat (dir_index virt)) flags s = Inr u" "vmm_ok u" "cr3 u = cr3 s"
    "tty_lock u = tty_lock s" "unshared u (dir_index virt)" "present (entry (mem u) (cr3 u) (dir_index virt))"
    "free_pages u \<subseteq> free_pages s" "card (free_pages s) \<le> Suc (card (free_pages u))"
    "\<And>w. dir_index w \<noteq> 1023 \<Longrightarrow> translate (mem u) (cr3 u) w = translate (mem s) (cr3 s) w" "keeps s u"
    using vmm_need_table_ok [OF assms(1) v assms(3) un, where flags = flags] by metis
  let ?e = "phys OR (flags AND 0xFFF) OR VMM_PRESENT"
  have "present ?e"
    by (metis or.assoc or.commute present_or(1))
  moreover have "frame ?e = phys"
    using assms(4) by (simp add: frame_entry small_or flags_small or.assoc)
  ultimately obtain t where t:
    "vstore32 (VMM_PAGE_TABLES + 4 * (of_nat (dir_index virt) * 1024 + of_nat (table_index virt))) ?e u = Inr t"
    "vmm_ok t" "cr3 t = cr3 u" "free_pages t = free_pages u" "tty_lock t = tty_lock u"
    "\<And>v. dir_index v \<noteq> 1023 \<Longrightarrow> translate (mem t) (cr3 t) v =
      (if page_no v = page_no virt then Some (phys + offset v) else translate (mem u) (cr3 u) v)" "keeps u t"
    using vmm_store_entry [OF u(2) refl dir_index_low [OF v] u(6,5)] by metis
  have "vmm_map_page phys virt flags s = Inr t"
    using u(1) t(1) unfolding vmm_map_page_def index_word Let_def by simp
  moreover have "keeps s t"
    using u(10) t(7) by (rule keeps_trans)
  ultimately show ?thesis
    using t(2-6) u(2-9) by auto
qed


text \<open>Mapping changes memory and the counter of the allocator, nothing else of the kernel.\<close>

definition mem_change :: "'a vmm_scheme \<Rightarrow> 'a vmm_scheme \<Rightarrow> bool" where
  "mem_change s t \<longleftrightarrow> (\<exists>m u. t = s\<lparr>mem := m, pmm_used_blocks := u\<rparr>)"

lemma mem_change_refl [simp]: "mem_change s s"
  unfolding mem_change_def by (intro exI [of _ "mem s"] exI [of _ "pmm_used_blocks s"]) simp

lemma mem_change_trans: "mem_change s t \<Longrightarrow> mem_change t u \<Longrightarrow> mem_change s u"
  unfolding mem_change_def by (cases s) auto

lemma mem_change_mem: "mem_change s (s\<lparr>mem := m\<rparr>)"
  unfolding mem_change_def by (intro exI [of _ m] exI [of _ "pmm_used_blocks s"]) simp

lemma pmm_alloc_page_changes: "mem_change s (snd (pmm_alloc_page s))"
proof -
  have "mem_change s ((mmap_set b s)\<lparr>pmm_used_blocks := u\<rparr>)" for b u
    unfolding mem_change_def mmap_set_def Let_def by auto
  then show ?thesis
    by (simp add: pmm_alloc_page_def split: option.splits)
qed

lemma vstore_changes: "vstore32 v x s = Inr t \<Longrightarrow> mem_change s t" "vstore8 v y s = Inr t \<Longrightarrow> mem_change s t"
  by (auto simp: vstore32_def vstore8_def split: option.splits intro: mem_change_mem)

lemma vmemset_changes: "vmemset v x n s = Inr t \<Longrightarrow> mem_change s t"
  by (induction n arbitrary: t) (auto simp: bind_outcome_Inr_iff dest: vstore_changes mem_change_trans)

lemma vmm_need_table_changes: "vmm_need_table i flags s = Inr t \<Longrightarrow> mem_change s t"
  using pmm_alloc_page_changes [of s]
  by (auto simp: vmm_need_table_def bind_outcome_Inr_iff Let_def case_prod_beta split: if_splits
      dest!: vstore_changes vmemset_changes intro: mem_change_trans)

lemma vmm_map_page_changes: "vmm_map_page phys virt flags s = Inr t \<Longrightarrow> mem_change s t"
  by (auto simp: vmm_map_page_def Let_def bind_outcome_Inr_iff
      dest!: vmm_need_table_changes vstore_changes intro: mem_change_trans)

text \<open>Allocating a page for some other use keeps the address space.\<close>

lemma vmm_alloc_keeps:
  fixes s :: "'a vmm_scheme"
  assumes ok: "vmm_ok s" and ne: "free_pages s \<noteq> {}"
  obtains f t where "pmm_alloc_page s = (f, t)" "page_base f" "page_no f \<in> free_pages s" "vmm_ok t"
    "free_pages t = free_pages s - {page_no f}" "cr3 t = cr3 s"
    "\<And>v. dir_index v \<noteq> 1023 \<Longrightarrow> translate (mem t) (cr3 t) v = translate (mem s) (cr3 s) v" "keeps s t"
    "foreign_page t (page_no f)"
proof -
  have r: "recursive (mem s) (cr3 s)" and dir: "page_base (cr3 s)"
    using ok by (simp_all add: vmm_ok_def recursive_def)
  obtain f t where t: "pmm_alloc_page s = (f, t)" "page_base f" "page_no f \<in> free_pages s"
    "cr3 t = cr3 s" "page_change s t" "pmm_ok t" "used_pages t = insert (page_no f) (used_pages s)"
    "\<And>i. i < 1024 \<Longrightarrow> entry (mem t) (cr3 s) i = entry (mem s) (cr3 s) i"
    "\<And>g i. g \<in> tables (mem s) (cr3 s) \<Longrightarrow> i < 1024 \<Longrightarrow> entry (mem t) g i = entry (mem s) g i"
    using vmm_alloc [OF ok ne] by metis
  have bm: "in_bitmap t = in_bitmap s"
    using page_change_simps [OF t(5)] by (simp add: in_bitmap_def fun_eq_iff)
  have tab: "tables (mem t) (cr3 s) = tables (mem s) (cr3 s)"
    unfolding tables_def using t(8) by (intro arg_cong [where f = "insert (cr3 s)"] Collect_cong ex_cong1) auto
  have "vmm_ok t"
    using ok t(6) r unfolding vmm_ok_def private_tables_def recursive_def t(4) tab bm t(7) by (simp add: t(8))
  moreover have "translate (mem t) (cr3 t) v = translate (mem s) (cr3 s) v" if v: "dir_index v \<noteq> 1023" for v
  proof (cases "present (entry (mem s) (cr3 s) (dir_index v))")
    case True
    then have "frame (entry (mem s) (cr3 s) (dir_index v)) \<in> tables (mem s) (cr3 s)"
      using table_in_tables dir_index_low [OF v] by blast
    then show ?thesis
      unfolding t(4) translate_entry [OF dir] Let_def t(8) [OF dir_index_bound]
      by (simp add: t(9) table_index_bound)
  next
    case False
    then show ?thesis
      using translate_slot(1) [OF dir] t(8) [OF dir_index_bound] by (simp add: t(4))
  qed
  moreover have "free_pages t = free_pages s - {page_no f}"
    unfolding free_pages_change [OF t(5)] t(7) free_pages_eq [of s] by blast
  moreover have "keeps s t"
  proof (rule keepsI)
    show "used_pages s \<subseteq> used_pages t"
      using t(7) by auto
    show "n \<notin> page_no ` tables (mem t) (cr3 t)" if "foreign_page s n" for n
      using that by (simp add: foreign_page_def t(4) tab)
    show "mem t a = mem s a" if "foreign_page s (page_no a)" for a
      using that page_change_simps(4) [OF t(5)] by (auto simp: foreign_page_def)
  qed (rule bm)
  moreover have "foreign_page t (page_no f)"
    using ok t(3,7) unfolding foreign_page_def t(4) tab bm by (auto simp: vmm_ok_def free_pages_eq)
  ultimately show thesis
    using t by (intro that)
qed

section \<open>Setting up paging\<close>

lemma store_entries:
  assumes f: "page_base f" and n: "n \<le> 1024"
  shows "page_base g \<Longrightarrow> k < 1024 \<Longrightarrow> entry (fold (\<lambda>i m. store32 m (entry_at f i) (e i)) [0..<n] m) g k =
      (if f = g \<and> k < n then e k else entry m g k)"
    and "(\<And>x. x < 4096 \<Longrightarrow> a \<noteq> f + of_nat x) \<Longrightarrow>
      fold (\<lambda>i m. store32 m (entry_at f i) (e i)) [0..<n] m a = m a"
  using n
proof (induction n)
  case (Suc n)
  { case 1
    with Suc show ?case
      using entry_store [OF f 1(1), of n k] by (auto simp: less_Suc_eq)
  next
    case 2
    with Suc show ?case
      by (simp add: store_entry_elsewhere)
  }
qed simp_all

lemma memset_page:
  assumes "page_base f"
  shows "memset m f 0 PAGE_SIZE a = (if in_range f 4096 a then 0 else m a)"
proof -
  have "range_ok f (unat PAGE_SIZE)"
    using page_base_bound [OF assms] by (simp add: range_ok_def unat_page_size)
  then show ?thesis
    by (simp add: memset_apply unat_page_size)
qed

lemma vmm_ok_console [simp]:
  "vmm_ok (s\<lparr>io_log := l, terminal_row := r, terminal_column := c, terminal_buffer := b\<rparr>) = vmm_ok s"
proof -
  let ?t = "s\<lparr>io_log := l, terminal_row := r, terminal_column := c, terminal_buffer := b\<rparr>"
  have "same_pages s ?t"
    unfolding same_pages_def by blast
  then show ?thesis
    by (simp add: vmm_ok_def same_pages_simps in_bitmap_def)
qed

lemma paging_memory_entries:
  assumes kd: "page_base kd" and pt: "page_base pt" and ne: "kd \<noteq> pt" and k: "k < 1024"
    and zero: "entry m kd k = 0"
  shows "entry (paging_memory m kd pt) kd k =
      (if k = 0 \<or> k = 768 then pt OR VMM_PRESENT OR VMM_WRITABLE OR VMM_USER
       else if k = 1023 then kd OR VMM_PRESENT OR VMM_WRITABLE else 0)"
    "entry (paging_memory m kd pt) pt k = of_nat k * PAGE_SIZE OR VMM_PRESENT OR VMM_WRITABLE OR VMM_USER"
proof -
  define m1 where "m1 = fold (\<lambda>i m. store32 m (entry_at pt i)
    (of_nat i * PAGE_SIZE OR VMM_PRESENT OR VMM_WRITABLE OR VMM_USER)) [0..<1024] (memset m pt 0 PAGE_SIZE)"
  have "entry (memset m pt 0 PAGE_SIZE) kd k = 0"
    using entry_cleared [OF pt kd k, of _ m] memset_page [OF pt] ne zero by simp
  then have m1: "entry m1 kd k = 0"
    "entry m1 pt k = of_nat k * PAGE_SIZE OR VMM_PRESENT OR VMM_WRITABLE OR VMM_USER"
    unfolding m1_def using store_entries(1) [OF pt _ kd k] store_entries(1) [OF pt _ pt k] ne k by auto
  have slot: "unat (drop_bit 22 KERNEL_VIRT_BASE) = 768"
    by (simp add: KERNEL_VIRT_BASE_def)
  show "entry (paging_memory m kd pt) kd k =
      (if k = 0 \<or> k = 768 then pt OR VMM_PRESENT OR VMM_WRITABLE OR VMM_USER
       else if k = 1023 then kd OR VMM_PRESENT OR VMM_WRITABLE else 0)"
    using entry_store [OF kd kd] k m1 unfolding paging_memory_def Let_def slot VMM_RECURSIVE_SLOT_def m1_def [symmetric]
    by simp
  show "entry (paging_memory m kd pt) pt k = of_nat k * PAGE_SIZE OR VMM_PRESENT OR VMM_WRITABLE OR VMM_USER"
    using entry_store [OF kd pt _ k] m1 ne unfolding paging_memory_def Let_def slot VMM_RECURSIVE_SLOT_def m1_def [symmetric]
    by simp
qed

lemma paging_memory_elsewhere:
  assumes kd: "page_base kd" and pt: "page_base pt"
    and "\<And>n. n < 4096 \<Longrightarrow> a \<noteq> kd + of_nat n" "\<And>n. n < 4096 \<Longrightarrow> a \<noteq> pt + of_nat n"
  shows "paging_memory m kd pt a = m a"
proof -
  have "\<not> in_range pt 4096 a"
    using page_member [OF pt] assms(4) by metis
  then have "memset m pt 0 PAGE_SIZE a = m a"
    by (simp add: memset_page [OF pt])
  moreover have slot: "unat (drop_bit 22 KERNEL_VIRT_BASE) = 768"
    by (simp add: KERNEL_VIRT_BASE_def)
  ultimately show ?thesis
    unfolding paging_memory_def Let_def slot VMM_RECURSIVE_SLOT_def
    using assms(3) store_entries(2) [OF pt, of 1024 a] assms(4) by (simp add: store_entry_elsewhere)
qed

lemma take_22: "unat (take_bit 22 v) = table_index v * 4096 + unat (offset v)" for v :: u32
proof -
  have "unat v mod 4194304 = 4096 * (unat v div 4096 mod 1024) + unat v mod 4096"
    using mod_mult2_eq [of "unat v" 4096 1024] by simp
  then show ?thesis
    by (simp add: table_index_div unat_offset unsigned_take_bit_eq take_bit_eq_mod unat_mod)
qed

lemma low_free_pages:
  fixes s :: "'a pmm_scheme"
  assumes "i \<in> free_pages s" "j \<in> free_pages s" "i \<noteq> j" "i < 1024" "j < 1024"
  shows "Min (free_pages s) < 1024" "free_pages s - {Min (free_pages s)} \<noteq> {}"
    "Min (free_pages s - {Min (free_pages s)}) < 1024"
proof -
  let ?m = "Min (free_pages s)"
  show "?m < 1024"
    using Min_le [OF finite_free_pages assms(1)] assms(4) by simp
  obtain k where k: "k \<in> free_pages s - {?m}" "k < 1024"
    using assms by (metis Diff_iff singletonD)
  then show "free_pages s - {?m} \<noteq> {}"
    by blast
  show "Min (free_pages s - {?m}) < 1024"
    using Min_le [OF _ k(1)] k(2) by simp
qed

lemma alloc_low:
  fixes s :: "'a pmm_scheme"
  assumes ok: "pmm_ok s" and ne: "free_pages s \<noteq> {}" and low: "Min (free_pages s) < 1024"
    and used: "\<And>a. in_bitmap s a \<Longrightarrow> page_no a \<in> used_pages s"
  obtains f t where "pmm_alloc_page s = (f, t)" "page_base f" "page_no f = Min (free_pages s)"
    "identity_mapped f" "pmm_ok t" "page_change s t" "used_pages t = insert (page_no f) (used_pages s)"
    "free_pages t = free_pages s - {page_no f}"
    "\<And>n. n < 4096 \<Longrightarrow> \<not> in_bitmap s (f + of_nat n)"
proof -
  let ?i = "Min (free_pages s)"
  obtain t where t: "pmm_alloc_page s = (of_nat ?i * PAGE_SIZE, t)" "pmm_ok t" "page_change s t"
    "used_pages t = insert ?i (used_pages s)"
    using pmm_alloc_page_cases(2) [OF ok ne] by blast
  have i: "?i < 1048576" "?i \<notin> used_pages s"
    using low Min_in [OF finite_free_pages ne] by (auto simp: free_pages_eq)
  note page = page_no_page [OF i(1)] page_base_page [OF i(1)] page_address [OF i(1)]
  have f: "free_pages t = free_pages s - {?i}"
    unfolding free_pages_change [OF t(3)] t(4) free_pages_eq [of s] by blast
  have "\<not> in_bitmap s (of_nat ?i * PAGE_SIZE + of_nat n)" if "n < 4096" for n
    using used i page_no_offset [OF page(2) that] unfolding page(1) by metis
  moreover have "identity_mapped (of_nat ?i * PAGE_SIZE)"
    unfolding identity_mapped_def page(3) using low by simp
  ultimately show thesis
    using t f page by (intro that [of "of_nat ?i * PAGE_SIZE" t]) simp_all
qed

lemma pages_registers [simp]:
  "pmm_ok (s\<lparr>kernel_directory := k\<rparr>) = pmm_ok s" "pmm_ok (s\<lparr>cr0 := w\<rparr>) = pmm_ok s" "pmm_ok (s\<lparr>cr3 := d\<rparr>) = pmm_ok s"
  "used_pages (s\<lparr>kernel_directory := k\<rparr>) = used_pages s" "used_pages (s\<lparr>cr0 := w\<rparr>) = used_pages s"
  "used_pages (s\<lparr>cr3 := d\<rparr>) = used_pages s"
  "free_pages (s\<lparr>kernel_directory := k\<rparr>) = free_pages s" "free_pages (s\<lparr>cr0 := w\<rparr>) = free_pages s"
  "free_pages (s\<lparr>cr3 := d\<rparr>) = free_pages s"
  "in_bitmap (s\<lparr>kernel_directory := k\<rparr>) = in_bitmap s" "in_bitmap (s\<lparr>cr0 := w\<rparr>) = in_bitmap s"
  "in_bitmap (s\<lparr>cr3 := d\<rparr>) = in_bitmap s" "in_bitmap (s\<lparr>mem := m\<rparr>) = in_bitmap s"
  by (simp_all add: pmm_ok_def bitmap_ok_def used_pages_def free_pages_def mmap_test_def in_bitmap_def fun_eq_iff)

lemma page_change_bitmap: "page_change s t \<Longrightarrow> in_bitmap t = in_bitmap s"
  using page_change_simps [of s t] by (simp add: in_bitmap_def fun_eq_iff)

definition fresh_directory :: "memory \<Rightarrow> u32 \<Rightarrow> u32 \<Rightarrow> bool" where
  "fresh_directory m kd pt \<longleftrightarrow> page_base kd \<and> page_base pt \<and> kd \<noteq> pt \<and> (\<forall>k < 1024. entry m kd k = 0)"

lemma paging_memory_tables:
  assumes "fresh_directory m kd pt"
  defines "m' \<equiv> paging_memory m kd pt"
  shows "recursive m' kd" "tables m' kd = {kd, pt}" "private_tables m' kd"
    "\<And>i. i < 1023 \<Longrightarrow> present (entry m' kd i) \<Longrightarrow> frame (entry m' kd i) = pt"
    "\<And>v. dir_index v \<noteq> 1023 \<Longrightarrow> translate m' kd v =
      (if dir_index v \<in> {0, 768} then Some (take_bit 22 v) else None)"
proof -
  have b: "page_base kd" "page_base pt" "kd \<noteq> pt"
    using assms(1) by (simp_all add: fresh_directory_def)
  have e: "entry m' kd k = (if k = 0 \<or> k = 768 then pt OR VMM_PRESENT OR VMM_WRITABLE OR VMM_USER
       else if k = 1023 then kd OR VMM_PRESENT OR VMM_WRITABLE else 0)"
    "entry m' pt k = of_nat k * PAGE_SIZE OR VMM_PRESENT OR VMM_WRITABLE OR VMM_USER" if "k < 1024" for k
    using paging_memory_entries [OF b that] assms(1) that by (simp_all add: m'_def fresh_directory_def)
  have fl: "frame (f OR VMM_PRESENT OR VMM_WRITABLE OR VMM_USER) = f"
    "frame (f OR VMM_PRESENT OR VMM_WRITABLE) = f" if "page_base f" for f
    using that by (simp_all add: frame_entry small_or flags_small)
  have pr: "present (f OR VMM_PRESENT OR VMM_WRITABLE OR VMM_USER)" "present (f OR VMM_PRESENT OR VMM_WRITABLE)"
    "\<not> present 0" for f
    by (simp_all add: present_def bit_simps vmm_flags)
  show "recursive m' kd"
    using b by (simp add: recursive_def e fl pr)
  have p: "present (entry m' kd i) \<longleftrightarrow> i = 0 \<or> i = 768" if "i < 1023" for i
    using that by (simp add: e pr)
  show f: "frame (entry m' kd i) = pt" if "i < 1023" "present (entry m' kd i)" for i
    using that p b by (auto simp: e fl)
  show "tables m' kd = {kd, pt}"
  proof -
    have "0 < (1023 :: nat)" "present (entry m' kd 0)"
      using p [of 0] by simp_all
    then have "pt \<in> {frame (entry m' kd i) | i. i < 1023 \<and> present (entry m' kd i)}"
      using f by (intro CollectI exI [of _ 0]) simp
    moreover have "{frame (entry m' kd i) | i. i < 1023 \<and> present (entry m' kd i)} \<subseteq> {pt}"
      using f by blast
    ultimately show ?thesis
      unfolding tables_def by blast
  qed
  show "private_tables m' kd"
    using p by (auto simp: private_tables_def shared_slots_def)
  show "translate m' kd v = (if dir_index v \<in> {0, 768} then Some (take_bit 22 v) else None)"
    if v: "dir_index v \<noteq> 1023" for v
  proof (cases "dir_index v \<in> {0, 768}")
    case False
    then show ?thesis
      using v p [OF dir_index_low [OF v]] translate_slot(1) [OF b(1)] by auto
  next
    case True
    have t: "table_index v < 1024"
      by (rule table_index_bound)
    have pt: "present (entry m' kd (dir_index v))"
      using True p [OF dir_index_low [OF v]] by auto
    then have "frame (entry m' kd (dir_index v)) = pt"
      using f dir_index_low [OF v] by blast
    then have "translate m' kd v = Some (of_nat (table_index v) * PAGE_SIZE + offset v)"
      using translate_slot(2) [OF b(1) pt] t page_base_page [of "table_index v"]
      by (simp add: e pr fl)
    moreover have "of_nat (table_index v) * PAGE_SIZE + offset v = take_bit 22 v"
    proof -
      have "unat (of_nat (table_index v) * PAGE_SIZE) = table_index v * 4096"
        using t by (intro page_address) simp
      moreover have "unat (offset v) < 4096"
        by (simp add: unat_offset)
      ultimately have "unat (of_nat (table_index v) * PAGE_SIZE + offset v) = table_index v * 4096 + unat (offset v)"
        using t by (subst unat_add_small) simp_all
      then show ?thesis
        by (simp only: word_unat_eq_iff take_22)
    qed
    ultimately show ?thesis
      using True by simp
  qed
qed

definition vmm_change :: "'a vmm_scheme \<Rightarrow> 'a vmm_scheme \<Rightarrow> bool" where
  "vmm_change s t \<longleftrightarrow>
     (\<exists>m u k c0 c3 l r col b. t = s\<lparr>mem := m, pmm_used_blocks := u, kernel_directory := k, cr0 := c0, cr3 := c3,
        io_log := l, terminal_row := r, terminal_column := col, terminal_buffer := b\<rparr>) \<and>
     (tty_inv s \<longrightarrow> tty_inv t)"

lemma vmm_init_ok:
  fixes s :: "'a vmm_scheme"
  assumes lock: "tty_lock s = 0" and ok: "pmm_ok s"
    and used: "\<forall>a. in_bitmap s a \<longrightarrow> page_no a \<in> used_pages s"
    and pages: "i \<in> free_pages s" "j \<in> free_pages s" "i \<noteq> j" "i < 1024" "j < 1024"
  shows "\<exists>t. vmm_init s = Inr t \<and> vmm_ok t \<and> tty_lock t = 0 \<and> card (free_pages s) = card (free_pages t) + 2 \<and>
    free_pages t \<subseteq> free_pages s - {Min (free_pages s)} \<and> vmm_change s t \<and>
    (\<forall>v. dir_index v \<noteq> 1023 \<longrightarrow> translate (mem t) (cr3 t) v =
       (if dir_index v \<in> {0, 768} then Some (take_bit 22 v) else None)) \<and>
    (\<forall>n. n \<in> used_pages s \<and> (\<forall>a. page_no a = n \<longrightarrow> \<not> in_bitmap s a) \<longrightarrow>
       foreign_page t n \<and> (\<forall>a. page_no a = n \<longrightarrow> mem t a = mem s a))"
proof -
  have ne: "free_pages s \<noteq> {}"
    using pages by blast
  note low = low_free_pages [OF pages]
  obtain kd a where a: "pmm_alloc_page s = (kd, a)" "page_base kd" "page_no kd = Min (free_pages s)"
    "identity_mapped kd" "pmm_ok a" "page_change s a" "used_pages a = insert (page_no kd) (used_pages s)"
    "free_pages a = free_pages s - {page_no kd}" "\<And>n. n < 4096 \<Longrightarrow> \<not> in_bitmap s (kd + of_nat n)"
    using alloc_low [OF ok ne low(1)] used by metis
  define b where "b = a\<lparr>kernel_directory := kd, mem := memset (mem a) kd 0 PAGE_SIZE\<rparr>"
  have kept: "memset (mem a) kd 0 PAGE_SIZE x = mem (a\<lparr>kernel_directory := kd\<rparr>) x" if "in_bitmap a x" for x
  proof -
    have "\<not> in_range kd 4096 x"
      using page_member [OF a(2)] a(9) that page_change_bitmap [OF a(6)] by metis
    then show ?thesis
      by (simp add: memset_page [OF a(2)])
  qed
  have "bitmap_ok (a\<lparr>kernel_directory := kd\<rparr>)"
    using a(5) by (simp add: pmm_ok_def bitmap_ok_def)
  note fb = pages_mem_frame [OF this, of "memset (mem a) kd 0 PAGE_SIZE"]
  have b: "pmm_ok b" "used_pages b = used_pages a" "free_pages b = free_pages a" "in_bitmap b = in_bitmap s"
    using fb kept a(5) page_change_bitmap [OF a(6)] by (simp_all add: b_def)
  have ub: "page_no x \<in> used_pages b" if "in_bitmap b x" for x
    using used that unfolding b a(7) by blast
  have "free_pages b \<noteq> {}" "Min (free_pages b) < 1024"
    using low a(3) by (simp_all add: b a(8))
  then obtain pt c where c: "pmm_alloc_page b = (pt, c)" "page_base pt" "page_no pt = Min (free_pages b)"
    "identity_mapped pt" "pmm_ok c" "page_change b c" "used_pages c = insert (page_no pt) (used_pages b)"
    "free_pages c = free_pages b - {page_no pt}" "\<And>n. n < 4096 \<Longrightarrow> \<not> in_bitmap b (pt + of_nat n)"
    using alloc_low [OF b(1) _ _ ub] by metis
  have pt: "page_no pt \<in> free_pages b"
    unfolding c(3) using \<open>free_pages b \<noteq> {}\<close> by (intro Min_in) simp_all
  then have ne: "kd \<noteq> pt"
    unfolding b a(8) by blast
  have "entry (mem b) kd k = 0" if "k < 1024" for k
    using entry_cleared [OF a(2) a(2) that, of "mem b" "mem a"] by (simp add: b_def memset_page [OF a(2)])
  moreover have "entry (mem c) kd k = entry (mem b) kd k" if "k < 1024" for k
    using that a(9) page_change_simps(4) [OF c(6)] by (intro entry_cong [OF a(2)]) (simp_all add: b(4))
  ultimately have fresh: "fresh_directory (mem c) kd pt"
    using a(2) c(2) ne by (simp add: fresh_directory_def)
  note tab = paging_memory_tables [OF fresh]
  let ?m = "paging_memory (mem c) kd pt"
  define d where "d = c\<lparr>mem := ?m, cr3 := kd, cr0 := cr0 c OR 0x80000000, kernel_directory := VMM_PAGE_DIRECTORY\<rparr>"
  have bc: "in_bitmap c = in_bitmap s"
    using page_change_bitmap [OF c(6)] by (simp add: b(4))
  have keep: "?m x = mem c x" if "in_bitmap c x" for x
    using that a(9) c(9) by (intro paging_memory_elsewhere [OF a(2) c(2)]) (auto simp: bc b(4))
  have "bitmap_ok c"
    using c(5) by (simp add: pmm_ok_def)
  note fd = pages_mem_frame [OF this keep]
  have uc: "used_pages c = {page_no pt, page_no kd} \<union> used_pages s"
    by (simp add: c(7) b(2) a(7))
  have kdpt: "\<forall>f \<in> {kd, pt}. page_no f \<in> used_pages c \<and> (\<forall>n < 4096. \<not> in_bitmap c (f + of_nat n))"
    using a(9) c(9) by (simp add: uc bc b(4))
  have ud: "used_pages d = used_pages c" "in_bitmap d = in_bitmap s"
    using fd(1) bc by (simp_all add: d_def)
  have "vmm_ok d"
    unfolding vmm_ok_def
  proof (intro conjI)
    show "pmm_ok d"
      using c(5) by (simp add: d_def fd)
    show "recursive (mem d) (cr3 d)" "private_tables (mem d) (cr3 d)"
      using tab by (simp_all add: d_def)
    show "\<forall>x. in_bitmap d x \<longrightarrow> page_no x \<in> used_pages d"
      using used unfolding ud uc by blast
    show "\<forall>f \<in> tables (mem d) (cr3 d). page_no f \<in> used_pages d \<and> (\<forall>n < 4096. \<not> in_bitmap d (f + of_nat n))"
      using kdpt by (simp add: d_def fd tab)
    show "\<forall>i < 1023. present (entry (mem d) (cr3 d) i) \<longrightarrow> frame (entry (mem d) (cr3 d) i) \<noteq> cr3 d"
      using tab(4) ne by (simp add: d_def)
  qed
  have ld: "tty_lock d = 0"
    using lock page_change_simps [OF a(6)] page_change_simps [OF c(6)] by (simp add: d_def b_def)
  define msg where "msg = ''VMM: Paging enabled. Higher-half kernel mapped at 0x%x'' @ [newline_char]"
  have rn: "render msg [PInt KERNEL_VIRT_BASE] \<noteq> None"
    by (simp add: msg_def)
  obtain l r col buf where p: "print msg [PInt KERNEL_VIRT_BASE] d =
       Inr (d\<lparr>io_log := l, terminal_row := r, terminal_column := col, terminal_buffer := buf\<rparr>)"
    "tty_inv d \<longrightarrow> tty_inv (d\<lparr>io_log := l, terminal_row := r, terminal_column := col, terminal_buffer := buf\<rparr>)"
    by (rule print_returns [OF ld rn])
  let ?t = "d\<lparr>io_log := l, terminal_row := r, terminal_column := col, terminal_buffer := buf\<rparr>"
  have "vmm_init s = Inr ?t"
    using p(1) a(1,4) c(1,4) unfolding vmm_init_def msg_def [symmetric] by (simp add: Let_def d_def b_def)
  moreover have "free_pages ?t = free_pages c"
  proof -
    have "same_pages d ?t"
      unfolding same_pages_def by blast
    then show ?thesis
      by (simp add: same_pages_simps) (simp add: d_def fd)
  qed
  moreover have "card (free_pages s) = card (free_pages c) + 2"
  proof -
    have "page_no kd \<in> free_pages s"
      unfolding a(3) by (rule Min_in [OF finite_free_pages \<open>free_pages s \<noteq> {}\<close>])
    then have "card (free_pages s) = Suc (card (free_pages b))"
      unfolding b a(8) using card_Suc_Diff1 [OF finite_free_pages] by metis
    moreover have "card (free_pages b) = Suc (card (free_pages c))"
      unfolding c(8) using card_Suc_Diff1 [OF finite_free_pages pt] by simp
    ultimately show ?thesis by simp
  qed
  moreover have "free_pages c \<subseteq> free_pages s - {Min (free_pages s)}"
    unfolding c(8) b a(3) [symmetric] a(8) by blast
  moreover have "vmm_change s ?t"
  proof -
    have "tty_inv d = tty_inv s"
      using a(6) c(6) by (auto simp: page_change_def tty_inv_def d_def b_def)
    moreover have "\<exists>m u k c0 c3 l r col b. ?t = s\<lparr>mem := m, pmm_used_blocks := u, kernel_directory := k, cr0 := c0,
        cr3 := c3, io_log := l, terminal_row := r, terminal_column := col, terminal_buffer := b\<rparr>"
      using a(6) c(6) unfolding page_change_def d_def b_def by (cases s) auto
    ultimately show ?thesis
      using p(2) by (simp add: vmm_change_def)
  qed
  moreover have foreign: "foreign_page ?t n \<and> (\<forall>x. page_no x = n \<longrightarrow> mem ?t x = mem s x)"
    if n: "n \<in> used_pages s" "\<forall>x. page_no x = n \<longrightarrow> \<not> in_bitmap s x" for n
  proof -
    have kn: "page_no kd \<notin> used_pages s" "page_no pt \<notin> used_pages s"
      using Min_in [OF finite_free_pages \<open>free_pages s \<noteq> {}\<close>] pt unfolding a(3) b a(8) by (auto simp: free_pages_eq)
    then have fresh_n: "n \<noteq> page_no kd" "n \<noteq> page_no pt"
      using n(1) by auto
    have "same_pages d ?t"
      unfolding same_pages_def by blast
    then have "used_pages ?t = used_pages d" "in_bitmap ?t = in_bitmap d"
      by (simp_all add: same_pages_simps in_bitmap_def fun_eq_iff)
    then have "foreign_page ?t n"
      using n fresh_n tab(2) by (simp add: foreign_page_def ud uc) (simp add: d_def tab(2))
    moreover have "mem ?t x = mem s x" if x: "page_no x = n" for x
    proof -
      have out: "x \<noteq> kd + of_nat k" "x \<noteq> pt + of_nat k" if "k < 4096" for k
        using foreign_elsewhere [OF a(2) _ that] foreign_elsewhere [OF c(2) _ that] fresh_n x by auto
      then have "?m x = mem c x"
        by (intro paging_memory_elsewhere [OF a(2) c(2)])
      moreover have "mem c x = mem b x"
        using n(2) x by (intro page_change_simps(4) [OF c(6)]) (simp add: b(4))
      moreover have "\<not> in_range kd 4096 x"
        using page_member [OF a(2)] out(1) by metis
      then have "mem b x = mem a x"
        by (simp add: b_def memset_page [OF a(2)])
      moreover have "mem a x = mem s x"
        using n(2) x by (intro page_change_simps(4) [OF a(6)]) simp
      ultimately show ?thesis
        by (simp add: d_def)
    qed
    ultimately show ?thesis
      by blast
  qed
  have "\<forall>n. n \<in> used_pages s \<and> (\<forall>a. page_no a = n \<longrightarrow> \<not> in_bitmap s a) \<longrightarrow>
      foreign_page ?t n \<and> (\<forall>a. page_no a = n \<longrightarrow> mem ?t a = mem s a)"
    using foreign by blast
  ultimately show ?thesis
    using \<open>vmm_ok d\<close> ld tab(5) by (intro exI [of _ ?t]) (simp add: d_def)
qed

text \<open>
  C9. vmm_init builds a directory under which the first 4 MB are mapped at 0 and at 3 GB and
  nothing else outside the recursive slot, and establishes the invariant of the address space
\<close>

theorem vmm_init_maps:
  fixes s :: "'a vmm_scheme"
  assumes lock: "tty_lock s = 0" and ok: "pmm_ok s"
    and used: "\<forall>a. in_bitmap s a \<longrightarrow> page_no a \<in> used_pages s"
    and pages: "i \<in> free_pages s" "j \<in> free_pages s" "i \<noteq> j" "i < 1024" "j < 1024"
  shows "\<exists>t. vmm_init s = Inr t \<and> vmm_ok t \<and> card (free_pages s) = card (free_pages t) + 2 \<and>
    (\<forall>v. dir_index v \<noteq> 1023 \<longrightarrow> translate (mem t) (cr3 t) v =
       (if dir_index v \<in> {0, 768} then Some (take_bit 22 v) else None))"
  using vmm_init_ok [OF assms] by metis

section \<open>Instances\<close>

definition boot_vmm :: vmm where
  "boot_vmm = pmm.extend boot_pmm (vmm.fields 0 0 0)"

lemma boot_vmm_lock [simp]: "tty_lock boot_vmm = 0"
  by (simp add: boot_vmm_def boot_pmm_def boot_idt_def boot_cpu_def boot_kbd_def boot_tty_def boot_hw_def hw.defs
      tty.defs kbd.defs cpu.defs idt.defs pmm.defs vmm.defs)

lemma pmm_8mb_bitmap_used: "\<forall>a. in_bitmap (pmm_8mb s) a \<longrightarrow> page_no a \<in> used_pages (pmm_8mb s)"
proof (intro allI impI)
  fix a
  assume "in_bitmap (pmm_8mb s) a"
  then have "2097152 \<le> unat a" "unat a < 2097408"
    by (simp_all add: pmm_8mb_bitmap in_range_def)
  then have "unat a div 4096 = 512"
    by (intro div_nat_eqI) simp_all
  then show "page_no a \<in> used_pages (pmm_8mb s)"
    by (simp add: page_no_def pmm_8mb_used)
qed

lemma vmm_init_example:
  fixes s :: "'a vmm_scheme"
  assumes "tty_lock s = 0"
  shows "\<exists>t. vmm_init (pmm_8mb s) = Inr t \<and> vmm_ok t \<and> tty_lock t = 0 \<and> card (free_pages t) = 2045 \<and>
    0 \<notin> free_pages t \<and> vmm_change (pmm_8mb s) t \<and>
    (\<forall>v. dir_index v \<noteq> 1023 \<longrightarrow> translate (mem t) (cr3 t) v =
       (if dir_index v \<in> {0, 768} then Some (take_bit 22 v) else None))"
proof -
  have "card (free_pages (pmm_8mb s)) = 2047" "0 \<in> free_pages (pmm_8mb s)"
    by (simp_all add: pmm_8mb_free card_Diff_subset)
  moreover from this(2) have "Min (free_pages (pmm_8mb s)) = 0"
    by (intro Min_eqI) simp_all
  ultimately show ?thesis
    using vmm_init_ok [of "pmm_8mb s" 0 1] assms pmm_8mb_ok [of s] pmm_8mb_bitmap_used [of s]
    by (auto simp: pmm_8mb_free)
qed

text \<open>
  An instance of C9.
\<close>

theorem vmm_init_maps_witness:
  "\<exists>t. vmm_init (pmm_8mb boot_vmm) = Inr t \<and> translate (mem t) (cr3 t) 0xC0100000 = Some 0x100000 \<and>
     translate (mem t) (cr3 t) 0xD0000000 = None"
proof -
  have "dir_index 0xC0100000 = 768" "dir_index 0xD0000000 = 832"
    by (simp_all add: dir_index_div)
  then show ?thesis
    using vmm_init_maps [of "pmm_8mb boot_vmm" 0 1] pmm_8mb_ok [of boot_vmm] pmm_8mb_bitmap_used [of boot_vmm]
    by (auto simp: pmm_8mb_free)
qed


end
