(* ===== verification/Heap.thy ===== *)
theory Heap
  imports Vmm
begin

text \<open>
  The kernel heap (\<^verbatim>\<open>mm/heap.cpp\<close>, \<^verbatim>\<open>mm/include/heap.h\<close>): a doubly linked list of blocks, each with
  a header of 16 bytes in front of its data. \<open>nodes\<close> is the header that lies at an address; a
  header is read and written only if the pages of its 16 bytes are mapped, an access to an
  unmapped one is \<open>Wild\<close>. \<open>kmalloc\<close> restarts its search after it has extended the heap, so its
  loop is a \<open>partial_function\<close> and its termination is a theorem.

  A well-formed heap is a sequence of blocks (\<open>layout\<close>) that tiles the mapped range without
  two neighbouring free blocks. \<open>kmalloc\<close> and \<open>kfree\<close> are proved to implement first-fit
  allocation and coalescing release on that sequence.
\<close>

section \<open>The state\<close>

record heap_node =
  node_size :: u32
  node_free :: bool
  node_next :: u32
  node_prev :: u32

record heap = vmm +
  nodes :: "u32 \<Rightarrow> heap_node"
  heap_head :: u32
  heap_current_end :: u32

definition KHEAP_START :: u32 where "KHEAP_START = 0xD0000000"
definition KHEAP_INITIAL_SIZE :: u32 where "KHEAP_INITIAL_SIZE = 2 * 1024 * 1024"
definition sizeof_node :: u32 where "sizeof_node = 16"

section \<open>Headers\<close>

definition header_mapped :: "'a vmm_scheme \<Rightarrow> u32 \<Rightarrow> bool" where
  "header_mapped s p \<longleftrightarrow> list_all (\<lambda>k. translate (mem s) (cr3 s) (p + of_nat k) \<noteq> None) [0..<16]"

definition get_node :: "u32 \<Rightarrow> 'a heap_scheme \<Rightarrow> heap_node outcome" where
  "get_node p s = (if header_mapped s p then Inr (nodes s p) else Inl Wild)"

definition set_node :: "u32 \<Rightarrow> (heap_node \<Rightarrow> heap_node) \<Rightarrow> 'a heap_scheme \<Rightarrow> 'a heap_scheme outcome" where
  "set_node p f s =
     (if header_mapped s p then Inr (s\<lparr>nodes := (nodes s)(p := f (nodes s p))\<rparr>) else Inl Wild)"

section \<open>The operations\<close>

primrec kheap_expand :: "nat \<Rightarrow> 'a heap_scheme \<Rightarrow> 'a heap_scheme outcome" where
  "kheap_expand 0 s = Inr s"
| "kheap_expand (Suc n) s =
     (let (phys, s) = pmm_alloc_page s
      in if phys = 0
         then bind_outcome (print (''KERNEL PANIC: Out of physical memory during heap expansion!'' @ [newline_char]) [] s)
                (\<lambda>_. Inl Hang)
         else bind_outcome (vmm_map_page phys (heap_current_end s) (VMM_PRESENT OR VMM_WRITABLE OR VMM_USER) s)
                (\<lambda>s. kheap_expand n (s\<lparr>heap_current_end := heap_current_end s + PAGE_SIZE\<rparr>)))"

definition kheap_init :: "'a heap_scheme \<Rightarrow> 'a heap_scheme outcome" where
  "kheap_init s =
     bind_outcome (kheap_expand (unat (KHEAP_INITIAL_SIZE div PAGE_SIZE)) s) (\<lambda>s.
     bind_outcome (set_node KHEAP_START
         (\<lambda>_. \<lparr>node_size = KHEAP_INITIAL_SIZE - sizeof_node, node_free = True, node_next = 0, node_prev = 0\<rparr>)
         (s\<lparr>heap_head := KHEAP_START\<rparr>)) (\<lambda>s.
     print (''Kernel Heap initialized: %d MB at 0x%x'' @ [newline_char])
       [PInt (KHEAP_INITIAL_SIZE div 1024 div 1024), PInt KHEAP_START] s))"

text \<open>
  \<open>kfree\<close>, in three steps: the block is marked, merged with the block after it if that is free,
  and with the block before it if that is free.
\<close>

definition kfree_next :: "u32 \<Rightarrow> 'a heap_scheme \<Rightarrow> 'a heap_scheme outcome" where
  "kfree_next node s =
     bind_outcome (get_node node s) (\<lambda>n.
       if node_next n = 0 then Inr s
       else bind_outcome (get_node (node_next n) s) (\<lambda>nn.
         if \<not> node_free nn then Inr s
         else
           bind_outcome (set_node node (\<lambda>n. n\<lparr>node_size := node_size n + (node_size nn + sizeof_node)\<rparr>) s) (\<lambda>s.
           bind_outcome (set_node node (\<lambda>n. n\<lparr>node_next := node_next nn\<rparr>) s) (\<lambda>s.
             if node_next nn = 0 then Inr s
             else set_node (node_next nn) (\<lambda>x. x\<lparr>node_prev := node\<rparr>) s))))"

definition kfree_prev :: "u32 \<Rightarrow> 'a heap_scheme \<Rightarrow> 'a heap_scheme outcome" where
  "kfree_prev node s =
     bind_outcome (get_node node s) (\<lambda>n.
       if node_prev n = 0 then Inr s
       else bind_outcome (get_node (node_prev n) s) (\<lambda>pn.
         if \<not> node_free pn then Inr s
         else
           bind_outcome (set_node (node_prev n) (\<lambda>x. x\<lparr>node_size := node_size x + (node_size n + sizeof_node)\<rparr>) s) (\<lambda>s.
           bind_outcome (set_node (node_prev n) (\<lambda>x. x\<lparr>node_next := node_next n\<rparr>) s) (\<lambda>s.
             if node_next n = 0 then Inr s
             else set_node (node_next n) (\<lambda>x. x\<lparr>node_prev := node_prev n\<rparr>) s))))"

definition kfree :: "u32 \<Rightarrow> 'a heap_scheme \<Rightarrow> 'a heap_scheme outcome" where
  "kfree ptr s =
     (if ptr = 0 then Inr s
      else let node = ptr - sizeof_node
           in bind_outcome (set_node node (node_free_update (\<lambda>_. True)) s) (\<lambda>s.
              bind_outcome (kfree_next node s) (kfree_prev node)))"

text \<open>
  The part of \<open>kmalloc\<close> that takes a block: it is split if the rest has room for a header and
  eight bytes.
\<close>

definition kmalloc_split :: "u32 \<Rightarrow> u32 \<Rightarrow> 'a heap_scheme \<Rightarrow> 'a heap_scheme outcome" where
  "kmalloc_split sz cur s =
     bind_outcome (get_node cur s) (\<lambda>n.
       if node_size n < sz + sizeof_node + 8 then Inr s
       else let new_node = cur + sizeof_node + sz
            in bind_outcome (set_node new_node
                   (\<lambda>_. \<lparr>node_size = node_size n - sz - sizeof_node, node_free = True,
                         node_next = node_next n, node_prev = cur\<rparr>) s) (\<lambda>s.
               bind_outcome (if node_next n = 0 then Inr s
                             else set_node (node_next n) (\<lambda>x. x\<lparr>node_prev := new_node\<rparr>) s) (\<lambda>s.
               bind_outcome (set_node cur (\<lambda>x. x\<lparr>node_next := new_node\<rparr>) s)
                 (set_node cur (\<lambda>x. x\<lparr>node_size := sz\<rparr>)))))"

definition kmalloc_take :: "u32 \<Rightarrow> u32 \<Rightarrow> 'a heap_scheme \<Rightarrow> (u32 \<times> 'a heap_scheme) outcome" where
  "kmalloc_take sz cur s =
     bind_outcome (kmalloc_split sz cur s) (\<lambda>s.
     bind_outcome (set_node cur (\<lambda>x. x\<lparr>node_free := False\<rparr>) s) (\<lambda>s.
       Inr (cur + sizeof_node, s)))"

text \<open>The part that extends the heap behind the last block.\<close>

definition kmalloc_extend :: "u32 \<Rightarrow> u32 \<Rightarrow> 'a heap_scheme \<Rightarrow> 'a heap_scheme outcome" where
  "kmalloc_extend sz cur s =
     (let pages_needed = (sz + sizeof_node + PAGE_SIZE - 1) div PAGE_SIZE;
          old_end = heap_current_end s
      in bind_outcome (kheap_expand (unat pages_needed) s) (\<lambda>s.
         bind_outcome (set_node old_end
             (\<lambda>_. \<lparr>node_size = pages_needed * PAGE_SIZE - sizeof_node, node_free = True,
                   node_next = 0, node_prev = cur\<rparr>) s) (\<lambda>s.
         bind_outcome (set_node cur (\<lambda>x. x\<lparr>node_next := old_end\<rparr>) s)
           (kfree (old_end + sizeof_node)))))"

text \<open>The search. \<open>None\<close> is a search that never ends.\<close>

partial_function (option) kmalloc_loop ::
    "u32 \<Rightarrow> u32 \<Rightarrow> 'a heap_scheme \<Rightarrow> (u32 \<times> 'a heap_scheme) outcome option" where
  "kmalloc_loop sz cur s =
     (if cur = 0 then Some (Inr (0, s))
      else (case get_node cur s of
        Inl e \<Rightarrow> Some (Inl e)
      | Inr n \<Rightarrow>
          if node_free n \<and> sz \<le> node_size n then Some (kmalloc_take sz cur s)
          else if node_next n = 0 then
            (case kmalloc_extend sz cur s of
               Inl e \<Rightarrow> Some (Inl e)
             | Inr s \<Rightarrow> kmalloc_loop sz (heap_head s) s)
          else kmalloc_loop sz (node_next n) s))"

definition kmalloc :: "u32 \<Rightarrow> 'a heap_scheme \<Rightarrow> (u32 \<times> 'a heap_scheme) outcome option" where
  "kmalloc sz s =
     (if sz = 0 then Some (Inr (0, s))
      else kmalloc_loop ((sz + 7) AND NOT 7) (heap_head s) s)"

section \<open>Blocks\<close>

text \<open>
  A block is its data size and whether it is free. \<open>layout N prev a bs nxt\<close>: the headers of the
  blocks \<open>bs\<close>, laid end to end from address \<open>a\<close>, are linked up, with \<open>prev\<close> before the first and
  \<open>nxt\<close> after the last.
\<close>

type_synonym block = "nat \<times> bool"

fun layout :: "(u32 \<Rightarrow> heap_node) \<Rightarrow> u32 \<Rightarrow> nat \<Rightarrow> block list \<Rightarrow> u32 \<Rightarrow> bool" where
  "layout N prev a [] nxt \<longleftrightarrow> True"
| "layout N prev a ((n, f) # bs) nxt \<longleftrightarrow>
     N (of_nat a) = \<lparr>node_size = of_nat n, node_free = f,
       node_next = (if bs = [] then nxt else of_nat (a + 16 + n)), node_prev = prev\<rparr> \<and>
     n mod 8 = 0 \<and> 8 \<le> n \<and> layout N (of_nat a) (a + 16 + n) bs nxt"

fun extent :: "block list \<Rightarrow> nat" where
  "extent [] = 0"
| "extent ((n, f) # bs) = 16 + n + extent bs"

fun last_node :: "u32 \<Rightarrow> nat \<Rightarrow> block list \<Rightarrow> u32" where
  "last_node prev a [] = prev"
| "last_node prev a ((n, f) # bs) = last_node (of_nat a) (a + 16 + n) bs"

fun separated :: "block list \<Rightarrow> bool" where
  "separated ((n, f) # (m, g) # bs) \<longleftrightarrow> \<not> (f \<and> g) \<and> separated ((m, g) # bs)"
| "separated _ \<longleftrightarrow> True"

text \<open>The data ranges that are handed out: address and size.\<close>

fun allocated :: "nat \<Rightarrow> block list \<Rightarrow> (nat \<times> nat) set" where
  "allocated a [] = {}"
| "allocated a ((n, f) # bs) = (if f then {} else {(a + 16, n)}) \<union> allocated (a + 16 + n) bs"

lemma extent_append [simp]: "extent (xs @ ys) = extent xs + extent ys"
  by (induction xs rule: extent.induct) auto

lemma extent_zero [simp]: "extent bs = 0 \<longleftrightarrow> bs = []"
  by (cases bs rule: extent.cases) auto

lemma layout_append:
  "layout N prev a (xs @ ys) nxt \<longleftrightarrow>
     layout N prev a xs (if ys = [] then nxt else of_nat (a + extent xs)) \<and>
     layout N (last_node prev a xs) (a + extent xs) ys nxt"
  by (induction N prev a xs nxt rule: layout.induct) (auto simp: add.assoc)

lemma last_node_append: "last_node prev a (xs @ ys) = last_node (last_node prev a xs) (a + extent xs) ys"
  by (induction prev a xs rule: last_node.induct) (auto simp: add.assoc)

lemma allocated_append: "allocated a (xs @ ys) = allocated a xs \<union> allocated (a + extent xs) ys"
  by (induction a xs rule: allocated.induct) (auto simp: add.assoc)

lemma unat_address: "a < 4294967296 \<Longrightarrow> unat (of_nat a :: u32) = a"
  by (simp add: unat_of_nat_small)

lemma address_inj: "a < 4294967296 \<Longrightarrow> b < 4294967296 \<Longrightarrow> (of_nat a :: u32) = of_nat b \<longleftrightarrow> a = b"
  by (metis unat_address)

lemma layout_cong:
  assumes "layout N prev a bs nxt" "a + extent bs \<le> 4294967296"
    and "\<And>x. a \<le> unat x \<Longrightarrow> unat x < a + extent bs \<Longrightarrow> N' x = N x"
  shows "layout N' prev a bs nxt"
  using assms
proof (induction N prev a bs nxt rule: layout.induct)
  case (2 N prev a n f bs nxt)
  have "N' (of_nat a) = N (of_nat a)"
    using 2(3,4) by (simp add: unat_address)
  moreover have "layout N' (of_nat a) (a + 16 + n) bs nxt"
    using 2(2-4) by (intro 2(1)) auto
  ultimately show ?case
    using 2(2) by simp
qed simp

lemma layout_relink:
  assumes "layout N p a bs nxt" "a + extent bs \<le> 4294967296"
    and "bs \<noteq> [] \<Longrightarrow> N' (of_nat a) = (N (of_nat a))\<lparr>node_prev := p'\<rparr>"
    and "\<And>x. a < unat x \<Longrightarrow> unat x < a + extent bs \<Longrightarrow> N' x = N x"
  shows "layout N' p' a bs nxt"
proof (cases bs)
  case (Cons b bs')
  obtain n f where b: "b = (n, f)"
    by (cases b)
  have l: "layout N (of_nat a) (a + 16 + n) bs' nxt" "a + 16 + n + extent bs' \<le> 4294967296"
    and h: "N (of_nat a) = \<lparr>node_size = of_nat n, node_free = f,
      node_next = (if bs' = [] then nxt else of_nat (a + 16 + n)), node_prev = p\<rparr>" "n mod 8 = 0" "8 \<le> n"
    using assms(1,2) by (simp_all add: Cons b)
  have "layout N' (of_nat a) (a + 16 + n) bs' nxt"
    using l by (rule layout_cong) (rule assms(4), simp_all add: Cons b)
  then show ?thesis
    using assms(3) h by (simp add: Cons b)
qed simp

lemma last_node_range:
  assumes "bs \<noteq> []" "a + extent bs \<le> 4294967296"
  shows "a \<le> unat (last_node prev a bs) \<and> unat (last_node prev a bs) + 16 \<le> a + extent bs"
  using assms
proof (induction prev a bs rule: last_node.induct)
  case (2 prev a n f bs)
  show ?case
  proof (cases "bs = []")
    case True
    with 2(3) show ?thesis by (simp add: unat_address)
  next
    case False
    have "a + 16 + n + extent bs \<le> 4294967296"
      using 2(3) by simp
    from 2(1) [OF False this] show ?thesis
      by simp
  qed
qed simp

lemma layout_next:
  assumes "layout N prev a bs nxt" "bs \<noteq> []" "a + extent bs \<le> 4294967296"
    and "N' (last_node prev a bs) = (N (last_node prev a bs))\<lparr>node_next := q\<rparr>"
    and "\<And>x. a \<le> unat x \<Longrightarrow> unat x < a + extent bs \<Longrightarrow> x \<noteq> last_node prev a bs \<Longrightarrow> N' x = N x"
  shows "layout N' prev a bs q"
  using assms
proof (induction N prev a bs nxt rule: layout.induct)
  case (2 N prev a n f bs nxt)
  show ?case
  proof (cases "bs = []")
    case True
    with 2 show ?thesis by simp
  next
    case False
    have "unat (of_nat a :: u32) = a"
      using 2(4) by (simp add: unat_address)
    moreover have "a + 16 + n \<le> unat (last_node (of_nat a) (a + 16 + n) bs)"
      using last_node_range [OF False, of "a + 16 + n" "of_nat a"] 2(4) by simp
    moreover from calculation have "(of_nat a :: u32) \<noteq> last_node (of_nat a) (a + 16 + n) bs"
      by (metis add_leD1 add_le_same_cancel1 le_numeral_extra(4) not_numeral_le_zero add.assoc)
    ultimately have "N' (of_nat a) = N (of_nat a)"
      using 2(6) [of "of_nat a"] by simp
    moreover have "layout N' (of_nat a) (a + 16 + n) bs q"
      using 2(2,4-6) False by (intro 2(1)) auto
    ultimately show ?thesis
      using 2(2) False by simp
  qed
qed simp

lemma layout_last:
  assumes "layout N prev a bs nxt" "bs \<noteq> []"
  shows "node_next (N (last_node prev a bs)) = nxt"
  using assms
proof (induction N prev a bs nxt rule: layout.induct)
  case (2 N prev a n f bs nxt)
  then show ?case by (cases "bs = []") auto
qed simp

text \<open>The blocks between two points of the list are replaced by others of the same total size.\<close>

lemma layout_replace:
  assumes l: "layout N prev a (pre @ mid @ post) nxt" and b: "a + extent (pre @ mid @ post) \<le> 4294967296"
    and ne: "mid \<noteq> []" "mid' \<noteq> []" and e: "extent mid' = extent mid"
    and pre: "\<And>x. a \<le> unat x \<Longrightarrow> unat x < a + extent pre \<Longrightarrow> N' x = N x"
    and mid: "layout N' (last_node prev a pre) (a + extent pre) mid'
      (if post = [] then nxt else of_nat (a + extent pre + extent mid))"
    and head: "post \<noteq> [] \<Longrightarrow> N' (of_nat (a + extent pre + extent mid)) =
      (N (of_nat (a + extent pre + extent mid)))\<lparr>node_prev := last_node (last_node prev a pre) (a + extent pre) mid'\<rparr>"
    and tail: "\<And>x. a + extent pre + extent mid < unat x \<Longrightarrow>
      unat x < a + extent (pre @ mid @ post) \<Longrightarrow> N' x = N x"
  shows "layout N' prev a (pre @ mid' @ post) nxt"
proof -
  have l1: "layout N prev a pre (of_nat (a + extent pre))"
    and l2: "layout N (last_node (last_node prev a pre) (a + extent pre) mid) (a + extent pre + extent mid) post nxt"
    using l ne by (simp_all add: layout_append)
  have b1: "a + extent pre \<le> 4294967296" and b2: "a + extent pre + extent mid + extent post \<le> 4294967296"
    using b by simp_all
  have "layout N' prev a pre (of_nat (a + extent pre))"
    using l1 b1 by (rule layout_cong) (rule pre)
  moreover have "layout N' (last_node (last_node prev a pre) (a + extent pre) mid') (a + extent pre + extent mid) post nxt"
    using l2 b2 by (rule layout_relink) (erule head, rule tail, simp_all add: add.assoc)
  ultimately show ?thesis
    using mid ne e by (cases "post = []") (simp_all add: layout_append del: of_nat_add)
qed

lemma layout_node:
  assumes "layout N prev a (pre @ (n, f) # post) nxt"
  shows "N (of_nat (a + extent pre)) = \<lparr>node_size = of_nat n, node_free = f,
      node_next = (if post = [] then nxt else of_nat (a + extent pre + 16 + n)), node_prev = last_node prev a pre\<rparr>"
    "n mod 8 = 0" "8 \<le> n"
  using assms by (simp_all add: layout_append del: of_nat_add)

lemma layout_replace_one:
  assumes l: "layout N prev a (pre @ mid @ post) nxt" and b: "a + extent (pre @ mid @ post) \<le> 4294967296"
    and k: "mid \<noteq> []" "16 + k = extent mid" "k mod 8 = 0" "8 \<le> k"
    and pre: "\<And>x. a \<le> unat x \<Longrightarrow> unat x < a + extent pre \<Longrightarrow> N' x = N x"
    and node: "N' (of_nat (a + extent pre)) = \<lparr>node_size = of_nat k, node_free = g,
      node_next = (if post = [] then nxt else of_nat (a + extent pre + extent mid)), node_prev = last_node prev a pre\<rparr>"
    and head: "post \<noteq> [] \<Longrightarrow> N' (of_nat (a + extent pre + extent mid)) =
      (N (of_nat (a + extent pre + extent mid)))\<lparr>node_prev := of_nat (a + extent pre)\<rparr>"
    and tail: "\<And>x. a + extent pre + extent mid < unat x \<Longrightarrow>
      unat x < a + extent (pre @ mid @ post) \<Longrightarrow> N' x = N x"
  shows "layout N' prev a (pre @ (k, g) # post) nxt"
proof -
  have "layout N' prev a (pre @ [(k, g)] @ post) nxt"
  proof (rule layout_replace [OF l b k(1) _ _ pre _ _ tail])
    show "layout N' (last_node prev a pre) (a + extent pre) [(k, g)]
        (if post = [] then nxt else of_nat (a + extent pre + extent mid))"
      using node k by simp
  qed (use k head in simp_all)
  then show ?thesis by simp
qed

text \<open>The changes the code makes to the list.\<close>

lemma layout_set_free:
  assumes l: "layout N prev a (pre @ (n, f) # post) nxt"
    and b: "a + extent (pre @ (n, f) # post) \<le> 4294967296"
  defines "p \<equiv> of_nat (a + extent pre)"
  shows "layout (N(p := (N p)\<lparr>node_free := g\<rparr>)) prev a (pre @ (n, g) # post) nxt"
proof -
  have p: "unat p = a + extent pre"
    unfolding p_def using b by (intro unat_address) simp
  have r: "post \<noteq> [] \<Longrightarrow> unat (of_nat (a + extent pre + (16 + n)) :: u32) = a + extent pre + (16 + n)"
    using b by (intro unat_address) (cases post, auto)
  note node = layout_node [OF l, folded p_def]
  have "post = [] \<or> layout N (of_nat (a + extent pre)) (a + extent pre + 16 + n) post nxt"
    using l by (simp add: layout_append)
  then have prev: "post \<noteq> [] \<Longrightarrow> node_prev (N (of_nat (a + extent pre + (16 + n)))) = p"
    by (cases post) (auto simp: p_def add.assoc)
  show ?thesis
  proof (rule layout_replace_one [where mid = "[(n, f)]"])
    show "layout N prev a (pre @ [(n, f)] @ post) nxt" "a + extent (pre @ [(n, f)] @ post) \<le> 4294967296"
      using l b by simp_all
    show "(N(p := (N p)\<lparr>node_free := g\<rparr>)) (of_nat (a + extent pre)) = \<lparr>node_size = of_nat n, node_free = g,
      node_next = (if post = [] then nxt else of_nat (a + extent pre + extent [(n, f)])), node_prev = last_node prev a pre\<rparr>"
      unfolding p_def [symmetric] by (simp add: node add.assoc del: of_nat_add)
    show "(N(p := (N p)\<lparr>node_free := g\<rparr>)) (of_nat (a + extent pre + extent [(n, f)])) =
        (N (of_nat (a + extent pre + extent [(n, f)])))\<lparr>node_prev := of_nat (a + extent pre)\<rparr>" if "post \<noteq> []"
      using prev that r p by (auto simp: p_def [symmetric] simp del: of_nat_add)
  qed (use node p in auto)
qed

text \<open>The address of a block that has successors is inside the range.\<close>

lemma unat_block:
  assumes "a + extent (pre @ post) \<le> 4294967296" "post \<noteq> []"
  shows "unat (of_nat (a + extent pre) :: u32) = a + extent pre"
proof -
  have "0 < extent post"
    using assms(2) by (metis extent_zero gr0I)
  with assms(1) show ?thesis
    by (intro unat_address) simp
qed

lemma block_not_null:
  assumes "a + extent (pre @ post) \<le> 4294967296" "post \<noteq> []" "0 < a"
  shows "of_nat (a + extent pre) \<noteq> (0 :: u32)"
  using unat_block [OF assms(1,2)] assms(3) by (metis add_is_0 not_gr_zero unat_0)

definition merged :: "(u32 \<Rightarrow> heap_node) \<Rightarrow> u32 \<Rightarrow> u32 \<Rightarrow> u32 \<Rightarrow> heap_node" where
  "merged N p q =
     (let r = node_next (N q);
          N2 = N(p := (N p)\<lparr>node_size := node_size (N p) + (node_size (N q) + sizeof_node), node_next := r\<rparr>)
      in if r = 0 then N2 else N2(r := (N2 r)\<lparr>node_prev := p\<rparr>))"

lemma layout_merge:
  assumes l: "layout N prev a (pre @ (n, f) # (m, g) # post) 0"
    and b: "a + extent (pre @ (n, f) # (m, g) # post) \<le> 4294967296" and a: "0 < a"
  defines "p \<equiv> of_nat (a + extent pre)" and "q \<equiv> of_nat (a + extent pre + 16 + n)"
  shows "layout (merged N p q) prev a (pre @ (n + m + 16, f) # post) 0"
proof -
  let ?r = "of_nat (a + extent pre + 16 + n + 16 + m) :: u32"
  have p: "unat p = a + extent pre"
    unfolding p_def using b by (intro unat_block [of _ _ "(n, f) # (m, g) # post"]) simp_all
  have r: "unat ?r = a + extent pre + 16 + n + 16 + m" "?r \<noteq> 0" if "post \<noteq> []"
    using unat_block [of a "pre @ [(n, f), (m, g)]" post] block_not_null [of a "pre @ [(n, f), (m, g)]" post] b a that
    by (simp_all add: add.assoc add.commute add.left_commute)
  note np = layout_node [OF l, folded p_def]
  have "layout N prev a ((pre @ [(n, f)]) @ (m, g) # post) 0"
    using l by simp
  note nq = layout_node [OF this]
  have q: "a + extent (pre @ [(n, f)]) = a + extent pre + 16 + n"
    by simp
  have next_q: "node_next (N q) = (if post = [] then 0 else ?r)" and size_q: "node_size (N q) = of_nat m"
    using nq(1) unfolding q q_def by (simp_all del: of_nat_add)
  have k: "16 + (n + m + 16) = extent [(n, f), (m, g)]" "(n + m + 16) mod 8 = 0" "8 \<le> n + m + 16"
    using np(2,3) nq(2) by (simp_all add: mod_add_eq [symmetric, of n] mod_add_eq [symmetric, of "n + m"])
  have e: "a + extent pre + extent [(n, f), (m, g)] = a + extent pre + 16 + n + 16 + m"
    by simp
  show ?thesis
  proof (rule layout_replace_one [where mid = "[(n, f), (m, g)]", OF _ _ _ k])
    show "layout N prev a (pre @ [(n, f), (m, g)] @ post) 0" "a + extent (pre @ [(n, f), (m, g)] @ post) \<le> 4294967296"
      using l b by simp_all
    show "merged N p q x = N x" if "a \<le> unat x" "unat x < a + extent pre" for x
      using that p r by (auto simp: merged_def Let_def next_q)
    show "merged N p q x = N x" if "a + extent pre + extent [(n, f), (m, g)] < unat x" for x
      using that p r unfolding e by (auto simp: merged_def Let_def next_q)
    show "merged N p q (of_nat (a + extent pre)) = \<lparr>node_size = of_nat (n + m + 16), node_free = f,
        node_next = (if post = [] then 0 else of_nat (a + extent pre + extent [(n, f), (m, g)])),
        node_prev = last_node prev a pre\<rparr>"
      unfolding e p_def [symmetric] using p r
      by (cases "post = []") (auto simp: merged_def Let_def next_q size_q np(1) sizeof_node_def add.assoc word_unat_eq_iff [of p])
    show "merged N p q (of_nat (a + extent pre + extent [(n, f), (m, g)])) =
        (N (of_nat (a + extent pre + extent [(n, f), (m, g)])))\<lparr>node_prev := of_nat (a + extent pre)\<rparr>" if "post \<noteq> []"
      unfolding e p_def [symmetric] using p r that
      by (auto simp: merged_def Let_def next_q)
  qed simp
qed

definition split_node :: "(u32 \<Rightarrow> heap_node) \<Rightarrow> u32 \<Rightarrow> u32 \<Rightarrow> u32 \<Rightarrow> heap_node" where
  "split_node N p sz =
     (let q = p + sizeof_node + sz; r = node_next (N p);
          N1 = N(q := \<lparr>node_size = node_size (N p) - sz - sizeof_node, node_free = True, node_next = r, node_prev = p\<rparr>);
          N2 = (if r = 0 then N1 else N1(r := (N1 r)\<lparr>node_prev := q\<rparr>))
      in N2(p := (N2 p)\<lparr>node_next := q, node_size := sz\<rparr>))"

lemma layout_split:
  assumes l: "layout N prev a (pre @ (n, True) # post) 0"
    and b: "a + extent (pre @ (n, True) # post) \<le> 4294967296" and a: "0 < a"
    and k: "unat sz = k" "k mod 8 = 0" "8 \<le> k" "k + 24 \<le> n"
  defines "p \<equiv> of_nat (a + extent pre)"
  shows "layout (split_node N p sz) prev a (pre @ (k, True) # (n - k - 16, True) # post) 0"
proof -
  let ?A = "a + extent pre"
  let ?q = "p + sizeof_node + sz" and ?r = "of_nat (?A + 16 + n) :: u32"
  have p: "unat p = ?A"
    unfolding p_def using b by (intro unat_block [of _ _ "(n, True) # post"]) simp_all
  have sz: "sz = of_nat k"
    using k(1) by (metis of_nat_unat_inverse)
  have q_eq: "?q = of_nat (?A + 16 + k)"
    by (simp add: p_def sizeof_node_def sz)
  have q: "unat ?q = ?A + 16 + k"
    unfolding q_eq using b k(4) by (intro unat_address) simp
  have r: "unat ?r = ?A + 16 + n" "?r \<noteq> 0" if "post \<noteq> []"
    using unat_block [of a "pre @ [(n, True)]" post] block_not_null [of a "pre @ [(n, True)]" post] b a that
    by (simp_all add: add.assoc add.commute add.left_commute)
  note np = layout_node [OF l, folded p_def]
  have next_p: "node_next (N p) = (if post = [] then 0 else ?r)"
    by (simp add: np(1) del: of_nat_add)
  have diff: "p \<noteq> ?q" and diff_r: "post \<noteq> [] \<Longrightarrow> p \<noteq> ?r \<and> ?q \<noteq> ?r"
    using p q r k(4) by (auto simp: word_unat_eq_iff)
  have e: "?A + extent [(n, True)] = ?A + 16 + n"
    by simp
  have size: "(of_nat n - sz - sizeof_node :: u32) = of_nat (n - k - 16)"
    using k(4) by (simp add: sz sizeof_node_def of_nat_diff)
  have m: "(n - k - 16) mod 8 = 0" "8 \<le> n - k - 16"
    using np(2) k by (simp_all add: mod_eq_0_iff_dvd)
  let ?N = "split_node N p sz"
  have Np: "?N p = \<lparr>node_size = sz, node_free = True, node_next = ?q, node_prev = last_node prev a pre\<rparr>"
    using diff diff_r by (auto simp: split_node_def Let_def next_p np(1))
  have Nq: "?N ?q = \<lparr>node_size = of_nat (n - k - 16), node_free = True,
      node_next = (if post = [] then 0 else ?r), node_prev = p\<rparr>"
    using diff diff_r size by (auto simp: split_node_def Let_def next_p np(1))
  have Nr: "?N ?r = (N ?r)\<lparr>node_prev := ?q\<rparr>" if "post \<noteq> []"
    using that diff_r r by (auto simp: split_node_def Let_def next_p)
  have other: "?N x = N x" if "x \<noteq> p" "x \<noteq> ?q" "post \<noteq> [] \<Longrightarrow> x \<noteq> ?r" for x
    using that by (auto simp: split_node_def Let_def next_p)
  have "layout ?N prev a (pre @ [(k, True), (n - k - 16, True)] @ post) 0"
  proof (rule layout_replace [where mid = "[(n, True)]"])
    show "layout N prev a (pre @ [(n, True)] @ post) 0" "a + extent (pre @ [(n, True)] @ post) \<le> 4294967296"
      using l b by simp_all
    show "?N x = N x" if "a \<le> unat x" "unat x < a + extent pre" for x
      using that p q r by (intro other) auto
    show "?N x = N x" if "a + extent pre + extent [(n, True)] < unat x" for x
      using that p q r k(4) unfolding e by (intro other) auto
    show "extent [(k, True), (n - k - 16, True)] = extent [(n, True)]"
      using k(4) by simp
    show "layout ?N (last_node prev a pre) ?A [(k, True), (n - k - 16, True)]
        (if post = [] then 0 else of_nat (?A + extent [(n, True)]))"
      using Np Nq m k sz unfolding e p_def [symmetric] q_eq
      by (simp add: p_def [symmetric] del: of_nat_add)
    show "?N (of_nat (?A + extent [(n, True)])) = (N (of_nat (?A + extent [(n, True)])))
        \<lparr>node_prev := last_node (last_node prev a pre) ?A [(k, True), (n - k - 16, True)]\<rparr>" if "post \<noteq> []"
      using Nr [OF that] unfolding e q_eq by (simp add: add.assoc del: of_nat_add)
  qed simp_all
  then show ?thesis
    by simp
qed

lemma layout_extend:
  assumes l: "layout N prev a bs 0" and ne: "bs \<noteq> []" and b: "a + extent bs + 16 + m \<le> 4294967296"
    and m: "m mod 8 = 0" "8 \<le> m"
  defines "e \<equiv> of_nat (a + extent bs)" and "z \<equiv> last_node prev a bs"
  defines "N1 \<equiv> N(e := \<lparr>node_size = of_nat m, node_free = True, node_next = 0, node_prev = z\<rparr>)"
  shows "layout (N1(z := (N1 z)\<lparr>node_next := e\<rparr>)) prev a (bs @ [(m, True)]) 0"
proof -
  have e: "unat e = a + extent bs"
    unfolding e_def using b m by (intro unat_address) simp
  have z: "a \<le> unat z" "unat z < a + extent bs"
    using last_node_range [OF ne, of a prev] b by (simp_all add: z_def)
  have "layout (N1(z := (N1 z)\<lparr>node_next := e\<rparr>)) prev a bs e"
    using l ne
  proof (rule layout_next)
    show "a + extent bs \<le> 4294967296"
      using b by simp
  qed (use e z in \<open>auto simp: N1_def z_def\<close>)
  moreover have "z \<noteq> e"
    using e z by auto
  ultimately show ?thesis
    using m by (simp add: layout_append e_def [symmetric] z_def [symmetric] N1_def del: of_nat_add)
qed

section \<open>Extending the mapped range\<close>

text \<open>The first address behind the heap region: the window of the recursive slot.\<close>

definition heap_limit :: nat where
  "heap_limit = unat VMM_PAGE_TABLES"

definition heap_start :: nat where
  "heap_start = unat KHEAP_START"

lemma heap_bounds: "heap_limit = 4290772992" "heap_start = 3489660928"
  by (simp_all add: heap_limit_def heap_start_def VMM_PAGE_TABLES_def KHEAP_START_def)

definition mapped_below :: "'a vmm_scheme \<Rightarrow> u32 \<Rightarrow> bool" where
  "mapped_below s e \<longleftrightarrow>
     (\<forall>v. heap_start \<le> unat v \<and> unat v < unat e \<longrightarrow> translate (mem s) (cr3 s) v \<noteq> None)"

definition heap_space :: "'a heap_scheme \<Rightarrow> bool" where
  "heap_space s \<longleftrightarrow> vmm_ok s \<and> 0 \<notin> free_pages s \<and> page_base (heap_current_end s) \<and>
     heap_start \<le> unat (heap_current_end s) \<and> unat (heap_current_end s) \<le> heap_limit \<and>
     mapped_below s (heap_current_end s)"

text \<open>\<open>heap_room s n\<close>: \<open>n\<close> more pages can be added, with a page table for each at worst.\<close>

definition heap_room :: "'a heap_scheme \<Rightarrow> nat \<Rightarrow> bool" where
  "heap_room s n \<longleftrightarrow> 2 * n \<le> card (free_pages s) \<and> unat (heap_current_end s) + 4096 * n \<le> heap_limit"

text \<open>
  The pages behind the addresses from \<open>n\<close> to the end of the heap are its own: they hold no table
  and no part of the bitmap, none is in \<open>U\<close>, and different pages have different frames.
\<close>

definition owns_frames :: "'a heap_scheme \<Rightarrow> nat set \<Rightarrow> nat \<Rightarrow> bool" where
  "owns_frames s U n \<longleftrightarrow>
     (\<forall>v. n \<le> unat v \<longrightarrow> unat v < unat (heap_current_end s) \<longrightarrow> dir_index v \<noteq> 1023 \<longrightarrow>
        (\<exists>p. translate (mem s) (cr3 s) v = Some p \<and> foreign_page s (page_no p) \<and> page_no p \<notin> U)) \<and>
     (\<forall>v w p q. n \<le> unat v \<longrightarrow> unat v < unat (heap_current_end s) \<longrightarrow> dir_index v \<noteq> 1023 \<longrightarrow>
        n \<le> unat w \<longrightarrow> unat w < unat (heap_current_end s) \<longrightarrow> dir_index w \<noteq> 1023 \<longrightarrow>
        translate (mem s) (cr3 s) v = Some p \<longrightarrow> translate (mem s) (cr3 s) w = Some q \<longrightarrow> page_no p = page_no q \<longrightarrow>
        page_no v = page_no w)"

text \<open>
  The translation of every address below the end of the heap stays as it is, and so do the pages
  that belong to somebody else; what the heap has gained are pages that were free.
\<close>

definition maps_kept :: "'a heap_scheme \<Rightarrow> 'a heap_scheme \<Rightarrow> bool" where
  "maps_kept s t \<longleftrightarrow> unat (heap_current_end s) \<le> unat (heap_current_end t) \<and> keeps s t \<and>
     (\<forall>v. dir_index v \<noteq> 1023 \<longrightarrow> unat v < unat (heap_current_end s) \<longrightarrow>
        translate (mem t) (cr3 t) v = translate (mem s) (cr3 s) v) \<and>
     used_pages s \<subseteq> used_pages t \<and> owns_frames t (used_pages s) (unat (heap_current_end s))"

lemma owns_frames_grow:
  assumes own: "owns_frames s U n" and kept: "maps_kept s t" and U: "U \<subseteq> used_pages s"
  shows "owns_frames t U n"
proof -
  let ?e = "unat (heap_current_end s)"
  have old: "\<exists>p. translate (mem s) (cr3 s) v = Some p \<and> translate (mem t) (cr3 t) v = Some p \<and> page_no p \<in> used_pages s \<and>
      foreign_page t (page_no p) \<and> page_no p \<notin> U" if "n \<le> unat v" "unat v < ?e" "dir_index v \<noteq> 1023" for v
    using own kept that unfolding owns_frames_def maps_kept_def keeps_def
    by (metis foreign_page_def)
  have new: "\<exists>p. translate (mem t) (cr3 t) v = Some p \<and> page_no p \<notin> used_pages s \<and>
      foreign_page t (page_no p) \<and> page_no p \<notin> U" if "?e \<le> unat v" "unat v < unat (heap_current_end t)" "dir_index v \<noteq> 1023" for v
    using kept U that unfolding owns_frames_def maps_kept_def by blast
  show ?thesis
    unfolding owns_frames_def
  proof (intro conjI allI impI)
    fix v :: u32
    assume v: "n \<le> unat v" "unat v < unat (heap_current_end t)" "dir_index v \<noteq> 1023"
    then show "\<exists>p. translate (mem t) (cr3 t) v = Some p \<and> foreign_page t (page_no p) \<and> page_no p \<notin> U"
      using old [of v] new [of v] by (cases "unat v < ?e") auto
  next
    fix v w p q :: u32
    assume v: "n \<le> unat v" "unat v < unat (heap_current_end t)" "dir_index v \<noteq> 1023"
      and w: "n \<le> unat w" "unat w < unat (heap_current_end t)" "dir_index w \<noteq> 1023"
      and tr: "translate (mem t) (cr3 t) v = Some p" "translate (mem t) (cr3 t) w = Some q" "page_no p = page_no q"
    consider "unat v < ?e" "unat w < ?e" | "\<not> unat v < ?e" "\<not> unat w < ?e" | "unat v < ?e" "\<not> unat w < ?e"
      | "\<not> unat v < ?e" "unat w < ?e"
      by blast
    then show "page_no v = page_no w"
    proof cases
      case 1
      then have "translate (mem s) (cr3 s) v = Some p" "translate (mem s) (cr3 s) w = Some q"
        using old [of v] old [of w] v w tr by auto
      then show ?thesis
        using own 1 v w tr(3) unfolding owns_frames_def by blast
    next
      case 2
      then show ?thesis
        using kept v w tr unfolding maps_kept_def owns_frames_def by (metis not_less)
    next
      case 3
      then show ?thesis
        using old [of v] new [of w] v w tr by auto
    next
      case 4
      then show ?thesis
        using new [of v] old [of w] v w tr by auto
    qed
  qed
qed

lemma maps_kept_refl [simp]: "maps_kept s s"
  by (simp add: maps_kept_def owns_frames_def)

lemma maps_kept_trans:
  assumes "maps_kept s t" "maps_kept t u"
  shows "maps_kept s u"
proof -
  have "owns_frames t (used_pages s) (unat (heap_current_end s))" "used_pages s \<subseteq> used_pages t"
    using assms(1) by (simp_all add: maps_kept_def)
  then have "owns_frames u (used_pages s) (unat (heap_current_end s))"
    using owns_frames_grow assms(2) by blast
  then show ?thesis
    using assms by (auto simp: maps_kept_def intro: keeps_trans)
qed

lemma maps_kept_cong:
  assumes "mem s' = mem s" "cr3 s' = cr3 s" "pmm_bitmap s' = pmm_bitmap s" "pmm_max_blocks s' = pmm_max_blocks s"
    "heap_current_end s' = heap_current_end s"
  shows "maps_kept s' t = maps_kept s t" "maps_kept t s' = maps_kept t s" "owns_frames s' U n = owns_frames s U n"
proof -
  have used: "used_pages s' = used_pages s" and "in_bitmap s' = in_bitmap s"
    using assms by (simp_all add: used_pages_def mmap_test_def in_bitmap_def fun_eq_iff)
  then have "foreign_page s' n = foreign_page s n" for n
    using assms by (simp add: foreign_page_def)
  then show own: "owns_frames s' U n = owns_frames s U n" for U n
    using assms by (simp add: owns_frames_def)
  show "maps_kept s' t = maps_kept s t" "maps_kept t s' = maps_kept t s"
    using assms by (simp_all add: maps_kept_def keeps_cong [OF assms(1-4)] used own)
qed

lemma maps_kept_nodes [simp]: "maps_kept s (t\<lparr>nodes := N\<rparr>) = maps_kept s t"
  by (rule maps_kept_cong) simp_all

definition expand_change :: "'a heap_scheme \<Rightarrow> 'a heap_scheme \<Rightarrow> bool" where
  "expand_change s t \<longleftrightarrow>
     (\<exists>m u e. t = s\<lparr>mem := m, pmm_used_blocks := u, heap_current_end := e\<rparr>) \<and> maps_kept s t"

lemma expand_change_refl [simp]: "expand_change s s"
  unfolding expand_change_def
  by (intro conjI exI [of _ "mem s"] exI [of _ "pmm_used_blocks s"] exI [of _ "heap_current_end s"]) simp_all

lemma expand_change_trans: "expand_change s t \<Longrightarrow> expand_change t u \<Longrightarrow> expand_change s u"
  unfolding expand_change_def by (cases s) (auto intro: maps_kept_trans)

lemma heap_dir_index:
  assumes "heap_start \<le> unat v" "unat v < heap_limit"
  shows "dir_index v \<notin> {0, 768, 1023}"
proof -
  have "832 \<le> unat v div 4194304"
    using assms(1) by (simp add: heap_bounds less_eq_div_iff_mult_less_eq)
  moreover have "unat v div 4194304 < 1023"
    using assms(2) by (simp add: heap_bounds div_less_iff_less_mult)
  ultimately show ?thesis
    by (auto simp: dir_index_div)
qed

lemma page_cover:
  assumes "page_base e" "unat e \<le> unat v" "unat v < unat e + 4096"
  shows "page_no v = page_no e"
proof -
  obtain q where q: "unat e = 4096 * q"
    using page_baseE [OF assms(1)] by blast
  then have "unat v div 4096 = q"
    using assms(2,3) by (intro div_nat_eqI) simp_all
  with q show ?thesis
    by (simp add: page_no_def)
qed

lemma page_before:
  assumes "page_base e" "unat v < unat e"
  shows "page_no v < page_no e"
proof -
  obtain q where q: "unat e = 4096 * q"
    using page_baseE [OF assms(1)] by blast
  then show ?thesis
    using assms(2) by (simp add: page_no_def div_less_iff_less_mult mult.commute)
qed

lemma page_next:
  assumes "page_base e" "unat e + 4096 \<le> heap_limit"
  shows "unat (e + PAGE_SIZE) = unat e + 4096" "page_base (e + PAGE_SIZE)"
proof -
  show u: "unat (e + PAGE_SIZE) = unat e + 4096"
    using assms(2) by (subst unat_add_small) (simp_all add: unat_page_size heap_bounds)
  then show "page_base (e + PAGE_SIZE)"
    using assms(1) by (simp add: page_base_def)
qed

lemma heap_frame [simp]:
  "vmm_ok (s\<lparr>heap_current_end := e\<rparr>) = vmm_ok s" "free_pages (s\<lparr>heap_current_end := e\<rparr>) = free_pages s"
  "mapped_below (s\<lparr>heap_current_end := e\<rparr>) x = mapped_below s x"
  "vmm_ok (s\<lparr>nodes := N\<rparr>) = vmm_ok s" "free_pages (s\<lparr>nodes := N\<rparr>) = free_pages s"
  "mapped_below (s\<lparr>nodes := N\<rparr>) x = mapped_below s x" "header_mapped (s\<lparr>nodes := N\<rparr>) p = header_mapped s p"
  "vmm_ok (s\<lparr>heap_head := p\<rparr>) = vmm_ok s" "free_pages (s\<lparr>heap_head := p\<rparr>) = free_pages s"
  "mapped_below (s\<lparr>heap_head := p\<rparr>) x = mapped_below s x"
  by (simp_all add: vmm_ok_def pmm_ok_def bitmap_ok_def used_pages_def free_pages_def mmap_test_def
      in_bitmap_def mapped_below_def header_mapped_def)

lemma kheap_expand_step:
  fixes s :: "'a heap_scheme"
  assumes sp: "heap_space s" and room: "heap_room s (Suc n)"
  obtains t where "kheap_expand (Suc n) s = kheap_expand n t" "heap_space t" "heap_room t n"
    "unat (heap_current_end t) = unat (heap_current_end s) + 4096" "free_pages t \<subseteq> free_pages s"
    "card (free_pages s) \<le> card (free_pages t) + 2" "expand_change s t"
proof -
  let ?e = "heap_current_end s"
  have ok: "vmm_ok s" and e: "page_base ?e" "heap_start \<le> unat ?e" "unat ?e + 4096 \<le> heap_limit"
    and c: "2 * Suc n \<le> card (free_pages s)"
    using sp room by (auto simp: heap_space_def heap_room_def)
  then have "free_pages s \<noteq> {}"
    by auto
  then obtain f a where a: "pmm_alloc_page s = (f, a)" "page_base f" "page_no f \<in> free_pages s" "vmm_ok a"
    "free_pages a = free_pages s - {page_no f}" "cr3 a = cr3 s"
    "\<And>v. dir_index v \<noteq> 1023 \<Longrightarrow> translate (mem a) (cr3 a) v = translate (mem s) (cr3 s) v" "keeps s a"
    "foreign_page a (page_no f)"
    using vmm_alloc_keeps [OF ok] by metis
  have sa: "mem_change s a"
    using pmm_alloc_page_changes [of s] a(1) by simp
  then have ea: "heap_current_end a = ?e"
    by (auto simp: mem_change_def)
  have "f \<noteq> 0"
    using a(3) sp by (auto simp: heap_space_def page_no_def)
  have ca: "card (free_pages s) = Suc (card (free_pages a))"
    unfolding a(5) using card_Suc_Diff1 [OF finite_free_pages a(3)] by simp
  have "has_room a ?e"
    using c ca by (auto simp: has_room_def)
  moreover have d: "dir_index ?e \<notin> {0, 768, 1023}"
    using e by (intro heap_dir_index) simp_all
  ultimately obtain b where b: "vmm_map_page f ?e (VMM_PRESENT OR VMM_WRITABLE OR VMM_USER) a = Inr b" "vmm_ok b"
    "free_pages b \<subseteq> free_pages a" "card (free_pages a) \<le> Suc (card (free_pages b))"
    "\<And>v. dir_index v \<noteq> 1023 \<Longrightarrow> translate (mem b) (cr3 b) v =
       (if page_no v = page_no ?e then Some (f + offset v) else translate (mem a) (cr3 a) v)" "keeps a b"
    using vmm_map_page_ok [OF a(4) d _ a(2), of "VMM_PRESENT OR VMM_WRITABLE OR VMM_USER"] by metis
  have sb: "mem_change s b"
    using mem_change_trans [OF sa vmm_map_page_changes [OF b(1)]] .
  then have eb: "heap_current_end b = ?e"
    by (auto simp: mem_change_def)
  let ?t = "b\<lparr>heap_current_end := ?e + PAGE_SIZE\<rparr>"
  note next_e = page_next [OF e(1,3)]
  have "mapped_below b (?e + PAGE_SIZE)"
    unfolding mapped_below_def
  proof (intro allI impI)
    fix v :: u32
    assume v: "heap_start \<le> unat v \<and> unat v < unat (?e + PAGE_SIZE)"
    then have dv: "dir_index v \<noteq> 1023"
      using heap_dir_index [of v] next_e e by simp
    show "translate (mem b) (cr3 b) v \<noteq> None"
    proof (cases "unat v < unat ?e")
      case True
      then have "translate (mem s) (cr3 s) v \<noteq> None"
        using sp v by (simp add: heap_space_def mapped_below_def)
      then show ?thesis
        by (simp add: b(5) a(7) dv)
    next
      case False
      then show ?thesis
        using page_cover [OF e(1), of v] v next_e by (simp add: b(5) dv)
    qed
  qed
  then have "heap_space ?t"
    using b(2,3) a(5) sp e next_e by (auto simp: heap_space_def)
  moreover have "heap_room ?t n"
    using room c ca b(4) next_e by (simp add: heap_room_def)
  moreover have "kheap_expand (Suc n) s = kheap_expand n ?t"
    using a(1) b(1) \<open>f \<noteq> 0\<close> by (simp add: ea eb)
  moreover have "maps_kept s ?t"
  proof -
    have same: "translate (mem ?t) (cr3 ?t) v = translate (mem s) (cr3 s) v" if "dir_index v \<noteq> 1023" "unat v < unat ?e" for v
      using page_before [OF e(1) that(2)] that(1) by (simp add: b(5) a(7))
    have kept: "keeps s ?t"
      using keeps_trans [OF a(8) b(6)] keeps_cong(2) [of ?t b s] by simp
    have "pmm_max_blocks b = pmm_max_blocks s"
      using sb by (auto simp: mem_change_def)
    moreover have used_end: "used_pages ?t = used_pages b"
      by (simp add: used_pages_def mmap_test_def)
    ultimately have used: "used_pages s \<subseteq> used_pages ?t"
      using b(3) a(5) used_pages_bounded [of s] used_end by (auto simp: free_pages_eq)
    have f: "foreign_page ?t (page_no f)" "page_no f \<notin> used_pages s"
      using b(6) a(3,9) keeps_cong(2) [of ?t b a] by (simp_all add: keeps_def free_pages_eq)
    have new: "translate (mem ?t) (cr3 ?t) v = Some (f + offset v) \<and> page_no (f + offset v) = page_no f \<and> page_no v = page_no ?e"
      if "unat ?e \<le> unat v" "unat v < unat (heap_current_end ?t)" "dir_index v \<noteq> 1023" for v
    proof -
      have "page_no v = page_no ?e"
        using page_cover [OF e(1) that(1)] that(2) next_e by simp
      moreover have "page_no (f + of_nat (unat (offset v))) = page_no f"
        using a(2) by (rule page_no_offset) (simp add: unat_offset)
      ultimately show ?thesis
        using that(3) by (simp add: b(5))
    qed
    have "owns_frames ?t (used_pages s) (unat ?e)"
      unfolding owns_frames_def using new f by (metis (no_types, lifting))
    then show ?thesis
      using next_e same kept used by (simp add: maps_kept_def)
  qed
  then have "expand_change s ?t"
    using sb by (auto simp: mem_change_def expand_change_def)
  ultimately show thesis
    using b(3,4) a(5) ca next_e by (intro that [of ?t]) auto
qed


lemma kheap_expand_ok:
  fixes s :: "'a heap_scheme"
  assumes "heap_space s" "heap_room s n"
  shows "\<exists>t. kheap_expand n s = Inr t \<and> heap_space t \<and>
    unat (heap_current_end t) = unat (heap_current_end s) + 4096 * n \<and>
    free_pages t \<subseteq> free_pages s \<and> card (free_pages s) \<le> card (free_pages t) + 2 * n \<and> expand_change s t"
  using assms
proof (induction n arbitrary: s)
  case 0
  then show ?case by simp
next
  case (Suc n)
  obtain u where u: "kheap_expand (Suc n) s = kheap_expand n u" "heap_space u" "heap_room u n"
    "unat (heap_current_end u) = unat (heap_current_end s) + 4096" "free_pages u \<subseteq> free_pages s"
    "card (free_pages s) \<le> card (free_pages u) + 2" "expand_change s u"
    using Suc.prems by (rule kheap_expand_step)
  obtain t where t: "kheap_expand n u = Inr t" "heap_space t"
    "unat (heap_current_end t) = unat (heap_current_end u) + 4096 * n" "free_pages t \<subseteq> free_pages u"
    "card (free_pages u) \<le> card (free_pages t) + 2 * n" "expand_change u t"
    using Suc.IH [OF u(2,3)] by blast
  have "expand_change s t"
    using u(7) t(6) by (rule expand_change_trans)
  with u t show ?case by auto
qed

section \<open>Well-formed heaps\<close>

definition heap_wf :: "'a heap_scheme \<Rightarrow> block list \<Rightarrow> bool" where
  "heap_wf s bs \<longleftrightarrow> heap_head s = KHEAP_START \<and> bs \<noteq> [] \<and> layout (nodes s) 0 heap_start bs 0 \<and>
     heap_start + extent bs = unat (heap_current_end s) \<and> heap_space s"

abbreviation block_at :: "block list \<Rightarrow> u32" where
  "block_at pre \<equiv> of_nat (heap_start + extent pre)"

lemma heap_wf_bound:
  assumes "heap_wf s bs"
  shows "heap_start + extent bs \<le> 4294967296" "heap_start + extent bs \<le> heap_limit" "0 < heap_start"
  using assms by (auto simp: heap_wf_def heap_space_def heap_bounds)

lemma mapped_header:
  assumes "mapped_below s e" "heap_start \<le> unat p" "unat p + 16 \<le> unat e"
  shows "header_mapped s p"
  unfolding header_mapped_def list_all_iff
proof
  fix k
  assume "k \<in> set [0..<16::nat]"
  then have k: "k < 16" by simp
  have "unat p + k < 4294967296"
  proof -
    have "unat e < 4294967296"
      by simp
    with assms(3) k show ?thesis
      by linarith
  qed
  with k have "unat (p + of_nat k) = unat p + k"
    by (subst unat_add_small) (simp_all add: unat_of_nat_small)
  with assms(1-3) k show "translate (mem s) (cr3 s) (p + of_nat k) \<noteq> None"
    by (simp add: mapped_below_def)
qed

lemma heap_header:
  assumes "heap_wf s (pre @ b # post)"
  shows "header_mapped s (block_at pre)" "unat (block_at pre) = heap_start + extent pre" "block_at pre \<noteq> 0"
proof -
  note bound = heap_wf_bound [OF assms]
  have e: "16 \<le> extent (b # post)"
    by (cases b) simp
  show u: "unat (block_at pre) = heap_start + extent pre"
    using bound(1) by (rule unat_block) simp
  show "block_at pre \<noteq> 0"
    using bound(1) by (rule block_not_null) (simp_all add: bound(3))
  have end_: "heap_start + extent (pre @ b # post) = unat (heap_current_end s)"
    using assms by (simp only: heap_wf_def)
  show "header_mapped s (block_at pre)"
  proof (rule mapped_header [where e = "heap_current_end s"])
    show "mapped_below s (heap_current_end s)"
      using assms by (simp add: heap_wf_def heap_space_def)
    show "unat (block_at pre) + 16 \<le> unat (heap_current_end s)"
      unfolding u end_ [symmetric] using e by simp
  qed (simp add: u del: of_nat_add)
qed

lemma get_node_ok: "header_mapped s p \<Longrightarrow> get_node p (s\<lparr>nodes := N\<rparr>) = Inr (N p)"
  by (simp add: get_node_def)

lemma set_node_ok: "header_mapped s p \<Longrightarrow> set_node p f (s\<lparr>nodes := N\<rparr>) = Inr (s\<lparr>nodes := N(p := f (N p))\<rparr>)"
  by (simp add: set_node_def)

lemma heap_wf_nodes:
  assumes "heap_wf s bs"
  shows "heap_wf (s\<lparr>nodes := N\<rparr>) bs' \<longleftrightarrow>
    bs' \<noteq> [] \<and> layout N 0 heap_start bs' 0 \<and> extent bs' = extent bs"
  using assms by (auto simp: heap_wf_def heap_space_def)

text \<open>The header of a block, and of the one after it and before it.\<close>

lemma heap_node:
  assumes "heap_wf s (pre @ (n, f) # post)"
  shows "nodes s (block_at pre) = \<lparr>node_size = of_nat n, node_free = f,
      node_next = (if post = [] then 0 else block_at (pre @ [(n, f)])), node_prev = last_node 0 heap_start pre\<rparr>"
    "n mod 8 = 0" "8 \<le> n"
  using layout_node [of "nodes s" 0 heap_start pre n f post 0] assms
  by (simp_all add: heap_wf_def add.assoc del: of_nat_add)

lemma last_node_snoc [simp]: "last_node prev a (pre @ [(m, g)]) = of_nat (a + extent pre)"
  by (simp add: last_node_append del: of_nat_add)


section \<open>Release\<close>

text \<open>What \<open>kfree\<close> does to the block sequence.\<close>

fun merge_next :: "nat \<Rightarrow> block list \<Rightarrow> block list" where
  "merge_next n ((m, True) # bs) = (n + m + 16, True) # bs"
| "merge_next n bs = (n, True) # bs"

definition merge_prev :: "block list \<Rightarrow> nat \<Rightarrow> block list \<Rightarrow> block list" where
  "merge_prev pre n bs =
     (if pre \<noteq> [] \<and> snd (last pre) then butlast pre @ (fst (last pre) + n + 16, True) # bs
      else pre @ (n, True) # bs)"

definition freed :: "block list \<Rightarrow> nat \<Rightarrow> block list \<Rightarrow> block list" where
  "freed pre n post = merge_prev pre (fst (hd (merge_next n post))) (tl (merge_next n post))"

lemma merge_next_cases:
  obtains m bs where "post = (m, True) # bs" "merge_next n post = (n + m + 16, True) # bs"
  | "merge_next n post = (n, True) # post" "post = [] \<or> \<not> snd (hd post)"
  by (cases "(n, post)" rule: merge_next.cases) auto

lemma merge_prev_cases:
  obtains pre' m where "pre = pre' @ [(m, True)]" "merge_prev pre n bs = pre' @ (m + n + 16, True) # bs"
  | "merge_prev pre n bs = pre @ (n, True) # bs" "pre = [] \<or> \<not> snd (last pre)"
proof (cases "pre \<noteq> [] \<and> snd (last pre)")
  case True
  then obtain pre' m where "pre = pre' @ [(m, True)]"
    by (cases pre rule: rev_cases) auto
  then show thesis
    by (intro that(1)) (auto simp: merge_prev_def)
next
  case False
  then show thesis
    by (intro that(2)) (auto simp: merge_prev_def)
qed

lemma set_free_run:
  assumes wf: "heap_wf s (pre @ (n, f) # post)"
  shows "\<exists>N. set_node (block_at pre) (node_free_update (\<lambda>_. g)) s = Inr (s\<lparr>nodes := N\<rparr>) \<and>
    heap_wf (s\<lparr>nodes := N\<rparr>) (pre @ (n, g) # post)"
proof -
  let ?p = "block_at pre"
  let ?N = "(nodes s)(?p := (nodes s ?p)\<lparr>node_free := g\<rparr>)"
  have "layout ?N 0 heap_start (pre @ (n, g) # post) 0"
    using wf heap_wf_bound(1) [OF wf] by (intro layout_set_free [where f = f]) (simp_all add: heap_wf_def)
  then have "heap_wf (s\<lparr>nodes := ?N\<rparr>) (pre @ (n, g) # post)"
    using heap_wf_nodes [OF wf] by simp
  moreover have "set_node ?p (node_free_update (\<lambda>_. g)) s = Inr (s\<lparr>nodes := ?N\<rparr>)"
    using heap_header(1) [OF wf] by (simp add: set_node_def del: of_nat_add)
  ultimately show ?thesis by blast
qed

lemma merged_wf:
  assumes wf: "heap_wf s (pre @ (n, f) # (m, g) # post)"
  shows "heap_wf (s\<lparr>nodes := merged (nodes s) (block_at pre) (block_at (pre @ [(n, f)]))\<rparr>)
    (pre @ (n + m + 16, f) # post)"
proof -
  have "layout (merged (nodes s) (block_at pre) (of_nat (heap_start + extent pre + 16 + n))) 0 heap_start
      (pre @ (n + m + 16, f) # post) 0"
    using wf heap_wf_bound [OF wf] by (intro layout_merge [where g = g]) (simp_all add: heap_wf_def)
  then show ?thesis
    using heap_wf_nodes [OF wf] by (simp add: add.assoc del: of_nat_add)
qed

lemma kfree_next_run:
  assumes wf: "heap_wf s (pre @ (n, True) # post)"
  shows "\<exists>N. kfree_next (block_at pre) s = Inr (s\<lparr>nodes := N\<rparr>) \<and>
    heap_wf (s\<lparr>nodes := N\<rparr>) (pre @ merge_next n post)"
proof -
  let ?p = "block_at pre" and ?q = "block_at (pre @ [(n, True)])"
  note hp = heap_header [OF wf] and np = heap_node [OF wf]
  have get_p: "get_node ?p s = Inr (nodes s ?p)"
    using hp(1) by (simp add: get_node_def)
  have same: "s\<lparr>nodes := nodes s\<rparr> = s"
    by simp
  show ?thesis
  proof (cases post)
    case Nil
    then have "kfree_next ?p s = Inr (s\<lparr>nodes := nodes s\<rparr>)"
      using np(1) get_p by (simp add: kfree_next_def del: of_nat_add)
    then show ?thesis
      using wf Nil by (intro exI [of _ "nodes s"]) simp
  next
    case (Cons b bs)
    obtain m g where b: "b = (m, g)"
      by (cases b)
    have wq: "heap_wf s ((pre @ [(n, True)]) @ (m, g) # bs)"
      using wf by (simp add: Cons b)
    note hq = heap_header [OF wq] and nq = heap_node [OF wq]
    have next_p: "node_next (nodes s ?p) = ?q"
      using np(1) Cons by simp
    have get_q: "get_node ?q s = Inr (nodes s ?q)"
      using hq(1) by (simp add: get_node_def)
    show ?thesis
    proof (cases g)
      case False
      then have "kfree_next ?p s = Inr (s\<lparr>nodes := nodes s\<rparr>)"
        using get_p get_q next_p nq(1) hq(3) by (simp add: kfree_next_def del: of_nat_add extent_append)
      moreover have "merge_next n post = (n, True) # post"
        using False by (simp add: Cons b)
      ultimately show ?thesis
        using wf by (intro exI [of _ "nodes s"]) simp
    next
      case True
      let ?M = "merged (nodes s) ?p ?q"
      have pq: "?p \<noteq> ?q"
        using hp(2) hq(2) by (metis add_cancel_right_right add_left_imp_eq extent.simps(2) extent_append extent_zero
          list.distinct(1))
      have "bs \<noteq> [] \<Longrightarrow> header_mapped s (node_next (nodes s ?q))"
        using heap_header(1) [of s "pre @ [(n, True), (m, g)]" "hd bs" "tl bs"] wf nq(1)
        by (simp add: Cons b del: of_nat_add)
      moreover have "bs = [] \<Longrightarrow> node_next (nodes s ?q) = 0"
        using nq(1) by simp
      moreover have "node_free (nodes s ?q)"
        using nq(1) True by simp
      ultimately have "kfree_next ?p s = Inr (s\<lparr>nodes := ?M\<rparr>)"
        using get_p get_q next_p hp(1) hq(3) pq
        by (cases "bs = []") (auto simp: kfree_next_def merged_def set_node_def Let_def simp del: of_nat_add extent_append)
      then show ?thesis
        using merged_wf [of s pre n True m g bs] wf True by (intro exI [of _ ?M]) (simp add: Cons b)
    qed
  qed
qed

lemma kfree_prev_run:
  assumes wf: "heap_wf s (pre @ (n, True) # post)"
  shows "\<exists>N. kfree_prev (block_at pre) s = Inr (s\<lparr>nodes := N\<rparr>) \<and>
    heap_wf (s\<lparr>nodes := N\<rparr>) (merge_prev pre n post)"
proof -
  let ?q = "block_at pre"
  note hq = heap_header [OF wf] and nq = heap_node [OF wf]
  have get_q: "get_node ?q s = Inr (nodes s ?q)"
    using hq(1) by (simp add: get_node_def)
  show ?thesis
  proof (cases pre rule: rev_cases)
    case Nil
    then have "kfree_prev ?q s = Inr (s\<lparr>nodes := nodes s\<rparr>)"
      using nq(1) get_q by (simp add: kfree_prev_def)
    then show ?thesis
      using wf Nil by (intro exI [of _ "nodes s"]) (simp add: merge_prev_def)
  next
    case (snoc pre' b)
    obtain m g where b: "b = (m, g)"
      by (cases b)
    let ?p = "block_at pre'"
    have wp: "heap_wf s (pre' @ (m, g) # (n, True) # post)"
      using wf by (simp add: snoc b)
    note hp = heap_header [OF wp] and np = heap_node [OF wp]
    have prev_q: "node_prev (nodes s ?q) = ?p"
      using nq(1) snoc b by simp
    have get_p: "get_node ?p s = Inr (nodes s ?p)"
      using hp(1) by (simp add: get_node_def)
    show ?thesis
    proof (cases g)
      case False
      then have "kfree_prev ?q s = Inr (s\<lparr>nodes := nodes s\<rparr>)"
        using get_p get_q prev_q np(1) hp(3) by (simp add: kfree_prev_def del: of_nat_add)
      then show ?thesis
        using wf False by (intro exI [of _ "nodes s"]) (simp add: merge_prev_def snoc b)
    next
      case True
      let ?M = "merged (nodes s) ?p ?q"
      have "?p \<noteq> ?q"
        using hp(2) hq(2) snoc b by (metis add_cancel_right_right add_left_imp_eq extent.simps(2) extent_append extent_zero
          list.distinct(1))
      moreover have "post \<noteq> [] \<Longrightarrow> header_mapped s (node_next (nodes s ?q))"
        using heap_header(1) [of s "pre @ [(n, True)]" "hd post" "tl post"] wf nq(1)
        by (simp del: of_nat_add)
      moreover have "post = [] \<Longrightarrow> node_next (nodes s ?q) = 0"
        using nq(1) by simp
      moreover have "node_free (nodes s ?p)"
        using np(1) True by simp
      ultimately have "kfree_prev ?q s = Inr (s\<lparr>nodes := ?M\<rparr>)"
        using get_p get_q prev_q hp(1,3)
        by (cases "post = []") (auto simp: kfree_prev_def merged_def set_node_def Let_def simp del: of_nat_add)
      then show ?thesis
        using merged_wf [OF wp] True snoc b by (intro exI [of _ ?M]) (simp add: merge_prev_def)
    qed
  qed
qed


lemma kfree_run:
  assumes wf: "heap_wf s (pre @ (n, f) # post)"
  shows "\<exists>N. kfree (block_at pre + sizeof_node) s = Inr (s\<lparr>nodes := N\<rparr>) \<and> heap_wf (s\<lparr>nodes := N\<rparr>) (freed pre n post)"
proof -
  let ?p = "block_at pre"
  obtain N1 where N1: "set_node ?p (node_free_update (\<lambda>_. True)) s = Inr (s\<lparr>nodes := N1\<rparr>)"
    and w1: "heap_wf (s\<lparr>nodes := N1\<rparr>) (pre @ (n, True) # post)"
    using set_free_run [OF wf] by blast
  obtain N2 where N2: "kfree_next ?p (s\<lparr>nodes := N1\<rparr>) = Inr (s\<lparr>nodes := N2\<rparr>)"
    and w2: "heap_wf (s\<lparr>nodes := N2\<rparr>) (pre @ merge_next n post)"
    using kfree_next_run [OF w1] by auto
  obtain k bs where m: "merge_next n post = (k, True) # bs"
    by (rule merge_next_cases [of post n]) auto
  obtain N3 where N3: "kfree_prev ?p (s\<lparr>nodes := N2\<rparr>) = Inr (s\<lparr>nodes := N3\<rparr>)"
    and w3: "heap_wf (s\<lparr>nodes := N3\<rparr>) (freed pre n post)"
    using kfree_prev_run [of "s\<lparr>nodes := N2\<rparr>" pre k bs] w2 m by (auto simp: freed_def)
  have "unat (?p + sizeof_node) = unat ?p + 16"
  proof -
    have "unat ?p + 16 < 4294967296"
      using heap_header(2) [OF wf] heap_wf_bound(2) [OF wf] by (simp add: heap_bounds del: of_nat_add)
    then show ?thesis
      by (subst unat_add_small) (simp_all add: sizeof_node_def del: of_nat_add)
  qed
  then have "?p + sizeof_node \<noteq> 0"
    by (metis add_is_0 numeral_eq_iff unat_0 zero_neq_numeral)
  then have "kfree (?p + sizeof_node) s = Inr (s\<lparr>nodes := N3\<rparr>)"
    using N1 N2 N3 by (simp add: kfree_def Let_def del: of_nat_add)
  with w3 show ?thesis by blast
qed

text \<open>The ranges that are handed out do not overlap, and releasing one leaves the others.\<close>

lemma allocated_range:
  "(x, n) \<in> allocated a bs \<Longrightarrow> a + 16 \<le> x \<and> x + n \<le> a + extent bs"
  by (induction a bs rule: allocated.induct) (auto split: if_splits)

lemma allocated_split:
  assumes "(x, n) \<in> allocated a bs"
  obtains pre post where "bs = pre @ (n, False) # post" "x = a + extent pre + 16"
  using assms
proof (induction a bs arbitrary: thesis rule: allocated.induct)
  case (2 a m f bs)
  show ?case
  proof (cases "(x, n) \<in> allocated (a + 16 + m) bs")
    case True
    from 2(1) [OF _ True] obtain pre post where "bs = pre @ (n, False) # post" "x = a + 16 + m + extent pre + 16"
      by metis
    then show ?thesis
      by (intro 2(2) [of "(m, f) # pre" post]) simp_all
  next
    case False
    then show ?thesis
      using 2(2) [of "[]" bs] 2(3) by (auto split: if_splits)
  qed
qed simp

definition ranges_disjoint :: "(nat \<times> nat) set \<Rightarrow> bool" where
  "ranges_disjoint A \<longleftrightarrow>
     (\<forall>(x, n)\<in>A. \<forall>(y, m)\<in>A. (x, n) \<noteq> (y, m) \<longrightarrow> x + n \<le> y \<or> y + m \<le> x)"

lemma allocated_disjoint: "ranges_disjoint (allocated a bs)"
proof (induction a bs rule: allocated.induct)
  case (2 a n f bs)
  have "a + 16 + n \<le> x" if "(x, m) \<in> allocated (a + 16 + n) bs" for x m
    using allocated_range [OF that] by simp
  with 2 show ?case
    by (fastforce simp: ranges_disjoint_def split: if_splits)
qed (simp add: ranges_disjoint_def)

lemma extent_freed [simp]: "extent (freed pre n post) = extent pre + 16 + n + extent post"
proof -
  obtain k bs where m: "merge_next n post = (k, True) # bs" "16 + k + extent bs = 16 + n + extent post"
    by (rule merge_next_cases [of post n]) auto
  show ?thesis
    using m by (cases pre k bs rule: merge_prev_cases) (auto simp: freed_def)
qed

lemma allocated_freed:
  "allocated a (freed pre n post) = allocated a (pre @ (n, True) # post)"
proof -
  obtain k bs where m: "merge_next n post = (k, True) # bs"
    "\<And>a. allocated (a + 16 + k) bs = allocated (a + 16 + n) post"
    by (rule merge_next_cases [of post n]) (auto simp: add_ac)
  show ?thesis
  proof (cases pre k bs rule: merge_prev_cases)
    case (1 pre' j)
    with m(1) m(2) [of "a + extent pre' + 16 + j"] show ?thesis
      by (simp add: freed_def allocated_append add_ac)
  next
    case 2
    with m(1) m(2) [of "a + extent pre"] show ?thesis
      by (simp add: freed_def allocated_append add_ac)
  qed
qed

lemma allocated_release:
  assumes "x = a + extent pre + 16" "8 \<le> n"
  shows "allocated a (pre @ (n, True) # post) = allocated a (pre @ (n, False) # post) - {(x, n)}"
proof -
  have "(x, n) \<notin> allocated a pre" "(x, n) \<notin> allocated (a + extent pre + 16 + n) post"
    using assms allocated_range [of x n a pre] allocated_range [of x n "a + extent pre + 16 + n" post] by auto
  then show ?thesis
    using assms by (auto simp: allocated_append)
qed

lemma separated_append:
  "separated (xs @ ys) \<longleftrightarrow> separated xs \<and> separated ys \<and>
     (xs \<noteq> [] \<and> ys \<noteq> [] \<longrightarrow> \<not> (snd (last xs) \<and> snd (hd ys)))"
proof (induction xs)
  case (Cons x xs)
  then show ?case
    by (cases x; cases xs; cases ys rule: separated.cases) auto
qed simp

lemma separated_freed:
  assumes "separated (pre @ (n, f) # post)"
  shows "separated (freed pre n post)"
proof -
  have pre: "separated pre" and post: "separated post"
    using assms separated_append [of "pre @ [(n, f)]" post] separated_append [of pre] by auto
  obtain k bs where m: "merge_next n post = (k, True) # bs" and s1: "separated ((k, True) # bs)"
  proof (cases post rule: merge_next_cases [where n = n])
    case (1 m bs)
    then show thesis
      using post by (intro that [of "n + m + 16" bs]) (cases bs; auto)+
  next
    case 2
    then show thesis
      using post by (intro that [of n post]) (cases post; auto)+
  qed
  show ?thesis
  proof (cases pre k bs rule: merge_prev_cases)
    case (1 pre' j)
    have "separated ((j + k + 16, True) # bs)"
      using s1 by (cases bs) auto
    with 1 m pre show ?thesis
      by (auto simp: freed_def separated_append)
  next
    case 2
    with m pre s1 show ?thesis
      by (auto simp: freed_def separated_append)
  qed
qed

definition heap_ok :: "'a heap_scheme \<Rightarrow> (nat \<times> nat) set \<Rightarrow> bool" where
  "heap_ok s A \<longleftrightarrow> (\<exists>bs. heap_wf s bs \<and> separated bs \<and> A = allocated heap_start bs)"

lemma kfree_ok:
  assumes "heap_ok s A" "(x, n) \<in> A"
  shows "\<exists>N. kfree (of_nat x) s = Inr (s\<lparr>nodes := N\<rparr>) \<and> heap_ok (s\<lparr>nodes := N\<rparr>) (A - {(x, n)})"
proof -
  obtain bs where bs: "heap_wf s bs" "separated bs" "A = allocated heap_start bs"
    using assms(1) by (auto simp: heap_ok_def)
  obtain pre post where p: "bs = pre @ (n, False) # post" "x = heap_start + extent pre + 16"
    using assms(2) unfolding bs(3) by (rule allocated_split)
  have wf: "heap_wf s (pre @ (n, False) # post)"
    using bs(1) p(1) by simp
  obtain N where N: "kfree (block_at pre + sizeof_node) s = Inr (s\<lparr>nodes := N\<rparr>)"
    "heap_wf (s\<lparr>nodes := N\<rparr>) (freed pre n post)"
    using kfree_run [OF wf] by blast
  moreover have "of_nat x = block_at pre + sizeof_node"
    by (simp add: p(2) sizeof_node_def)
  moreover have "separated (freed pre n post)"
    using bs(2) p(1) separated_freed by blast
  moreover have "allocated heap_start (freed pre n post) = A - {(x, n)}"
    unfolding allocated_freed bs(3) p(1) using heap_node(3) [OF wf] by (intro allocated_release) (simp_all add: p(2))
  ultimately show ?thesis
    unfolding heap_ok_def by metis
qed


section \<open>Allocation\<close>

text \<open>What taking \<open>k\<close> bytes of a free block of \<open>n\<close> bytes leaves.\<close>

definition take_block :: "nat \<Rightarrow> nat \<Rightarrow> block list" where
  "take_block k n = (if n < k + 24 then [(n, False)] else [(k, False), (n - k - 16, True)])"

lemma extent_take_block [simp]: "k \<le> n \<Longrightarrow> extent (take_block k n) = 16 + n"
  by (simp add: take_block_def)

lemma heap_block_size:
  assumes "heap_wf s (pre @ (n, f) # post)"
  shows "n < 801112064" "unat (of_nat n :: u32) = n"
proof -
  show "n < 801112064"
    using heap_wf_bound(2) [OF assms] by (simp add: heap_bounds)
  then show "unat (of_nat n :: u32) = n"
    by (intro unat_address) simp
qed

lemma kmalloc_split_run:
  assumes wf: "heap_wf s (pre @ (n, True) # post)" and k: "unat sz = k" "k mod 8 = 0" "8 \<le> k" "k \<le> n"
  shows "\<exists>N. kmalloc_split sz (block_at pre) s = Inr (s\<lparr>nodes := N\<rparr>) \<and>
    heap_wf (s\<lparr>nodes := N\<rparr>) (pre @ (if n < k + 24 then [(n, True)] else [(k, True), (n - k - 16, True)]) @ post)"
proof -
  let ?p = "block_at pre"
  note hp = heap_header [OF wf] and np = heap_node [OF wf] and bound = heap_wf_bound [OF wf]
  have get_p: "get_node ?p s = Inr (nodes s ?p)"
    using hp(1) by (simp add: get_node_def)
  have size_p: "unat (node_size (nodes s ?p)) = n"
    using np(1) heap_block_size(2) [OF wf] by simp
  have sum: "unat (sz + sizeof_node + 8) = k + 24"
  proof -
    have "unat (sz + (sizeof_node + 8)) = k + 24"
      using k(1,4) heap_block_size(1) [OF wf] by (subst unat_add_small) (simp_all add: sizeof_node_def)
    then show ?thesis
      by (simp add: add.assoc)
  qed
  have test: "node_size (nodes s ?p) < sz + sizeof_node + 8 \<longleftrightarrow> n < k + 24"
    by (simp add: word_less_nat_alt size_p sum del: of_nat_add)
  show ?thesis
  proof (cases "n < k + 24")
    case True
    then have "kmalloc_split sz ?p s = Inr (s\<lparr>nodes := nodes s\<rparr>)"
      using get_p test by (simp add: kmalloc_split_def del: of_nat_add)
    then show ?thesis
      using True wf by (intro exI [of _ "nodes s"]) simp
  next
    case False
    let ?q = "?p + sizeof_node + sz" and ?r = "node_next (nodes s ?p)" and ?N = "split_node (nodes s) ?p sz"
    have q: "unat ?q = unat ?p + 16 + k"
    proof -
      have small: "unat ?p + (16 + k) < 4294967296"
        unfolding hp(2) using k(4) bound(2) by (simp add: heap_bounds)
      have "unat (sizeof_node + sz) = 16 + k"
        using k(1,4) heap_block_size(1) [OF wf] by (subst unat_add_small) (simp_all add: sizeof_node_def)
      with small have "unat (?p + (sizeof_node + sz)) = unat ?p + 16 + k"
        by (subst unat_add_small) (simp_all del: of_nat_add)
      then show ?thesis
        by (simp add: add.assoc)
    qed
    have sp: "mapped_below s (heap_current_end s)" "unat (heap_current_end s) = heap_start + extent pre + 16 + n + extent post"
      using wf by (simp_all add: heap_wf_def heap_space_def)
    have mq: "header_mapped s ?q"
      using False by (intro mapped_header [OF sp(1)]) (simp_all add: q hp(2) sp(2) del: of_nat_add)
    have mr: "post \<noteq> [] \<Longrightarrow> header_mapped s ?r"
      using heap_header(1) [of s "pre @ [(n, True)]" "hd post" "tl post"] wf np(1) by (simp del: of_nat_add)
    have nr: "post = [] \<Longrightarrow> ?r = 0" "post \<noteq> [] \<Longrightarrow> ?r \<noteq> 0"
      using heap_header(3) [of s "pre @ [(n, True)]" "hd post" "tl post"] wf np(1) by (simp_all del: of_nat_add)
    have "layout ?N 0 heap_start (pre @ (k, True) # (n - k - 16, True) # post) 0"
      using wf bound k False by (intro layout_split) (simp_all add: heap_wf_def)
    then have "heap_wf (s\<lparr>nodes := ?N\<rparr>) (pre @ [(k, True), (n - k - 16, True)] @ post)"
      using heap_wf_nodes [OF wf] False by simp
    moreover have "unat ?p \<noteq> unat ?q"
      unfolding q by simp
    then have "?p \<noteq> ?q"
      by metis
    then have "kmalloc_split sz ?p s = Inr (s\<lparr>nodes := ?N\<rparr>)"
      using get_p test False hp(1) mq mr nr
      by (cases "post = []")
        (simp_all add: kmalloc_split_def split_node_def set_node_def Let_def header_mapped_def del: of_nat_add)
    ultimately show ?thesis
      using False by auto
  qed
qed

lemma kmalloc_take_run:
  assumes wf: "heap_wf s (pre @ (n, True) # post)" and k: "unat sz = k" "k mod 8 = 0" "8 \<le> k" "k \<le> n"
  shows "\<exists>N. kmalloc_take sz (block_at pre) s = Inr (block_at pre + sizeof_node, s\<lparr>nodes := N\<rparr>) \<and>
    heap_wf (s\<lparr>nodes := N\<rparr>) (pre @ take_block k n @ post)"
proof -
  define rest where "rest = (if n < k + 24 then [] else [(n - k - 16, True)])"
  define m where "m = (if n < k + 24 then n else k)"
  have parts: "(if n < k + 24 then [(n, True)] else [(k, True), (n - k - 16, True)]) = (m, True) # rest"
    "take_block k n = (m, False) # rest"
    by (simp_all add: m_def rest_def take_block_def)
  obtain N1 where N1: "kmalloc_split sz (block_at pre) s = Inr (s\<lparr>nodes := N1\<rparr>)"
    "heap_wf (s\<lparr>nodes := N1\<rparr>) (pre @ (m, True) # rest @ post)"
    using kmalloc_split_run [OF assms] unfolding parts by auto
  obtain N2 where "set_node (block_at pre) (node_free_update (\<lambda>_. False)) (s\<lparr>nodes := N1\<rparr>) = Inr (s\<lparr>nodes := N2\<rparr>)"
    "heap_wf (s\<lparr>nodes := N2\<rparr>) (pre @ (m, False) # rest @ post)"
    using set_free_run [OF N1(2), of False] by auto
  with N1 show ?thesis
    by (intro exI [of _ N2]) (simp add: kmalloc_take_def parts del: of_nat_add)
qed

text \<open>One round of the search.\<close>

lemma kmalloc_loop_block:
  assumes wf: "heap_wf s (pre @ (n, f) # post)" and k: "unat sz = k"
  shows "kmalloc_loop sz (block_at pre) s =
    (if f \<and> k \<le> n then Some (kmalloc_take sz (block_at pre) s)
     else if post = [] then
       (case kmalloc_extend sz (block_at pre) s of
          Inl e \<Rightarrow> Some (Inl e)
        | Inr s \<Rightarrow> kmalloc_loop sz (heap_head s) s)
     else kmalloc_loop sz (block_at (pre @ [(n, f)])) s)"
proof -
  let ?p = "block_at pre"
  note hp = heap_header [OF wf] and np = heap_node [OF wf]
  have get_p: "get_node ?p s = Inr (nodes s ?p)"
    using hp(1) by (simp add: get_node_def)
  have size_p: "sz \<le> node_size (nodes s ?p) \<longleftrightarrow> k \<le> n"
    using np(1) heap_block_size(2) [OF wf] k by (simp add: word_le_nat_alt)
  have "post \<noteq> [] \<Longrightarrow> block_at (pre @ [(n, f)]) \<noteq> 0"
    using heap_header(3) [of s "pre @ [(n, f)]" "hd post" "tl post"] wf by (simp del: of_nat_add)
  then show ?thesis
    using hp(3) get_p size_p np(1)
    by (subst kmalloc_loop.simps) (auto simp del: of_nat_add extent_append)
qed

definition fits :: "nat \<Rightarrow> block \<Rightarrow> bool" where
  "fits k b \<longleftrightarrow> snd b \<and> k \<le> fst b"

lemma kmalloc_loop_skip:
  assumes "heap_wf s (pre @ xs @ post)" "post \<noteq> []" "unat sz = k" "list_all (\<lambda>b. \<not> fits k b) xs"
  shows "kmalloc_loop sz (block_at pre) s = kmalloc_loop sz (block_at (pre @ xs)) s"
  using assms
proof (induction xs arbitrary: pre)
  case (Cons b xs)
  obtain n f where b: "b = (n, f)"
    by (cases b)
  have "kmalloc_loop sz (block_at pre) s = kmalloc_loop sz (block_at (pre @ [(n, f)])) s"
    using kmalloc_loop_block [of s pre n f "xs @ post" sz k] Cons.prems by (auto simp: b fits_def simp del: of_nat_add extent_append)
  also have "\<dots> = kmalloc_loop sz (block_at ((pre @ [(n, f)]) @ xs)) s"
    using Cons.prems by (intro Cons.IH) (simp_all add: b)
  finally show ?case
    by (simp add: b)
qed simp

lemma kmalloc_loop_fit:
  assumes wf: "heap_wf s (pre @ (n, True) # post)" and k: "unat sz = k" "k mod 8 = 0" "8 \<le> k" "k \<le> n"
    and first: "list_all (\<lambda>b. \<not> fits k b) pre"
  shows "\<exists>N. kmalloc_loop sz (heap_head s) s = Some (Inr (block_at pre + sizeof_node, s\<lparr>nodes := N\<rparr>)) \<and>
    heap_wf (s\<lparr>nodes := N\<rparr>) (pre @ take_block k n @ post)"
proof -
  have "heap_head s = block_at []"
    using wf by (simp add: heap_wf_def heap_start_def)
  then have "kmalloc_loop sz (heap_head s) s = kmalloc_loop sz (block_at pre) s"
    using kmalloc_loop_skip [of s "[]" pre "(n, True) # post" sz k] wf k(1) first by simp
  then show ?thesis
    using kmalloc_loop_block [OF wf k(1)] kmalloc_take_run [OF wf k] k(4) by auto
qed


text \<open>Extending the heap behind its last block.\<close>

definition heap_pages :: "nat \<Rightarrow> nat" where
  "heap_pages k = (k + 4111) div 4096"

definition heap_change :: "'a heap_scheme \<Rightarrow> 'a heap_scheme \<Rightarrow> bool" where
  "heap_change s t \<longleftrightarrow>
     (\<exists>m u e N. t = s\<lparr>mem := m, pmm_used_blocks := u, heap_current_end := e, nodes := N\<rparr>) \<and> maps_kept s t"

lemma heap_change_nodes: "heap_change s (s\<lparr>nodes := N\<rparr>)"
  unfolding heap_change_def
  by (intro conjI exI [of _ "mem s"] exI [of _ "pmm_used_blocks s"] exI [of _ "heap_current_end s"] exI [of _ N]) simp_all

lemma heap_change_expand: "expand_change s t \<Longrightarrow> heap_change s (t\<lparr>nodes := N\<rparr>)"
  by (auto simp: expand_change_def heap_change_def)

lemma heap_change_trans: "heap_change s t \<Longrightarrow> heap_change t u \<Longrightarrow> heap_change s u"
  unfolding heap_change_def by (cases s) (auto intro: maps_kept_trans)

lemma heap_pages_bounds:
  "16 + k \<le> 4096 * heap_pages k" "8 \<le> k \<Longrightarrow> 4096 \<le> 4096 * heap_pages k" "4096 * heap_pages k \<le> k + 4111"
proof -
  define q r where "q = (k + 4111) div 4096" and "r = (k + 4111) mod 4096"
  have qr: "k + 4111 = 4096 * q + r" "r < 4096"
    by (simp_all add: q_def r_def)
  show "16 + k \<le> 4096 * heap_pages k" "8 \<le> k \<Longrightarrow> 4096 \<le> 4096 * heap_pages k"
    "4096 * heap_pages k \<le> k + 4111"
    unfolding heap_pages_def q_def [symmetric] by (insert qr, linarith, cases q, simp, simp, linarith)
qed

lemma pages_needed:
  assumes "unat sz = k" "k + 4111 < 4294967296"
  shows "unat ((sz + sizeof_node + PAGE_SIZE - 1) div PAGE_SIZE) = heap_pages k"
proof -
  have e: "sz + sizeof_node + PAGE_SIZE - 1 = sz + 4111"
    by (simp add: sizeof_node_def PAGE_SIZE_def)
  have "unat (sz + 4111) = k + 4111"
    using assms by (subst unat_add_small) simp_all
  then show ?thesis
    unfolding e by (simp add: unat_div unat_page_size heap_pages_def)
qed

lemma freed_last:
  assumes "k \<le> m"
  shows "\<exists>b\<in>set (freed bs m []). fits k b"
  using assms by (cases bs m "[]::block list" rule: merge_prev_cases) (auto simp: freed_def fits_def)

lemma kmalloc_extend_run:
  fixes s :: "'a heap_scheme"
  assumes wf: "heap_wf s bs" and k: "unat sz = k" "8 \<le> k" and room: "heap_room s (heap_pages k)"
  shows "\<exists>t. kmalloc_extend sz (last_node 0 heap_start bs) s = Inr t \<and>
    heap_wf t (freed bs (4096 * heap_pages k - 16) []) \<and> heap_change s t \<and>
    unat (heap_current_end t) = unat (heap_current_end s) + 4096 * heap_pages k \<and>
    card (free_pages s) \<le> card (free_pages t) + 2 * heap_pages k"
proof -
  let ?n = "heap_pages k" and ?e = "heap_current_end s" and ?z = "last_node 0 heap_start bs"
  let ?pn = "(sz + sizeof_node + PAGE_SIZE - 1) div PAGE_SIZE"
  define m where "m = 4096 * ?n - 16"
  have sp: "heap_space s" and l: "layout (nodes s) 0 heap_start bs 0" and ne: "bs \<noteq> []"
    and e: "heap_start + extent bs = unat ?e"
    using wf by (simp_all add: heap_wf_def)
  have lim: "unat ?e + 4096 * ?n \<le> heap_limit"
    using room by (simp add: heap_room_def)
  note pb = heap_pages_bounds [of k]
  have ks: "k + 4111 < 4294967296"
    using pb(1) lim e by (simp add: heap_bounds)
  note pn = pages_needed [OF k(1) ks]
  obtain t where t: "kheap_expand ?n s = Inr t" "heap_space t" "unat (heap_current_end t) = unat ?e + 4096 * ?n"
    "card (free_pages s) \<le> card (free_pages t) + 2 * ?n" "expand_change s t"
    using kheap_expand_ok [OF sp room] by blast
  have same: "nodes t = nodes s" "heap_head t = heap_head s"
    using t(5) by (auto simp: expand_change_def)
  have m: "16 + m = 4096 * ?n" "8 \<le> m" "m mod 8 = 0"
  proof -
    show "16 + m = 4096 * ?n" "8 \<le> m"
      using pb(2) [OF k(2)] by (simp_all add: m_def)
    have "8 dvd 4096 * ?n - 8 * 2"
      by (intro dvd_diff_nat dvd_mult2 dvd_triv_left) simp
    then show "m mod 8 = 0"
      by (simp add: m_def)
  qed
  have below: "mapped_below t (heap_current_end t)"
    using t(2) by (simp add: heap_space_def)
  have he: "header_mapped t ?e"
    using e m by (intro mapped_header [OF below]) (simp_all add: t(3))
  have z: "heap_start \<le> unat ?z \<and> unat ?z + 16 \<le> unat ?e"
    using last_node_range [OF ne, of heap_start 0] heap_wf_bound(1) [OF wf] e by simp
  then have hz: "header_mapped t ?z"
    by (intro mapped_header [OF below]) (simp_all add: t(3))
  have e_eq: "?e = of_nat (heap_start + extent bs)"
    by (simp only: e of_nat_unat_inverse)
  have bound: "heap_start + extent bs + 16 + m \<le> 4294967296"
    using e lim m by (simp add: heap_bounds)
  have size: "?pn * PAGE_SIZE - sizeof_node = of_nat m"
  proof -
    have "?pn * PAGE_SIZE = of_nat (16 + m)"
      unfolding m(1) pn [symmetric] by (simp add: PAGE_SIZE_def mult.commute)
    then show ?thesis
      by (simp add: sizeof_node_def)
  qed
  let ?N1 = "(nodes s)(?e := \<lparr>node_size = of_nat m, node_free = True, node_next = 0, node_prev = ?z\<rparr>)"
  let ?N2 = "?N1(?z := (?N1 ?z)\<lparr>node_next := ?e\<rparr>)"
  have "layout ?N2 0 heap_start (bs @ [(m, True)]) 0"
    using layout_extend [OF l ne bound m(3,2)] unfolding e_eq [symmetric] .
  then have wf2: "heap_wf (t\<lparr>nodes := ?N2\<rparr>) (bs @ [(m, True)])"
    using wf t(2,3) e m(1) by (simp add: heap_wf_def heap_space_def same)
  obtain N where N: "kfree (block_at bs + sizeof_node) (t\<lparr>nodes := ?N2\<rparr>) = Inr (t\<lparr>nodes := N\<rparr>)"
    "heap_wf (t\<lparr>nodes := N\<rparr>) (freed bs m [])"
    using kfree_run [OF wf2] by auto
  have "kmalloc_extend sz ?z s = Inr (t\<lparr>nodes := N\<rparr>)"
    using t(1) he hz N(1) unfolding e_eq [symmetric]
    by (simp add: kmalloc_extend_def Let_def pn size set_node_def same)
  with N(2) t show ?thesis
    unfolding m_def [symmetric] using heap_change_expand [OF t(5)]
    by (intro exI [of _ "t\<lparr>nodes := N\<rparr>"]) simp
qed


section \<open>The allocator as a whole\<close>

definition rounded :: "nat \<Rightarrow> nat" where
  "rounded n = (n + 7) div 8 * 8"

lemma rounded_bounds: "n \<le> rounded n" "rounded n \<le> n + 7" "rounded n mod 8 = 0" "0 < n \<Longrightarrow> 8 \<le> rounded n"
proof -
  define q r where "q = (n + 7) div 8" and "r = (n + 7) mod 8"
  have qr: "n + 7 = 8 * q + r" "r < 8"
    by (simp_all add: q_def r_def)
  show "n \<le> rounded n" "rounded n \<le> n + 7" "rounded n mod 8 = 0" "0 < n \<Longrightarrow> 8 \<le> rounded n"
    unfolding rounded_def q_def [symmetric] by (insert qr, linarith, linarith, simp, cases q, simp, simp)
qed

lemma clear_low_bits: "w AND NOT (mask n) = push_bit n (drop_bit n w)" for w :: "'a::len word"
  by (rule bit_word_eqI) (auto simp: bit_simps)

lemma kmalloc_rounds:
  assumes "unat sz + 7 < 4294967296"
  shows "unat ((sz + 7) AND NOT 7 :: u32) = rounded (unat sz)"
proof -
  have "(sz + 7) AND NOT 7 = push_bit 3 (drop_bit 3 (sz + 7))"
    using clear_low_bits [of "sz + 7" 3] by (simp add: mask_eq_exp_minus_1)
  also have "\<dots> = (sz + 7) div 8 * 8"
    by (simp add: push_bit_eq_mult drop_bit_eq_div)
  finally have "(sz + 7) AND NOT 7 = (sz + 7) div 8 * 8" .
  moreover have "unat (sz + 7) = unat sz + 7"
    using assms by (subst unat_add_small) simp_all
  moreover have "unat ((sz + 7) div 8 * 8) = unat (sz + 7) div 8 * 8"
    using unat_u32_bound [of "sz + 7"] by (subst unat_mult_small) (simp_all add: unat_div del: unat_u32_bound)
  ultimately show ?thesis
    by (simp add: rounded_def)
qed

lemma first_fit:
  assumes "\<exists>b\<in>set bs. fits k b"
  obtains pre n post where "bs = pre @ (n, True) # post" "k \<le> n" "list_all (\<lambda>b. \<not> fits k b) pre"
  using split_list_first_prop [OF assms] by (auto simp: fits_def list_all_iff)

lemma allocated_take:
  assumes "k \<le> n" "8 \<le> k"
  shows "\<exists>m\<ge>k. allocated a (pre @ take_block k n @ post) = insert (a + extent pre + 16, m) (allocated a (pre @ (n, True) # post))"
proof (cases "n < k + 24")
  case True
  then show ?thesis
    using assms by (intro exI [of _ n]) (auto simp: take_block_def allocated_append)
next
  case False
  then obtain j where "n = k + 16 + j"
    using that [of "n - k - 16"] by simp
  then show ?thesis
    using False by (intro exI [of _ k]) (auto simp: take_block_def allocated_append add_ac)
qed

lemma separated_take:
  "separated (pre @ (n, True) # post) \<Longrightarrow> separated (pre @ take_block k n @ post)"
  by (cases post) (auto simp: take_block_def separated_append)

lemma allocated_taken_fresh:
  assumes "0 < m"
  shows "(a + extent pre + 16, m) \<notin> allocated a (pre @ (n, True) # post)"
  using assms allocated_range [of "a + extent pre + 16" m a pre]
    allocated_range [of "a + extent pre + 16" m "a + extent pre + 16 + n" post]
  by (auto simp: allocated_append)

lemma layout_aligned: "layout N p a bs nxt \<Longrightarrow> extent bs mod 8 = 0"
  by (induction N p a bs nxt rule: layout.induct) (auto simp: mod_eq_0_iff_dvd)

text \<open>A search among blocks one of which fits.\<close>

lemma kmalloc_found:
  assumes wf: "heap_wf s bs" and sep: "separated bs" and fit: "\<exists>b\<in>set bs. fits k b"
    and k: "unat sz = k" "k mod 8 = 0" "8 \<le> k"
  shows "\<exists>x m N. kmalloc_loop sz (heap_head s) s = Some (Inr (of_nat x, s\<lparr>nodes := N\<rparr>)) \<and>
    k \<le> m \<and> x mod 8 = 0 \<and> (x, m) \<notin> allocated heap_start bs \<and>
    heap_ok (s\<lparr>nodes := N\<rparr>) (insert (x, m) (allocated heap_start bs))"
proof -
  obtain pre n post where b: "bs = pre @ (n, True) # post" "k \<le> n" "list_all (\<lambda>b. \<not> fits k b) pre"
    using fit by (rule first_fit)
  let ?x = "heap_start + extent pre + 16"
  have wf': "heap_wf s (pre @ (n, True) # post)"
    using wf b(1) by simp
  obtain N where N: "kmalloc_loop sz (heap_head s) s = Some (Inr (block_at pre + sizeof_node, s\<lparr>nodes := N\<rparr>))"
    "heap_wf (s\<lparr>nodes := N\<rparr>) (pre @ take_block k n @ post)"
    using kmalloc_loop_fit [OF wf' k b(2,3)] by blast
  obtain m where m: "k \<le> m" "allocated heap_start (pre @ take_block k n @ post) = insert (?x, m) (allocated heap_start bs)"
    using allocated_take [OF b(2) k(3)] b(1) by metis
  have "of_nat ?x = block_at pre + sizeof_node"
    by (simp add: sizeof_node_def)
  moreover have "heap_ok (s\<lparr>nodes := N\<rparr>) (insert (?x, m) (allocated heap_start bs))"
    using N(2) separated_take [of pre n post k] sep b(1) m(2) unfolding heap_ok_def by metis
  moreover have "(?x, m) \<notin> allocated heap_start bs"
    using allocated_taken_fresh [of m heap_start pre n post] m(1) k(3) b(1) by simp
  moreover have "extent pre mod 8 = 0"
    using wf' layout_aligned by (auto simp: heap_wf_def layout_append simp del: of_nat_add)
  then have "?x mod 8 = 0"
    by (simp add: heap_bounds mod_eq_0_iff_dvd)
  ultimately show ?thesis
    using N(1) m(1) by metis
qed

text \<open>A search in vain extends the heap, and the next one finds a block.\<close>

lemma kmalloc_extends:
  assumes wf: "heap_wf s bs" and fit: "\<not> (\<exists>b\<in>set bs. fits k b)" and k: "unat sz = k"
  shows "kmalloc_loop sz (heap_head s) s =
    (case kmalloc_extend sz (last_node 0 heap_start bs) s of
       Inl e \<Rightarrow> Some (Inl e)
     | Inr s \<Rightarrow> kmalloc_loop sz (heap_head s) s)"
proof -
  have "bs \<noteq> []" and head: "heap_head s = block_at []"
    using wf by (auto simp: heap_wf_def heap_start_def)
  then obtain pre n f where b: "bs = pre @ [(n, f)]"
    by (cases bs rule: rev_cases) auto
  have "kmalloc_loop sz (heap_head s) s = kmalloc_loop sz (block_at pre) s"
    using kmalloc_loop_skip [of s "[]" pre "[(n, f)]" sz k] wf k fit head by (simp add: b list_all_iff)
  moreover have "\<not> (f \<and> k \<le> n)"
    using fit by (simp add: b fits_def)
  ultimately show ?thesis
    using kmalloc_loop_block [of s pre n f "[]" sz k] wf k by (auto simp: b simp del: of_nat_add)
qed

definition kmalloc_pages :: "nat \<Rightarrow> nat" where
  "kmalloc_pages n = heap_pages (rounded n)"

lemma kmalloc_ok:
  fixes s :: "'a heap_scheme"
  assumes ok: "heap_ok s A" and sz: "0 < unat sz" and room: "heap_room s (r + kmalloc_pages (unat sz))"
  shows "\<exists>x m t. kmalloc sz s = Some (Inr (of_nat x, t)) \<and> unat sz \<le> m \<and> x mod 8 = 0 \<and> (x, m) \<notin> A \<and>
    heap_ok t (insert (x, m) A) \<and> heap_room t r \<and> heap_change s t"
proof -
  obtain bs where bs: "heap_wf s bs" "separated bs" "A = allocated heap_start bs"
    using ok by (auto simp: heap_ok_def)
  let ?k = "rounded (unat sz)" and ?sz = "(sz + 7) AND NOT 7"
  note rb = rounded_bounds [of "unat sz"]
  have room_k: "heap_room s (heap_pages ?k)"
    using room by (simp add: heap_room_def kmalloc_pages_def)
  then have "unat sz + 7 < 4294967296"
    using heap_pages_bounds(1) [of ?k] rb bs(1)
    by (simp add: heap_room_def heap_wf_def heap_space_def heap_bounds)
  note k = kmalloc_rounds [OF this] rb(3) rb(4) [OF sz]
  have run: "kmalloc sz s = kmalloc_loop ?sz (heap_head s) s"
    using sz by (auto simp: kmalloc_def)
  show ?thesis
  proof (cases "\<exists>b\<in>set bs. fits ?k b")
    case True
    obtain x m N where x: "kmalloc_loop ?sz (heap_head s) s = Some (Inr (of_nat x, s\<lparr>nodes := N\<rparr>))"
      "?k \<le> m" "x mod 8 = 0" "(x, m) \<notin> A" "heap_ok (s\<lparr>nodes := N\<rparr>) (insert (x, m) A)"
      using kmalloc_found [OF bs(1,2) True k] bs(3) by metis
    moreover have "heap_room (s\<lparr>nodes := N\<rparr>) r"
      using room by (simp add: heap_room_def)
    ultimately show ?thesis
      using run rb(1) heap_change_nodes [of s N]
      by (intro exI [of _ x] exI [of _ m] exI [of _ "s\<lparr>nodes := N\<rparr>"]) simp
  next
    case False
    obtain t where t: "kmalloc_extend ?sz (last_node 0 heap_start bs) s = Inr t"
      "heap_wf t (freed bs (4096 * heap_pages ?k - 16) [])" "heap_change s t"
      "unat (heap_current_end t) = unat (heap_current_end s) + 4096 * heap_pages ?k"
      "card (free_pages s) \<le> card (free_pages t) + 2 * heap_pages ?k"
      using kmalloc_extend_run [OF bs(1) k(1,3) room_k] by blast
    let ?n = "4096 * heap_pages ?k - 16"
    have new: "?k \<le> ?n"
      using heap_pages_bounds(1) [of ?k] by simp
    have sep: "separated (freed bs ?n [])"
      using bs(2) by (intro separated_freed [where f = False]) (simp add: separated_append)
    have same: "allocated heap_start (freed bs ?n []) = A"
      unfolding allocated_freed bs(3) by (simp add: allocated_append)
    obtain x m N where x: "kmalloc_loop ?sz (heap_head t) t = Some (Inr (of_nat x, t\<lparr>nodes := N\<rparr>))"
      "?k \<le> m" "x mod 8 = 0" "(x, m) \<notin> A" "heap_ok (t\<lparr>nodes := N\<rparr>) (insert (x, m) A)"
      using kmalloc_found [OF t(2) sep freed_last [OF new] k] same by metis
    moreover have "heap_room (t\<lparr>nodes := N\<rparr>) r"
      using room t(4,5) by (simp add: heap_room_def kmalloc_pages_def)
    moreover have "kmalloc sz s = kmalloc_loop ?sz (heap_head t) t"
      using run kmalloc_extends [OF bs(1) False k(1)] t(1) by simp
    ultimately show ?thesis
      using rb(1) heap_change_trans [OF t(3) heap_change_nodes [of t N]]
      by (intro exI [of _ x] exI [of _ m] exI [of _ "t\<lparr>nodes := N\<rparr>"]) simp
  qed
qed


text \<open>As long as a free block is large enough, the heap is not extended: only headers change.\<close>

lemma kmalloc_fit_ok:
  assumes wf: "heap_wf s (pre @ (n, True) # post)" and sz: "0 < unat sz" "rounded (unat sz) \<le> n"
    and first: "list_all (\<lambda>b. \<not> fits (rounded (unat sz)) b) pre"
  shows "\<exists>N. kmalloc sz s = Some (Inr (block_at pre + sizeof_node, s\<lparr>nodes := N\<rparr>)) \<and>
    heap_wf (s\<lparr>nodes := N\<rparr>) (pre @ take_block (rounded (unat sz)) n @ post)"
proof -
  have "unat sz + 7 < 4294967296"
    using sz(2) rounded_bounds(1) [of "unat sz"] heap_block_size(1) [OF wf] by simp
  note k = kmalloc_rounds [OF this] rounded_bounds(3) [of "unat sz"] rounded_bounds(4) [OF sz(1)]
  moreover have "kmalloc sz s = kmalloc_loop ((sz + 7) AND NOT 7) (heap_head s) s"
    using sz(1) by (auto simp: kmalloc_def)
  ultimately show ?thesis
    using kmalloc_loop_fit [OF wf k sz(2) first] by simp
qed

lemma kmalloc_taken:
  assumes bs: "heap_wf s bs" "separated bs" "\<exists>b\<in>set bs. fits (rounded (unat sz)) b" and sz: "0 < unat sz"
  obtains pre n post m N where "bs = pre @ (n, True) # post" "rounded (unat sz) \<le> n"
    "kmalloc sz s = Some (Inr (of_nat (heap_start + extent pre + 16), s\<lparr>nodes := N\<rparr>))"
    "heap_wf (s\<lparr>nodes := N\<rparr>) (pre @ take_block (rounded (unat sz)) n @ post)"
    "separated (pre @ take_block (rounded (unat sz)) n @ post)" "unat sz \<le> m"
    "allocated heap_start (pre @ take_block (rounded (unat sz)) n @ post) =
       insert (heap_start + extent pre + 16, m) (allocated heap_start bs)"
    "(heap_start + extent pre + 16, m) \<notin> allocated heap_start bs"
proof -
  let ?k = "rounded (unat sz)"
  obtain pre n post where p: "bs = pre @ (n, True) # post" "?k \<le> n" "list_all (\<lambda>b. \<not> fits ?k b) pre"
    using bs(3) by (rule first_fit)
  have wf: "heap_wf s (pre @ (n, True) # post)"
    using bs(1) p(1) by simp
  obtain N where N: "kmalloc sz s = Some (Inr (block_at pre + sizeof_node, s\<lparr>nodes := N\<rparr>))"
    "heap_wf (s\<lparr>nodes := N\<rparr>) (pre @ take_block ?k n @ post)"
    using kmalloc_fit_ok [OF wf sz p(2,3)] by blast
  have k: "8 \<le> ?k"
    using rounded_bounds(4) [OF sz] .
  obtain m where m: "?k \<le> m" "allocated heap_start (pre @ take_block ?k n @ post) =
      insert (heap_start + extent pre + 16, m) (allocated heap_start bs)"
    using allocated_take [OF p(2) k] p(1) by metis
  have "(heap_start + extent pre + 16, m) \<notin> allocated heap_start bs"
    using allocated_taken_fresh [of m heap_start pre n post] m(1) k p(1) by simp
  moreover have "kmalloc sz s = Some (Inr (of_nat (heap_start + extent pre + 16), s\<lparr>nodes := N\<rparr>))"
    using N(1) by (simp add: sizeof_node_def)
  moreover have "unat sz \<le> m"
    using m(1) rounded_bounds(1) [of "unat sz"] by (rule le_trans [rotated])
  ultimately show thesis
    using that [OF p(1,2) _ N(2) _ _ m(2)] separated_take [of pre n post ?k] bs(2) p(1) by blast
qed

definition heap_free :: "'a heap_scheme \<Rightarrow> (nat \<times> nat) set \<Rightarrow> nat \<Rightarrow> bool" where
  "heap_free s A r \<longleftrightarrow>
     (\<exists>bs. heap_wf s bs \<and> separated bs \<and> A = allocated heap_start bs \<and> (\<exists>b\<in>set bs. fits r b))"

lemma heap_free_ok: "heap_free s A r \<Longrightarrow> heap_ok s A"
  by (auto simp: heap_free_def heap_ok_def)

lemma kmalloc_within:
  assumes free: "heap_free s A (rounded (unat sz) + 24 + r)" and sz: "0 < unat sz"
  shows "\<exists>x m N. kmalloc sz s = Some (Inr (of_nat x, s\<lparr>nodes := N\<rparr>)) \<and> unat sz \<le> m \<and> (x, m) \<notin> A \<and>
    heap_free (s\<lparr>nodes := N\<rparr>) (insert (x, m) A) r"
proof -
  let ?k = "rounded (unat sz)"
  obtain bs b where bs: "heap_wf s bs" "separated bs" "A = allocated heap_start bs" "b \<in> set bs" "fits (?k + 24 + r) b"
    using free by (auto simp: heap_free_def)
  then have "\<exists>b\<in>set bs. fits ?k b"
    by (auto simp: fits_def intro!: bexI [of _ b])
  from kmalloc_taken [OF bs(1,2) this sz] obtain pre n post m N where t: "bs = pre @ (n, True) # post" "?k \<le> n"
    "kmalloc sz s = Some (Inr (of_nat (heap_start + extent pre + 16), s\<lparr>nodes := N\<rparr>))"
    "heap_wf (s\<lparr>nodes := N\<rparr>) (pre @ take_block ?k n @ post)" "separated (pre @ take_block ?k n @ post)" "unat sz \<le> m"
    "allocated heap_start (pre @ take_block ?k n @ post) = insert (heap_start + extent pre + 16, m) A"
    "(heap_start + extent pre + 16, m) \<notin> A"
    unfolding bs(3) .
  have "\<exists>b\<in>set (pre @ take_block ?k n @ post). fits r b"
  proof (cases "b = (n, True)")
    case True
    then have "take_block ?k n = [(?k, False), (n - ?k - 16, True)]" "r \<le> n - ?k - 16"
      using bs(5) by (simp_all add: take_block_def fits_def)
    then show ?thesis
      by (auto simp: fits_def)
  next
    case False
    then show ?thesis
      using bs(4,5) t(1) by (intro bexI [of _ b]) (auto simp: fits_def)
  qed
  then have "heap_free (s\<lparr>nodes := N\<rparr>) (insert (heap_start + extent pre + 16, m) A) r"
    using t(4,5,7) unfolding heap_free_def by metis
  with t(3,6,8) show ?thesis
    by blast
qed

section \<open>Initialisation\<close>

lemma same_pages_heap:
  assumes "same_pages s t"
  shows "heap_wf t bs = heap_wf s bs" "heap_room t n = heap_room s n"
proof -
  have "vmm_ok t = vmm_ok s" "free_pages t = free_pages s" "heap_current_end t = heap_current_end s"
    "mapped_below t x = mapped_below s x" "nodes t = nodes s" "heap_head t = heap_head s" for x
    using assms same_pages_simps [OF assms]
    by (auto simp: same_pages_def vmm_ok_def in_bitmap_def mapped_below_def)
  then show "heap_wf t bs = heap_wf s bs" "heap_room t n = heap_room s n"
    by (simp_all add: heap_wf_def heap_space_def heap_room_def)
qed

definition init_change :: "'a heap_scheme \<Rightarrow> 'a heap_scheme \<Rightarrow> bool" where
  "init_change s t \<longleftrightarrow> maps_kept s t \<and>
     (\<exists>m u e N h l r c b. t = s\<lparr>mem := m, pmm_used_blocks := u, heap_current_end := e, heap_head := h, nodes := N,
        io_log := l, terminal_row := r, terminal_column := c, terminal_buffer := b\<rparr>) \<and>
     (tty_inv s \<longrightarrow> tty_inv t)"

lemma kheap_init_ok:
  fixes s :: "'a heap_scheme"
  assumes lock: "tty_lock s = 0" and vmm: "vmm_ok s" and null: "0 \<notin> free_pages s"
    and end_: "heap_current_end s = KHEAP_START" and room: "heap_room s (r + 512)"
  shows "\<exists>t. kheap_init s = Inr t \<and> heap_wf t [(2097136, True)] \<and> heap_ok t {} \<and> heap_room t r \<and> tty_lock t = 0 \<and>
    init_change s t \<and> heap_free t {} 2097136"
proof -
  have base: "page_base KHEAP_START"
    by (simp add: page_base_def KHEAP_START_def)
  have "heap_space s"
    using vmm null base by (auto simp: heap_space_def end_ heap_bounds mapped_below_def heap_start_def KHEAP_START_def VMM_PAGE_TABLES_def)
  moreover have "heap_room s 512"
    using room by (simp add: heap_room_def)
  ultimately obtain t where t: "kheap_expand 512 s = Inr t" "heap_space t"
    "unat (heap_current_end t) = unat KHEAP_START + 4096 * 512"
    "card (free_pages s) \<le> card (free_pages t) + 2 * 512" "expand_change s t"
    using kheap_expand_ok [of s 512] end_ by auto
  have lt: "tty_lock t = 0"
    using t(5) lock by (auto simp: expand_change_def)
  have n: "unat (KHEAP_INITIAL_SIZE div PAGE_SIZE) = 512"
    by (simp add: KHEAP_INITIAL_SIZE_def PAGE_SIZE_def unat_div)
  let ?N = "(nodes t)(KHEAP_START := \<lparr>node_size = KHEAP_INITIAL_SIZE - sizeof_node, node_free = True,
    node_next = 0, node_prev = 0\<rparr>)"
  let ?u = "t\<lparr>heap_head := KHEAP_START, nodes := ?N\<rparr>"
  have "header_mapped t KHEAP_START"
    using t(2,3) by (intro mapped_header [where e = "heap_current_end t"]) (simp_all add: heap_space_def heap_start_def)
  then have node: "set_node KHEAP_START (\<lambda>_. \<lparr>node_size = KHEAP_INITIAL_SIZE - sizeof_node, node_free = True,
      node_next = 0, node_prev = 0\<rparr>) (t\<lparr>heap_head := KHEAP_START\<rparr>) = Inr ?u"
    by (simp add: set_node_def header_mapped_def)
  have "heap_wf ?u [(2097136, True)]"
    using t(2,3) by (simp add: heap_wf_def heap_start_def heap_space_def KHEAP_INITIAL_SIZE_def sizeof_node_def)
  moreover have "heap_room ?u r"
    using room t(3,4) by (simp add: heap_room_def end_)
  moreover define msg where "msg = ''Kernel Heap initialized: %d MB at 0x%x'' @ [newline_char]"
  have "tty_lock ?u = 0" "render msg [PInt (KHEAP_INITIAL_SIZE div 1024 div 1024), PInt KHEAP_START] \<noteq> None"
    using lt by (simp_all add: msg_def)
  from print_same_pages [OF this] obtain w
    where w: "print msg [PInt (KHEAP_INITIAL_SIZE div 1024 div 1024), PInt KHEAP_START] ?u = Inr w"
    "same_pages ?u w" "tty_inv ?u \<longrightarrow> tty_inv w"
    by blast
  moreover have "kheap_init s = Inr w"
    using t(1) node w(1) unfolding kheap_init_def msg_def [symmetric] by (simp add: n)
  moreover have "init_change s w"
  proof -
    obtain l r c b where "w = ?u\<lparr>io_log := l, terminal_row := r, terminal_column := c, terminal_buffer := b\<rparr>"
      using w(2) by (auto simp: same_pages_def)
    moreover obtain m u e where "t = s\<lparr>mem := m, pmm_used_blocks := u, heap_current_end := e\<rparr>" "maps_kept s t"
      using t(5) by (auto simp: expand_change_def)
    ultimately have shape: "w = s\<lparr>mem := m, pmm_used_blocks := u, heap_current_end := e, heap_head := KHEAP_START,
        nodes := ?N, io_log := l, terminal_row := r, terminal_column := c, terminal_buffer := b\<rparr>"
      and same: "mem w = mem t" "cr3 w = cr3 t" "pmm_bitmap w = pmm_bitmap t" "pmm_max_blocks w = pmm_max_blocks t"
        "heap_current_end w = heap_current_end t" and kept: "maps_kept s t"
      by simp_all
    have "maps_kept s w"
      using maps_kept_cong(2) [OF same] kept by simp
    moreover have "tty_inv ?u = tty_inv s"
      using t(5) by (auto simp: expand_change_def tty_inv_def)
    ultimately show ?thesis
      using shape w(3) unfolding init_change_def by blast
  qed
  ultimately show ?thesis
    using lt by (intro exI [of _ w]) (force simp: same_pages_heap same_pages_simps heap_ok_def heap_free_def fits_def)
qed


section \<open>The interface\<close>

text \<open>
  What the users of the heap rely on: \<open>holds s A\<close> tells which blocks are handed out, \<open>room s n\<close>
  that \<open>n\<close> more pages are left, \<open>cost\<close> the pages a request can need.
\<close>

locale block_allocator =
  fixes alloc :: "u32 \<Rightarrow> 's \<Rightarrow> (u32 \<times> 's) outcome option"
    and release :: "u32 \<Rightarrow> 's \<Rightarrow> 's outcome"
    and holds :: "'s \<Rightarrow> (nat \<times> nat) set \<Rightarrow> bool"
    and room :: "'s \<Rightarrow> nat \<Rightarrow> bool"
    and cost :: "nat \<Rightarrow> nat"
  assumes alloc_block: "holds s A \<Longrightarrow> 0 < unat n \<Longrightarrow> room s (r + cost (unat n)) \<Longrightarrow>
      \<exists>x m t. alloc n s = Some (Inr (of_nat x, t)) \<and> unat n \<le> m \<and> (x, m) \<notin> A \<and>
        holds t (insert (x, m) A) \<and> room t r"
    and release_block: "holds s A \<Longrightarrow> (x, m) \<in> A \<Longrightarrow> \<exists>t. release (of_nat x) s = Inr t \<and> holds t (A - {(x, m)})"

primrec alloc_all :: "(u32 \<Rightarrow> 's \<Rightarrow> (u32 \<times> 's) outcome option) \<Rightarrow> u32 list \<Rightarrow> 's \<Rightarrow> (u32 list \<times> 's) outcome option" where
  "alloc_all alloc [] s = Some (Inr ([], s))"
| "alloc_all alloc (n # ns) s =
     (case alloc n s of
        Some (Inr (p, s)) \<Rightarrow> map_option (\<lambda>r. bind_outcome r (\<lambda>(ps, s). Inr (p # ps, s))) (alloc_all alloc ns s)
      | Some (Inl e) \<Rightarrow> Some (Inl e)
      | None \<Rightarrow> None)"

primrec free_all :: "(u32 \<Rightarrow> 's \<Rightarrow> 's outcome) \<Rightarrow> u32 list \<Rightarrow> 's \<Rightarrow> 's outcome" where
  "free_all release [] s = Inr s"
| "free_all release (p # ps) s = bind_outcome (release p s) (free_all release ps)"

definition pointers :: "(nat \<times> nat) list \<Rightarrow> u32 list" where
  "pointers bs = List.map (\<lambda>b. of_nat (fst b)) bs"

context block_allocator
begin

lemma alloc_all_blocks:
  assumes "holds s A" "list_all (\<lambda>n. 0 < unat n) ns" "room s (r + sum_list (List.map (\<lambda>n. cost (unat n)) ns))"
  shows "\<exists>bs t. alloc_all alloc ns s = Some (Inr (pointers bs, t)) \<and>
    list_all2 (\<lambda>n b. unat n \<le> snd b) ns bs \<and> distinct bs \<and> set bs \<inter> A = {} \<and> holds t (A \<union> set bs) \<and> room t r"
  using assms
proof (induction ns arbitrary: s A)
  case Nil
  then show ?case
    by (intro exI [of _ "[]"] exI [of _ s]) (simp add: pointers_def)
next
  case (Cons n ns)
  let ?r = "r + sum_list (List.map (\<lambda>n. cost (unat n)) ns)"
  have "room s (?r + cost (unat n))" "0 < unat n"
    using Cons.prems by (simp_all add: add_ac)
  then obtain x m t where x: "alloc n s = Some (Inr (of_nat x, t))" "unat n \<le> m" "(x, m) \<notin> A"
    "holds t (insert (x, m) A)" "room t ?r"
    using alloc_block [OF Cons.prems(1)] by blast
  obtain bs u where u: "alloc_all alloc ns t = Some (Inr (pointers bs, u))"
    "list_all2 (\<lambda>n b. unat n \<le> snd b) ns bs" "distinct bs" "set bs \<inter> insert (x, m) A = {}"
    "holds u (insert (x, m) A \<union> set bs)" "room u r"
    using Cons.IH [OF x(4) _ x(5)] Cons.prems(2) by auto
  have "A \<union> set ((x, m) # bs) = insert (x, m) A \<union> set bs"
    by auto
  then show ?case
    using x(1-3) u by (intro exI [of _ "(x, m) # bs"] exI [of _ u]) (auto simp: pointers_def)
qed

lemma free_all_blocks:
  assumes "holds s A" "distinct bs" "set bs \<subseteq> A"
  shows "\<exists>t. free_all release (pointers bs) s = Inr t \<and> holds t (A - set bs)"
  using assms
proof (induction bs arbitrary: s A)
  case Nil
  then show ?case by (simp add: pointers_def)
next
  case (Cons b bs)
  obtain x m where b: "b = (x, m)"
    by (cases b)
  obtain t where t: "release (of_nat x) s = Inr t" "holds t (A - {(x, m)})"
    using release_block [OF Cons.prems(1)] Cons.prems(3) b by force
  have "set bs \<subseteq> A - {(x, m)}"
    using Cons.prems(2,3) b by auto
  then obtain u where "free_all release (pointers bs) t = Inr u" "holds u (A - {(x, m)} - set bs)"
    using Cons.IH [OF t(2)] Cons.prems(2) by auto
  moreover have "A - {(x, m)} - set bs = A - set (b # bs)"
    by (auto simp: b)
  ultimately show ?case
    using t(1) by (simp add: b pointers_def)
qed

lemma alloc_free_all:
  assumes "holds s A" "list_all (\<lambda>n. 0 < unat n) ns" "room s (sum_list (List.map (\<lambda>n. cost (unat n)) ns))"
  shows "\<exists>bs t u. alloc_all alloc ns s = Some (Inr (pointers bs, t)) \<and> list_all2 (\<lambda>n b. unat n \<le> snd b) ns bs \<and>
    holds t (A \<union> set bs) \<and> free_all release (pointers bs) t = Inr u \<and> holds u A"
proof -
  obtain bs t where t: "alloc_all alloc ns s = Some (Inr (pointers bs, t))"
    "list_all2 (\<lambda>n b. unat n \<le> snd b) ns bs" "distinct bs" "set bs \<inter> A = {}" "holds t (A \<union> set bs)"
    using alloc_all_blocks [of s A ns 0] assms by auto
  moreover have "A \<union> set bs - set bs = A"
    using t(4) by blast
  ultimately show ?thesis
    using free_all_blocks [OF t(5,3)] by auto
qed

end

interpretation kernel_heap: block_allocator kmalloc kfree heap_ok heap_room kmalloc_pages
proof unfold_locales
  show "\<exists>x m t. kmalloc n s = Some (Inr (of_nat x, t)) \<and> unat n \<le> m \<and> (x, m) \<notin> A \<and>
      heap_ok t (insert (x, m) A) \<and> heap_room t r"
    if "heap_ok s A" "0 < unat n" "heap_room s (r + kmalloc_pages (unat n))"
    for s :: "'a heap_scheme" and A n r
    using kmalloc_ok [OF that] by blast
  show "\<exists>t. kfree (of_nat x) s = Inr t \<and> heap_ok t (A - {(x, m)})"
    if "heap_ok s A" "(x, m) \<in> A" for s :: "'a heap_scheme" and A x m
    using kfree_ok [OF that] by blast
qed

section \<open>Properties\<close>

lemma heap_ok_disjoint: "heap_ok s A \<Longrightarrow> ranges_disjoint A"
  using allocated_disjoint by (auto simp: heap_ok_def)

lemma heap_ok_mapped:
  assumes "heap_ok s A" "(x, m) \<in> A" "x \<le> unat v" "unat v < x + m"
  shows "translate (mem s) (cr3 s) v \<noteq> None"
proof -
  obtain bs where bs: "heap_wf s bs" "(x, m) \<in> allocated heap_start bs"
    using assms(1,2) by (auto simp: heap_ok_def)
  then show ?thesis
    using allocated_range [OF bs(2)] assms(3,4) by (auto simp: heap_wf_def heap_space_def mapped_below_def)
qed

text \<open>
  C11. while enough pages are left kmalloc returns, for every nonzero size, with the address of a
  fresh block that is aligned to 8 bytes, large enough, mapped and disjoint from every block
  handed out before; it needs at most kmalloc_pages of the size in new pages and changes only the
  heap, the page bitmap and the page tables
\<close>

theorem kmalloc_allocates:
  fixes s :: "'a heap_scheme"
  assumes "heap_ok s A" "0 < unat sz" "heap_room s (r + kmalloc_pages (unat sz))"
  shows "\<exists>x m t. kmalloc sz s = Some (Inr (of_nat x, t)) \<and> unat sz \<le> m \<and> x mod 8 = 0 \<and> (x, m) \<notin> A \<and>
    ranges_disjoint (insert (x, m) A) \<and> heap_ok t (insert (x, m) A) \<and> heap_room t r \<and> heap_change s t \<and>
    (\<forall>v. x \<le> unat v \<and> unat v < x + m \<longrightarrow> translate (mem t) (cr3 t) v \<noteq> None)"
proof -
  obtain x m t where t: "kmalloc sz s = Some (Inr (of_nat x, t))" "unat sz \<le> m" "x mod 8 = 0" "(x, m) \<notin> A"
    "heap_ok t (insert (x, m) A)" "heap_room t r" "heap_change s t"
    using kmalloc_ok [OF assms] by (elim exE conjE)
  with heap_ok_disjoint [OF t(5)] heap_ok_mapped [OF t(5), of x m] show ?thesis
    by (intro exI [of _ x] exI [of _ m] exI [of _ t]) simp
qed

text \<open>
  C13. when some block fits, kmalloc refines first fit on the sequence of blocks: it takes the
  first free block of at least the rounded size and splits it exactly when the rest has room for a
  header and eight bytes
\<close>

theorem kmalloc_first_fit:
  assumes wf: "heap_wf s (pre @ (n, True) # post)" and sz: "0 < unat sz" "rounded (unat sz) \<le> n"
    and first: "list_all (\<lambda>b. \<not> fits (rounded (unat sz)) b) pre"
  shows "\<exists>N. kmalloc sz s = Some (Inr (block_at pre + sizeof_node, s\<lparr>nodes := N\<rparr>)) \<and>
    heap_wf (s\<lparr>nodes := N\<rparr>) (pre @ take_block (rounded (unat sz)) n @ post)"
  using assms by (rule kmalloc_fit_ok)

text \<open>
  C12. kfree of a block that is handed out returns, takes exactly that block out of the blocks
  handed out and leaves a well-formed heap without neighbouring free blocks
\<close>

theorem kfree_releases:
  assumes "heap_ok s A" "(x, n) \<in> A"
  shows "\<exists>N. kfree (of_nat x) s = Inr (s\<lparr>nodes := N\<rparr>) \<and> heap_ok (s\<lparr>nodes := N\<rparr>) (A - {(x, n)})"
  using assms by (rule kfree_ok)

text \<open>
  Kheap_init maps the initial 512 pages and leaves one free block of 2 MB less its header.
\<close>

theorem kheap_init_empty:
  fixes s :: "'a heap_scheme"
  assumes "tty_lock s = 0" "vmm_ok s" "0 \<notin> free_pages s" "heap_current_end s = KHEAP_START" "heap_room s (r + 512)"
  shows "\<exists>t. kheap_init s = Inr t \<and> heap_wf t [(2097136, True)] \<and> heap_ok t {} \<and> heap_room t r"
  using kheap_init_ok [OF assms] by blast



text \<open>A request that wraps around when it is rounded is served by any free block.\<close>

lemma kmalloc_rounds_to_zero:
  assumes "4294967289 \<le> unat sz"
  shows "(sz + 7) AND NOT 7 = (0 :: u32)"
proof -
  have "unat (sz + 7) = unat sz + 7 - 4294967296"
    using assms by (simp add: unat_plus_if')
  then have "unat (sz + 7) div 8 = 0"
    using unat_u32_bound [of sz] by (simp del: unat_u32_bound)
  then have "(sz + 7) div 8 = 0"
    by (simp add: word_unat_eq_iff unat_div)
  moreover have "(sz + 7) AND NOT 7 = push_bit 3 (drop_bit 3 (sz + 7))"
    using clear_low_bits [of "sz + 7" 3] by (simp add: mask_eq_exp_minus_1)
  ultimately show ?thesis
    by (simp add: push_bit_eq_mult drop_bit_eq_div)
qed

lemma set_node_returns: "header_mapped s p \<Longrightarrow> \<exists>N. set_node p f s = Inr (s\<lparr>nodes := N\<rparr>)"
  by (auto simp: set_node_def)

lemma kmalloc_take_returns:
  assumes "header_mapped s p"
    "\<not> node_size (nodes s p) < sz + sizeof_node + 8 \<Longrightarrow> header_mapped s (p + sizeof_node + sz)"
    "node_next (nodes s p) = 0 \<or> header_mapped s (node_next (nodes s p))"
  shows "\<exists>t. kmalloc_take sz p s = Inr (p + sizeof_node, t)"
  using assms by (auto simp: kmalloc_take_def kmalloc_split_def get_node_def set_node_def Let_def)

text \<open>
  C15. a request of more than 2^32 - 8 bytes wraps to zero when it is rounded, and kmalloc returns
  the first free block whatever its size
\<close>

theorem kmalloc_overflow:
  assumes wf: "heap_wf s (pre @ (n, True) # post)" and used: "list_all (\<lambda>b. \<not> snd b) pre"
    and sz: "4294967289 \<le> unat sz"
  shows "\<exists>t. kmalloc sz s = Some (Inr (block_at pre + sizeof_node, t))"
proof -
  let ?p = "block_at pre"
  note hp = heap_header [OF wf] and np = heap_node [OF wf]
  have "sz \<noteq> 0"
    using sz by auto
  then have "kmalloc sz s = kmalloc_loop 0 (heap_head s) s"
    using kmalloc_rounds_to_zero [OF sz] by (simp add: kmalloc_def)
  also have "heap_head s = block_at []"
    using wf by (simp add: heap_wf_def heap_start_def)
  also have "kmalloc_loop 0 (block_at []) s = kmalloc_loop 0 ?p s"
    using kmalloc_loop_skip [of s "[]" pre "(n, True) # post" 0 0] wf used by (simp add: fits_def)
  also have "\<dots> = Some (kmalloc_take 0 ?p s)"
    using kmalloc_loop_block [OF wf, of 0 0] by simp
  finally have run: "kmalloc sz s = Some (kmalloc_take 0 ?p s)" .
  have end_: "heap_start + extent (pre @ (n, True) # post) = unat (heap_current_end s)" "mapped_below s (heap_current_end s)"
    using wf by (simp_all only: heap_wf_def heap_space_def)
  have "header_mapped s (?p + sizeof_node + 0)" if "\<not> node_size (nodes s ?p) < 0 + sizeof_node + 8"
  proof (rule mapped_header [OF end_(2)])
    have n: "24 \<le> n"
      using that np(1) heap_block_size(2) [OF wf] by (simp add: word_less_nat_alt sizeof_node_def)
    have small: "unat ?p + 16 < 4294967296"
      unfolding hp(2) using heap_wf_bound(2) [OF wf] by (simp add: heap_bounds)
    have q: "unat (?p + sizeof_node + 0) = unat ?p + 16"
      unfolding add_0_right using small by (subst unat_add_small) (simp_all add: sizeof_node_def del: of_nat_add)
    show "heap_start \<le> unat (?p + sizeof_node + 0)"
      unfolding q hp(2) by simp
    show "unat (?p + sizeof_node + 0) + 16 \<le> unat (heap_current_end s)"
      unfolding q hp(2) end_(1) [symmetric] using n by simp
  qed
  moreover have "node_next (nodes s ?p) = 0 \<or> header_mapped s (node_next (nodes s ?p))"
    using heap_header(1) [of s "pre @ [(n, True)]" "hd post" "tl post"] wf np(1)
    by (cases "post = []") (simp_all del: of_nat_add)
  ultimately show ?thesis
    using run kmalloc_take_returns [OF hp(1), of 0] by auto
qed


section \<open>Instances\<close>

definition boot_heap :: heap where
  "boot_heap = vmm.extend boot_vmm
     (heap.fields (\<lambda>_. \<lparr>node_size = 0, node_free = False, node_next = 0, node_prev = 0\<rparr>) 0 KHEAP_START)"

lemma boot_heap_simps [simp]: "tty_lock boot_heap = 0" "heap_current_end boot_heap = KHEAP_START"
  by (simp_all add: boot_heap_def boot_vmm_def boot_pmm_def boot_idt_def boot_cpu_def boot_kbd_def boot_tty_def boot_hw_def
      hw.defs tty.defs kbd.defs cpu.defs idt.defs pmm.defs vmm.defs heap.defs)

lemma vmm_init_example_heap:
  "\<exists>s. vmm_init (pmm_8mb boot_heap) = Inr s \<and> vmm_ok s \<and> tty_lock s = 0 \<and> 0 \<notin> free_pages s \<and>
     heap_current_end s = KHEAP_START \<and> heap_room s (510 + 512)"
proof -
  obtain s where s: "vmm_init (pmm_8mb boot_heap) = Inr s" "vmm_ok s" "tty_lock s = 0" "card (free_pages s) = 2045"
    "0 \<notin> free_pages s" "vmm_change (pmm_8mb boot_heap) s"
    using vmm_init_example [of boot_heap] by auto
  have "heap_current_end s = KHEAP_START"
    using s(6) by (auto simp: vmm_change_def pmm_8mb_def)
  with s show ?thesis
    by (auto simp: heap_room_def heap_bounds KHEAP_START_def)
qed

lemma heap_example:
  obtains s t where "vmm_init (pmm_8mb boot_heap) = Inr s" "kheap_init s = Inr t" "heap_wf t [(2097136, True)]"
    "heap_ok t {}" "heap_room t 510"
  using vmm_init_example_heap kheap_init_ok by metis

text \<open>
  An instance of the statement above.
\<close>

theorem kheap_init_empty_witness:
  "\<exists>s t. vmm_init (pmm_8mb boot_heap) = Inr s \<and> kheap_init s = Inr t \<and> heap_ok t {} \<and> heap_room t 510"
  using vmm_init_example_heap kheap_init_empty by metis

text \<open>
  An instance of C11.
\<close>

theorem kmalloc_allocates_witness:
  "\<exists>s t x m u. vmm_init (pmm_8mb boot_heap) = Inr s \<and> kheap_init s = Inr t \<and>
     kmalloc 100 t = Some (Inr (of_nat x, u)) \<and> 100 \<le> m \<and> heap_ok u {(x, m)}"
proof -
  obtain s t where t: "vmm_init (pmm_8mb boot_heap) = Inr s" "kheap_init s = Inr t" "heap_ok t {}" "heap_room t 510"
    by (rule heap_example)
  have "heap_room t (509 + kmalloc_pages (unat (100 :: u32)))"
    using t(4) by (simp add: kmalloc_pages_def heap_pages_def rounded_def)
  from kmalloc_allocates [OF t(3) _ this] show ?thesis
    using t(1,2) by auto
qed

text \<open>
  An instance of C13.
\<close>

theorem kmalloc_first_fit_witness:
  "\<exists>s t u. vmm_init (pmm_8mb boot_heap) = Inr s \<and> kheap_init s = Inr t \<and>
     kmalloc 100 t = Some (Inr (KHEAP_START + 16, u)) \<and> heap_wf u [(104, False), (2097016, True)]"
proof -
  obtain s t where t: "vmm_init (pmm_8mb boot_heap) = Inr s" "kheap_init s = Inr t" "heap_wf t [(2097136, True)]"
    by (rule heap_example)
  from kmalloc_first_fit [of t "[]" 2097136 "[]" 100] t show ?thesis
    by (auto simp: rounded_def take_block_def heap_start_def sizeof_node_def)
qed

text \<open>
  An instance of C12.
\<close>

theorem kfree_releases_witness:
  "\<exists>t x m u N. kmalloc 100 t = Some (Inr (of_nat x, u)) \<and> kfree (of_nat x) u = Inr (u\<lparr>nodes := N\<rparr>) \<and>
     heap_ok (u\<lparr>nodes := N\<rparr>) {} \<and> heap_ok (t :: heap) {} \<and> heap_ok u {(x, m)}"
proof -
  obtain s t where t: "kheap_init s = Inr (t :: heap)" "heap_ok t {}" "heap_room t 510"
    by (rule heap_example)
  have "heap_room t (509 + kmalloc_pages (unat (100 :: u32)))"
    using t(3) by (simp add: kmalloc_pages_def heap_pages_def rounded_def)
  from kmalloc_ok [OF t(2) _ this] obtain x m u where u: "kmalloc 100 t = Some (Inr (of_nat x, u))" "heap_ok u {(x, m)}"
    by auto
  from kfree_releases [OF u(2), of x m] obtain N where "kfree (of_nat x) u = Inr (u\<lparr>nodes := N\<rparr>)"
    "heap_ok (u\<lparr>nodes := N\<rparr>) {}"
    by auto
  with u t(2) show ?thesis
    by (intro exI conjI)
qed


text \<open>
  An instance of C15.
\<close>

theorem kmalloc_overflow_witness:
  "\<exists>s t u. vmm_init (pmm_8mb boot_heap) = Inr s \<and> kheap_init s = Inr t \<and>
     kmalloc 0xFFFFFFFF t = Some (Inr (KHEAP_START + 16, u))"
proof -
  obtain s t where t: "vmm_init (pmm_8mb boot_heap) = Inr s" "kheap_init s = Inr t" "heap_wf t [(2097136, True)]"
    by (rule heap_example)
  from kmalloc_overflow [of t "[]" 2097136 "[]" "0xFFFFFFFF"] t show ?thesis
    by (auto simp: heap_start_def sizeof_node_def)
qed

end
