(* ===== verification/Task.thy ===== *)
theory Task
  imports Heap
begin

text \<open>
  Kernel tasks (\<^verbatim>\<open>kernel/task.cpp\<close>, \<^verbatim>\<open>kernel/task.h\<close>) and the switch between them
  (\<^verbatim>\<open>process/switch.S\<close>). \<open>tasks\<close> is the task structure that lies at an address and
  \<open>stack_words\<close> the 32-bit word that lies at an address of a kernel stack; an access is \<open>Wild\<close>
  if its bytes are not mapped. The registers are those that \<open>switch_to\<close> saves and restores,
  with the stack pointer and the instruction pointer.

  The ready queue is a ring of distinct tasks (\<open>queue\<close>); \<open>schedule\<close> moves to the next task of
  the ring and restores exactly the registers that were saved when that task was left.
\<close>

section \<open>The state\<close>

record task_t =
  task_esp :: u32
  kstack_bottom :: u32
  task_id :: u32
  task_next :: u32
  task_running :: bool

record task = heap +
  tasks :: "u32 \<Rightarrow> task_t"
  stack_words :: "u32 \<Rightarrow> u32"
  current_task :: u32
  ready_queue :: u32
  next_tid :: u32
  reg_esp :: u32
  reg_ebp :: u32
  reg_ebx :: u32
  reg_esi :: u32
  reg_edi :: u32
  reg_eip :: u32

definition sizeof_task :: u32 where "sizeof_task = 20"

definition bytes_mapped :: "nat \<Rightarrow> 'a vmm_scheme \<Rightarrow> u32 \<Rightarrow> bool" where
  "bytes_mapped n s p \<longleftrightarrow> list_all (\<lambda>k. translate (mem s) (cr3 s) (p + of_nat k) \<noteq> None) [0..<n]"

definition get_task :: "u32 \<Rightarrow> 'a task_scheme \<Rightarrow> task_t outcome" where
  "get_task p s = (if bytes_mapped 20 s p then Inr (tasks s p) else Inl Wild)"

definition set_task :: "u32 \<Rightarrow> (task_t \<Rightarrow> task_t) \<Rightarrow> 'a task_scheme \<Rightarrow> 'a task_scheme outcome" where
  "set_task p f s =
     (if bytes_mapped 20 s p then Inr (s\<lparr>tasks := (tasks s)(p := f (tasks s p))\<rparr>) else Inl Wild)"

definition get_word :: "u32 \<Rightarrow> 'a task_scheme \<Rightarrow> u32 outcome" where
  "get_word p s = (if bytes_mapped 4 s p then Inr (stack_words s p) else Inl Wild)"

definition set_word :: "u32 \<Rightarrow> u32 \<Rightarrow> 'a task_scheme \<Rightarrow> 'a task_scheme outcome" where
  "set_word p v s =
     (if bytes_mapped 4 s p then Inr (s\<lparr>stack_words := (stack_words s)(p := v)\<rparr>) else Inl Wild)"

text \<open>A call of \<open>kmalloc\<close>; a search that never ends is a hang.\<close>

definition kmalloc_call :: "u32 \<Rightarrow> 'a heap_scheme \<Rightarrow> (u32 \<times> 'a heap_scheme) outcome" where
  "kmalloc_call n s = (case kmalloc n s of None \<Rightarrow> Inl Hang | Some r \<Rightarrow> r)"

section \<open>The switch\<close>

definition push :: "u32 \<Rightarrow> 'a task_scheme \<Rightarrow> 'a task_scheme outcome" where
  "push v s = set_word (reg_esp s - 4) v (s\<lparr>reg_esp := reg_esp s - 4\<rparr>)"

definition pop :: "'a task_scheme \<Rightarrow> (u32 \<times> 'a task_scheme) outcome" where
  "pop s = bind_outcome (get_word (reg_esp s) s) (\<lambda>v. Inr (v, s\<lparr>reg_esp := reg_esp s + 4\<rparr>))"

text \<open>
  \<open>switch_to\<close>, instruction by instruction: the half that saves, up to the load of the new stack
  pointer, and the half that restores. \<^verbatim>\<open>mov %esp, (%eax)\<close> writes the first field of a task.
\<close>

definition switch_save :: "'a task_scheme \<Rightarrow> 'a task_scheme outcome" where
  "switch_save s =
     bind_outcome (push (reg_ebp s) s) (\<lambda>s.
     bind_outcome (push (reg_ebx s) s) (\<lambda>s.
     bind_outcome (push (reg_esi s) s) (\<lambda>s.
     bind_outcome (push (reg_edi s) s) (\<lambda>s.
     bind_outcome (get_word (reg_esp s + 20) s) (\<lambda>eax.
     bind_outcome (set_task eax (\<lambda>t. t\<lparr>task_esp := reg_esp s\<rparr>) s) (\<lambda>s.
     bind_outcome (get_word (reg_esp s + 24) s) (\<lambda>esp.
       Inr (s\<lparr>reg_esp := esp\<rparr>))))))))"

definition switch_restore :: "'a task_scheme \<Rightarrow> 'a task_scheme outcome" where
  "switch_restore s =
     bind_outcome (pop s) (\<lambda>(edi, s).
     bind_outcome (pop (s\<lparr>reg_edi := edi\<rparr>)) (\<lambda>(esi, s).
     bind_outcome (pop (s\<lparr>reg_esi := esi\<rparr>)) (\<lambda>(ebx, s).
     bind_outcome (pop (s\<lparr>reg_ebx := ebx\<rparr>)) (\<lambda>(ebp, s).
     bind_outcome (pop (s\<lparr>reg_ebp := ebp\<rparr>)) (\<lambda>(eip, s).
       Inr (s\<lparr>reg_eip := eip\<rparr>))))))"

definition switch_to :: "'a task_scheme \<Rightarrow> 'a task_scheme outcome" where
  "switch_to s = bind_outcome (switch_save s) switch_restore"

text \<open>The call: the arguments, last first, and the return address \<open>ret\<close> behind the call.\<close>

definition call_switch_to :: "u32 \<Rightarrow> u32 \<Rightarrow> u32 \<Rightarrow> 'a task_scheme \<Rightarrow> 'a task_scheme outcome" where
  "call_switch_to ret old_esp new_esp s =
     bind_outcome (push new_esp s) (\<lambda>s. bind_outcome (push old_esp s) (\<lambda>s. bind_outcome (push ret s) switch_to))"

section \<open>The operations\<close>

definition tasking_init :: "'a task_scheme \<Rightarrow> 'a task_scheme outcome" where
  "tasking_init s =
     bind_outcome (kmalloc_call sizeof_task s) (\<lambda>(p, s).
     let s = s\<lparr>current_task := p\<rparr>
     in bind_outcome (set_task p (\<lambda>t. t\<lparr>task_id := next_tid s\<rparr>) s) (\<lambda>s.
        let s = s\<lparr>next_tid := next_tid s + 1\<rparr>
        in bind_outcome (set_task p (\<lambda>t. t\<lparr>task_running := True\<rparr>) s) (\<lambda>s.
           bind_outcome (set_task p (\<lambda>t. t\<lparr>task_next := p\<rparr>) s) (\<lambda>s.
           let s = s\<lparr>ready_queue := p\<rparr>
           in bind_outcome (get_task p s) (\<lambda>t.
              print (''Multitasking initialized. Current Task ID: %d'' @ [newline_char]) [PInt (task_id t)] s)))))"

text \<open>The five words of the first frame, from the top of the stack down.\<close>

definition initial_frame :: "u32 \<Rightarrow> u32 \<Rightarrow> 'a task_scheme \<Rightarrow> 'a task_scheme outcome" where
  "initial_frame start stack s =
     bind_outcome (set_word (stack - 4) start s) (\<lambda>s.
     bind_outcome (set_word (stack - 8) 0 s) (\<lambda>s.
     bind_outcome (set_word (stack - 12) 0 s) (\<lambda>s.
     bind_outcome (set_word (stack - 16) 0 s) (\<lambda>s.
       set_word (stack - 20) 0 s))))"

definition task_create :: "u32 \<Rightarrow> 'a task_scheme \<Rightarrow> 'a task_scheme outcome" where
  "task_create start s =
     bind_outcome (kmalloc_call sizeof_task s) (\<lambda>(new_task, s).
     bind_outcome (set_task new_task (\<lambda>t. t\<lparr>task_id := next_tid s\<rparr>) s) (\<lambda>s.
     bind_outcome (kmalloc_call 4096 (s\<lparr>next_tid := next_tid s + 1\<rparr>)) (\<lambda>(stack_mem, s).
     bind_outcome (set_task new_task (\<lambda>t. t\<lparr>kstack_bottom := stack_mem\<rparr>) s) (\<lambda>s.
     bind_outcome (initial_frame start (stack_mem + 4096) s) (\<lambda>s.
     bind_outcome (set_task new_task (\<lambda>t. t\<lparr>task_esp := stack_mem + 4096 - 20\<rparr>) s) (\<lambda>s.
     bind_outcome (get_task (ready_queue s) s) (\<lambda>q.
     bind_outcome (set_task new_task (\<lambda>t. t\<lparr>task_next := task_next q\<rparr>) s) (\<lambda>s.
     bind_outcome (set_task (ready_queue s) (\<lambda>t. t\<lparr>task_next := new_task\<rparr>) s) (\<lambda>s.
     bind_outcome (get_task new_task s) (\<lambda>t.
       print (''Task created: ID %d, Stack: 0x%x'' @ [newline_char]) [PInt (task_id t), PInt (task_esp t)] s))))))))))"

definition schedule :: "u32 \<Rightarrow> 'a task_scheme \<Rightarrow> 'a task_scheme outcome" where
  "schedule ret s =
     (if current_task s = 0 then Inr s
      else let old_task = current_task s
      in bind_outcome (get_task old_task s) (\<lambda>old.
         let new_task = task_next old
         in if old_task = new_task then Inr s
            else let s = s\<lparr>current_task := new_task\<rparr>
            in bind_outcome (get_task new_task s) (\<lambda>new.
               call_switch_to ret old_task (task_esp new) (tss_set_stack (kstack_bottom new + 4096) s))))"

text \<open>
  The loop of \<open>task_print_list\<close>: one line for each task until the next one is the first again.
  \<open>None\<close> is a walk that never comes back.
\<close>

partial_function (option) print_tasks :: "u32 \<Rightarrow> u32 \<Rightarrow> 'a task_scheme \<Rightarrow> 'a task_scheme outcome option" where
  "print_tasks first cur s =
     (case get_task cur s of
        Inl e \<Rightarrow> Some (Inl e)
      | Inr t \<Rightarrow>
          (case print (''%d     0x%x       %s'' @ [newline_char])
             [PInt (task_id t), PInt (task_esp t), PStr (Some (if cur = current_task s then ''Running'' else ''Ready''))] s of
             Inl e \<Rightarrow> Some (Inl e)
           | Inr s \<Rightarrow> if task_next t = first then Some (Inr s) else print_tasks first (task_next t) s))"

definition task_print_list :: "'a task_scheme \<Rightarrow> 'a task_scheme outcome option" where
  "task_print_list s =
     (case bind_outcome (print (''ID    Stack Pointer    Status'' @ [newline_char]) [] s)
             (print (''-----------------------------'' @ [newline_char]) []) of
        Inl e \<Rightarrow> Some (Inl e)
      | Inr s \<Rightarrow> print_tasks (ready_queue s) (ready_queue s) s)"


section \<open>What the operations leave alone\<close>

definition heap_same :: "'a heap_scheme \<Rightarrow> 'a heap_scheme \<Rightarrow> bool" where
  "heap_same s t \<longleftrightarrow> mem t = mem s \<and> cr3 t = cr3 s \<and> pmm_bitmap t = pmm_bitmap s \<and>
     pmm_max_blocks t = pmm_max_blocks s \<and> pmm_used_blocks t = pmm_used_blocks s \<and> nodes t = nodes s \<and>
     heap_head t = heap_head s \<and> heap_current_end t = heap_current_end s"

lemma heap_same_ok:
  assumes "heap_same s t"
  shows "heap_ok t = heap_ok s" "heap_room t = heap_room s" "bytes_mapped n t = bytes_mapped n s"
    "heap_free t = heap_free s"
proof -
  have f: "free_pages t = free_pages s" "mapped_below t x = mapped_below s x" "vmm_ok t = vmm_ok s" for x
    using assms
    by (simp_all add: heap_same_def vmm_ok_def pmm_ok_def bitmap_ok_def used_pages_def free_pages_def mmap_test_def
        in_bitmap_def mapped_below_def)
  then have "heap_wf t bs = heap_wf s bs" for bs
    using assms by (simp add: heap_wf_def heap_space_def heap_same_def)
  then show "heap_ok t = heap_ok s" "heap_free t = heap_free s"
    by (simp_all add: heap_ok_def heap_free_def fun_eq_iff)
  show "heap_room t = heap_room s"
    using f assms by (simp add: heap_room_def heap_same_def fun_eq_iff)
  have "mem t = mem s" "cr3 t = cr3 s"
    using assms by (simp_all only: heap_same_def)
  then show "bytes_mapped n t = bytes_mapped n s"
    by (intro ext) (simp only: bytes_mapped_def)
qed

lemma task_frame [simp]:
  "heap_same s (s\<lparr>tasks := x1\<rparr>)" "heap_same s (s\<lparr>stack_words := x2\<rparr>)" "heap_same s (s\<lparr>current_task := v\<rparr>)"
  "heap_same s (s\<lparr>ready_queue := v\<rparr>)" "heap_same s (s\<lparr>next_tid := v\<rparr>)" "heap_same s (s\<lparr>reg_esp := v\<rparr>)"
  "heap_same s (s\<lparr>reg_ebp := v\<rparr>)" "heap_same s (s\<lparr>reg_ebx := v\<rparr>)" "heap_same s (s\<lparr>reg_esi := v\<rparr>)"
  "heap_same s (s\<lparr>reg_edi := v\<rparr>)" "heap_same s (s\<lparr>reg_eip := v\<rparr>)" "heap_same s (s\<lparr>tss := x3\<rparr>)"
  by (simp_all add: heap_same_def)

lemmas task_frame_ok [simp] = task_frame [THEN heap_same_ok(1)] task_frame [THEN heap_same_ok(2)]
  task_frame [THEN heap_same_ok(3)]

lemma bytes_mapped_prefix: "bytes_mapped n s p \<Longrightarrow> m \<le> n \<Longrightarrow> bytes_mapped m s p"
  by (simp add: bytes_mapped_def list_all_iff)

section \<open>A switch\<close>

text \<open>The registers that a switch saves, as a list, and where it saves them.\<close>

definition registers :: "'a task_scheme \<Rightarrow> u32 list" where
  "registers s = [reg_edi s, reg_esi s, reg_ebx s, reg_ebp s, reg_eip s]"

definition frame_words :: "u32 \<Rightarrow> u32 list" where
  "frame_words p = [p, p + 4, p + 8, p + 12, p + 16]"

definition saved :: "'a task_scheme \<Rightarrow> u32 \<Rightarrow> u32 list" where
  "saved s p = List.map (stack_words s) (frame_words (task_esp (tasks s p)))"

definition call_words :: "u32 \<Rightarrow> u32 list" where
  "call_words p = [p - 4, p - 8, p - 12, p - 16, p - 20, p - 24, p - 28]"

text \<open>The \<open>n\<close> words below an address, from the top down.\<close>

primrec below :: "nat \<Rightarrow> u32 \<Rightarrow> u32 list" where
  "below 0 e = []"
| "below (Suc n) e = (e - 4) # below n (e - 4)"

lemma below_25: "below 25 e = [e - 4, e - 8, e - 12, e - 16, e - 20, e - 24, e - 28, e - 32, e - 36, e - 40, e - 44, e - 48, e - 52, e - 56, e - 60, e - 64, e - 68, e - 72, e - 76, e - 80, e - 84, e - 88, e - 92, e - 96, e - 100]"
  by (simp add: numeral_eq_Suc)

lemma push_run:
  assumes "bytes_mapped 4 s (reg_esp s - 4)"
  shows "push v s = Inr (s\<lparr>stack_words := (stack_words s)(reg_esp s - 4 := v), reg_esp := reg_esp s - 4\<rparr>)"
  using assms by (simp add: push_def set_word_def)

lemma pop_run:
  assumes "bytes_mapped 4 s (reg_esp s)"
  shows "pop s = Inr (stack_words s (reg_esp s), s\<lparr>reg_esp := reg_esp s + 4\<rparr>)"
  using assms by (simp add: pop_def get_word_def)

lemma switch_restore_run:
  assumes "list_all (bytes_mapped 4 s) (frame_words (reg_esp s))"
  shows "switch_restore s = Inr (s\<lparr>reg_edi := stack_words s (reg_esp s), reg_esi := stack_words s (reg_esp s + 4),
    reg_ebx := stack_words s (reg_esp s + 8), reg_ebp := stack_words s (reg_esp s + 12),
    reg_eip := stack_words s (reg_esp s + 16), reg_esp := reg_esp s + 20\<rparr>)"
  using assms by (simp add: switch_restore_def pop_run frame_words_def ac_simps)

definition call_store :: "u32 \<Rightarrow> u32 \<Rightarrow> u32 \<Rightarrow> 'a task_scheme \<Rightarrow> u32 \<Rightarrow> u32" where
  "call_store ret old new_esp s =
     (stack_words s)(reg_esp s - 4 := new_esp, reg_esp s - 8 := old, reg_esp s - 12 := ret, reg_esp s - 16 := reg_ebp s,
       reg_esp s - 20 := reg_ebx s, reg_esp s - 24 := reg_esi s, reg_esp s - 28 := reg_edi s)"

lemma call_store_simps:
  "call_store ret old new_esp s (reg_esp s - 4) = new_esp" "call_store ret old new_esp s (reg_esp s - 8) = old"
  "List.map (call_store ret old new_esp s) (frame_words (reg_esp s - 28)) = [reg_edi s, reg_esi s, reg_ebx s, reg_ebp s, ret]"
  "a \<notin> set (call_words (reg_esp s)) \<Longrightarrow> call_store ret old new_esp s a = stack_words s a"
  by (simp_all add: call_store_def frame_words_def call_words_def)

lemma call_save_run:
  fixes s :: "'a task_scheme"
  assumes stack: "list_all (bytes_mapped 4 s) (call_words (reg_esp s))" and old: "bytes_mapped 20 s old"
  shows "bind_outcome (push new_esp s) (\<lambda>s. bind_outcome (push old s) (\<lambda>s. bind_outcome (push ret s) switch_save)) =
    Inr (s\<lparr>stack_words := call_store ret old new_esp s,
      tasks := (tasks s)(old := (tasks s old)\<lparr>task_esp := reg_esp s - 28\<rparr>), reg_esp := new_esp\<rparr>)"
proof -
  let ?e = "reg_esp s" and ?W = "call_store ret old new_esp s"
  define u where "u = s\<lparr>stack_words := ?W, reg_esp := ?e - 28\<rparr>"
  have m: "bytes_mapped 4 s (?e - 4)" "bytes_mapped 4 s (?e - 8)" "bytes_mapped 4 s (?e - 12)"
    "bytes_mapped 4 s (?e - 16)" "bytes_mapped 4 s (?e - 20)" "bytes_mapped 4 s (?e - 24)" "bytes_mapped 4 s (?e - 28)"
    using stack by (simp_all add: call_words_def)
  have e: "?e - 28 + 20 = ?e - 8" "?e - 28 + 24 = ?e - 4"
    by simp_all
  have u: "get_word (reg_esp u + 20) u = Inr old" "set_task old f u = Inr (u\<lparr>tasks := (tasks s)(old := f (tasks s old))\<rparr>)"
    "get_word (reg_esp u + 24) (u\<lparr>tasks := T\<rparr>) = Inr new_esp" for f T
    using m(1,2) old by (simp_all add: u_def e get_word_def set_task_def call_store_simps)
  have "bind_outcome (push new_esp s) (\<lambda>s. bind_outcome (push old s) (\<lambda>s. bind_outcome (push ret s) switch_save)) =
     bind_outcome (get_word (reg_esp u + 20) u) (\<lambda>eax.
     bind_outcome (set_task eax (\<lambda>t. t\<lparr>task_esp := reg_esp u\<rparr>) u) (\<lambda>s.
     bind_outcome (get_word (reg_esp s + 24) s) (\<lambda>esp. Inr (s\<lparr>reg_esp := esp\<rparr>))))"
    using m by (simp add: switch_save_def push_run u_def call_store_def)
  then show ?thesis
    by (simp add: u) (simp add: u_def)
qed

lemma call_switch_run:
  fixes s :: "'a task_scheme"
  assumes stack: "list_all (bytes_mapped 4 s) (call_words (reg_esp s))"
    and frame: "list_all (bytes_mapped 4 s) (frame_words new_esp)"
    and disj: "set (frame_words new_esp) \<inter> set (call_words (reg_esp s)) = {}"
    and old: "bytes_mapped 20 s old"
  shows "call_switch_to ret old new_esp s = Inr (s\<lparr>stack_words := call_store ret old new_esp s,
      tasks := (tasks s)(old := (tasks s old)\<lparr>task_esp := reg_esp s - 28\<rparr>),
      reg_edi := stack_words s new_esp, reg_esi := stack_words s (new_esp + 4),
      reg_ebx := stack_words s (new_esp + 8), reg_ebp := stack_words s (new_esp + 12),
      reg_eip := stack_words s (new_esp + 16), reg_esp := new_esp + 20\<rparr>)"
proof -
  let ?u = "s\<lparr>stack_words := call_store ret old new_esp s,
      tasks := (tasks s)(old := (tasks s old)\<lparr>task_esp := reg_esp s - 28\<rparr>), reg_esp := new_esp\<rparr>"
  have "call_switch_to ret old new_esp s = bind_outcome
      (bind_outcome (push new_esp s) (\<lambda>s. bind_outcome (push old s) (\<lambda>s. bind_outcome (push ret s) switch_save)))
      switch_restore"
    by (simp add: call_switch_to_def switch_to_def [abs_def] bind_outcome_assoc)
  also have "\<dots> = switch_restore ?u"
    by (simp add: call_save_run [OF stack old])
  also have "\<dots> = Inr (?u\<lparr>reg_edi := stack_words ?u new_esp, reg_esi := stack_words ?u (new_esp + 4),
      reg_ebx := stack_words ?u (new_esp + 8), reg_ebp := stack_words ?u (new_esp + 12),
      reg_eip := stack_words ?u (new_esp + 16), reg_esp := new_esp + 20\<rparr>)"
    using frame switch_restore_run [of ?u] by simp
  finally show ?thesis
    using disj by (simp add: call_store_simps(4) frame_words_def)
qed


section \<open>The ready queue\<close>

text \<open>
  \<open>queue s ts k\<close>: the structures at the addresses \<open>ts\<close>, from \<open>ready_queue\<close> on, are linked in a
  ring, and the task at position \<open>k\<close> of it is the current one.
\<close>

definition linked :: "(u32 \<Rightarrow> task_t) \<Rightarrow> u32 list \<Rightarrow> bool" where
  "linked T ps \<longleftrightarrow> successively (\<lambda>p q. task_next (T p) = q) ps"

definition queue :: "'a task_scheme \<Rightarrow> u32 list \<Rightarrow> nat \<Rightarrow> bool" where
  "queue s ts k \<longleftrightarrow> ts \<noteq> [] \<and> distinct ts \<and> hd ts = ready_queue s \<and> linked (tasks s) (ts @ [ready_queue s]) \<and>
     list_all (\<lambda>p. p \<noteq> 0 \<and> bytes_mapped 20 s p) ts \<and> k < length ts \<and> current_task s = ts ! k"

lemma linked_nth:
  "linked T ps \<longleftrightarrow> (\<forall>i. Suc i < length ps \<longrightarrow> task_next (T (ps ! i)) = ps ! Suc i)"
  by (auto simp: linked_def successively_conv_nth)

lemma linked_cong: "(\<And>p. task_next (T' p) = task_next (T p)) \<Longrightarrow> linked T' ps = linked T ps"
  by (simp add: linked_def)

lemma queue_next:
  assumes "queue s ts k"
  shows "task_next (tasks s (current_task s)) = ts ! (Suc k mod length ts)"
proof -
  have l: "linked (tasks s) (ts @ [ready_queue s])" and k: "k < length ts" "current_task s = ts ! k" "ready_queue s = ts ! 0"
    using assms by (auto simp: queue_def hd_conv_nth [symmetric])
  then have "task_next (tasks s ((ts @ [ready_queue s]) ! k)) = (ts @ [ready_queue s]) ! Suc k"
    unfolding linked_nth by simp
  then show ?thesis
    using k by (cases "Suc k = length ts") (simp_all add: nth_append)
qed

text \<open>
  One call of \<open>schedule\<close>: enough stack below the current stack pointer, the frame of the next
  task on its own stack.
\<close>

definition stack_room :: "'a task_scheme \<Rightarrow> bool" where
  "stack_room s \<longleftrightarrow> list_all (bytes_mapped 4 s) (call_words (reg_esp s))"

definition frame_ok :: "'a task_scheme \<Rightarrow> u32 \<Rightarrow> bool" where
  "frame_ok s p \<longleftrightarrow> list_all (bytes_mapped 4 s) (frame_words (task_esp (tasks s p))) \<and>
     set (frame_words (task_esp (tasks s p))) \<inter> set (call_words (reg_esp s)) = {}"

lemma schedule_ok:
  fixes s :: "'a task_scheme"
  assumes q: "queue s ts k" and len: "1 < length ts" and room: "stack_room s"
    and frame: "frame_ok s (ts ! (Suc k mod length ts))"
  defines "p \<equiv> current_task s" and "n \<equiv> ts ! (Suc k mod length ts)"
  shows "\<exists>t. schedule ret s = Inr t \<and> queue t ts (Suc k mod length ts) \<and> current_task t = n \<and>
    registers t = saved s n \<and> reg_esp t = task_esp (tasks s n) + 20 \<and>
    tss_esp0 (tss t) = kstack_bottom (tasks s n) + 4096 \<and>
    tasks t = (tasks s)(p := (tasks s p)\<lparr>task_esp := reg_esp s - 28\<rparr>) \<and>
    saved t p = [reg_edi s, reg_esi s, reg_ebx s, reg_ebp s, ret] \<and>
    (\<forall>a. a \<notin> set (call_words (reg_esp s)) \<longrightarrow> stack_words t a = stack_words s a) \<and>
    heap_same s t \<and> io_log t = io_log s \<and> task.more t = task.more s"
proof -
  let ?i = "Suc k mod length ts"
  have i: "?i < length ts" "?i \<noteq> k" "k < length ts"
    using q len by (auto simp: queue_def mod_Suc)
  have np: "n \<noteq> p"
    using q i by (simp add: n_def p_def queue_def nth_eq_iff_index_eq)
  have mapped: "bytes_mapped 20 s p" "bytes_mapped 20 s n" "p \<noteq> 0"
    using q i by (auto simp: queue_def list_all_length p_def n_def)
  have next_p: "task_next (tasks s p) = n"
    using queue_next [OF q] by (simp add: p_def n_def)
  let ?u = "tss_set_stack (kstack_bottom (tasks s n) + 4096) (s\<lparr>current_task := n\<rparr>)"
  have u [simp]: "reg_esp ?u = reg_esp s" "stack_words ?u = stack_words s" "tasks ?u = tasks s"
    "bytes_mapped m ?u = bytes_mapped m s" "reg_edi ?u = reg_edi s" "reg_esi ?u = reg_esi s" "reg_ebx ?u = reg_ebx s"
    "reg_ebp ?u = reg_ebp s" "current_task ?u = n" "ready_queue ?u = ready_queue s" for m
    by (simp_all add: tss_set_stack_def)
  let ?f = "task_esp (tasks s n)"
  let ?t = "?u\<lparr>stack_words := call_store ret p ?f ?u,
      tasks := (tasks s)(p := (tasks s p)\<lparr>task_esp := reg_esp s - 28\<rparr>),
      reg_edi := stack_words s ?f, reg_esi := stack_words s (?f + 4),
      reg_ebx := stack_words s (?f + 8), reg_ebp := stack_words s (?f + 12),
      reg_eip := stack_words s (?f + 16), reg_esp := ?f + 20\<rparr>"
  have "call_switch_to ret p ?f ?u = Inr ?t"
    using call_switch_run [of ?u ?f p ret] room frame [folded n_def] mapped(1)
    by (simp add: stack_room_def frame_ok_def)
  then have "schedule ret s = Inr ?t"
    using mapped np next_p by (simp add: schedule_def get_task_def Let_def p_def)
  moreover have "linked (tasks ?t) ps = linked (tasks s) ps" for ps
    by (intro linked_cong) simp
  then have "queue ?t ts ?i"
    using q i by (simp add: queue_def n_def tss_set_stack_def)
  moreover have "saved ?t p = [reg_edi s, reg_esi s, reg_ebx s, reg_ebp s, ret]"
    using call_store_simps(3) [of ret p ?f ?u] by (simp add: saved_def)
  moreover have "\<forall>a. a \<notin> set (call_words (reg_esp s)) \<longrightarrow> stack_words ?t a = stack_words s a"
    using call_store_simps(4) [of _ ?u ret p ?f] by simp
  moreover have "registers ?t = saved s n"
    by (simp add: registers_def saved_def frame_words_def)
  moreover have "heap_same s ?t"
    by (simp add: heap_same_def tss_set_stack_def)
  moreover have "io_log ?t = io_log s" "task.more ?t = task.more s"
    by (simp_all add: tss_set_stack_def)
  ultimately show ?thesis
    by (intro exI [of _ ?t]) (simp add: tss_set_stack_def)
qed

section \<open>Interleavings\<close>

text \<open>
  A run of the system: the current task executes on its own registers and its own stack \<open>R p\<close>,
  or calls \<open>schedule\<close> while its stack has room. \<open>left\<close> records the registers with which each
  task last called \<open>schedule\<close> (with the return address \<open>ret\<close>), \<open>switches\<close> counts the calls.
\<close>

record sched =
  sys :: task
  left :: "u32 \<Rightarrow> u32 list"
  switches :: nat

inductive sched_step :: "(u32 \<Rightarrow> u32 set) \<Rightarrow> u32 \<Rightarrow> sched \<Rightarrow> sched \<Rightarrow> bool" for R ret where
  execute: "\<forall>a. a \<notin> R (current_task s) \<longrightarrow> W a = stack_words s a \<Longrightarrow>
    sched_step R ret \<lparr>sys = s, left = c, switches = n\<rparr>
      \<lparr>sys = s\<lparr>stack_words := W, reg_esp := e, reg_ebp := p, reg_ebx := b, reg_esi := si, reg_edi := di, reg_eip := i\<rparr>,
       left = c, switches = n\<rparr>"
| switch: "set (call_words (reg_esp s)) \<subseteq> R (current_task s) \<Longrightarrow> schedule ret s = Inr t \<Longrightarrow>
    sched_step R ret \<lparr>sys = s, left = c, switches = n\<rparr>
      \<lparr>sys = t, left = c(current_task s := [reg_edi s, reg_esi s, reg_ebx s, reg_ebp s, ret]), switches = Suc n\<rparr>"

text \<open>The stacks of the tasks are mapped and do not overlap.\<close>

definition stacks_ok :: "(u32 \<Rightarrow> u32 set) \<Rightarrow> u32 list \<Rightarrow> 'a vmm_scheme \<Rightarrow> bool" where
  "stacks_ok R ts s \<longleftrightarrow> (\<forall>p\<in>set ts. \<forall>a\<in>R p. bytes_mapped 4 s a) \<and>
     (\<forall>p\<in>set ts. \<forall>q\<in>set ts. p \<noteq> q \<longrightarrow> R p \<inter> R q = {})"

definition sched_inv :: "(u32 \<Rightarrow> u32 set) \<Rightarrow> u32 list \<Rightarrow> nat \<Rightarrow> sched \<Rightarrow> bool" where
  "sched_inv R ts k S \<longleftrightarrow>
     (let s = sys S
      in queue s ts ((k + switches S) mod length ts) \<and> stacks_ok R ts s \<and>
        (\<forall>p\<in>set ts. p \<noteq> current_task s \<longrightarrow>
           set (frame_words (task_esp (tasks s p))) \<subseteq> R p \<and> saved s p = left S p))"

lemma stacks_same: "heap_same s t \<Longrightarrow> stacks_ok R ts t = stacks_ok R ts s"
  by (simp add: stacks_ok_def heap_same_ok)

lemma saved_cong:
  assumes "task_esp (tasks t p) = task_esp (tasks s p)"
    and "\<And>a. a \<in> set (frame_words (task_esp (tasks s p))) \<Longrightarrow> stack_words t a = stack_words s a"
  shows "saved t p = saved s p"
  using assms by (simp add: saved_def)


lemma frame_in_call: "set (frame_words (e - 28)) \<subseteq> set (call_words e)"
  by (simp add: frame_words_def call_words_def)

lemma schedule_single:
  assumes "queue s ts k" "length ts = 1"
  shows "schedule ret s = Inr s"
proof -
  have "task_next (tasks s (current_task s)) = current_task s" "bytes_mapped 20 s (current_task s)"
    using queue_next [OF assms(1)] assms by (auto simp: queue_def list_all_length)
  then show ?thesis
    by (simp add: schedule_def get_task_def)
qed

lemma sched_execute_inv:
  assumes inv: "sched_inv R ts k \<lparr>sys = s, left = c, switches = n\<rparr>"
    and own: "\<forall>a. a \<notin> R (current_task s) \<longrightarrow> W a = stack_words s a"
  shows "sched_inv R ts k \<lparr>sys = s\<lparr>stack_words := W, reg_esp := e, reg_ebp := p, reg_ebx := b, reg_esi := si,
    reg_edi := di, reg_eip := i\<rparr>, left = c, switches = n\<rparr>"
proof -
  let ?t = "s\<lparr>stack_words := W, reg_esp := e, reg_ebp := p, reg_ebx := b, reg_esi := si, reg_edi := di, reg_eip := i\<rparr>"
  have q: "queue s ts ((k + n) mod length ts)" and st: "stacks_ok R ts s"
    and f: "\<And>p. p \<in> set ts \<Longrightarrow> p \<noteq> current_task s \<Longrightarrow>
      set (frame_words (task_esp (tasks s p))) \<subseteq> R p \<and> saved s p = c p"
    using inv by (auto simp: sched_inv_def)
  have "heap_same s ?t"
    by (simp add: heap_same_def)
  note same = stacks_same [OF this, of R ts] heap_same_ok(3) [OF this]
  have cur: "current_task s \<in> set ts"
    using q by (auto simp: queue_def)
  have "queue ?t ts ((k + n) mod length ts)"
    using q by (simp add: queue_def)
  moreover have "saved ?t p = c p" if p: "p \<in> set ts" "p \<noteq> current_task s" for p
  proof -
    have "R p \<inter> R (current_task s) = {}"
      using st cur p by (auto simp: stacks_ok_def)
    then have "saved ?t p = saved s p"
      using f [OF p] own by (intro saved_cong) auto
    then show ?thesis
      using f [OF p] by simp
  qed
  ultimately show ?thesis
    using st same(1) f by (simp add: sched_inv_def)
qed

text \<open>A system that satisfies the invariant is ready for a call of \<open>schedule\<close>.\<close>

lemma sched_inv_parts:
  assumes "sched_inv R ts k S"
  shows "queue (sys S) ts ((k + switches S) mod length ts)" "stacks_ok R ts (sys S)" "current_task (sys S) \<in> set ts"
    "p \<in> set ts \<Longrightarrow> p \<noteq> current_task (sys S) \<Longrightarrow>
      set (frame_words (task_esp (tasks (sys S) p))) \<subseteq> R p \<and> saved (sys S) p = left S p"
  using assms by (auto simp: sched_inv_def Let_def queue_def)

lemma next_index: "Suc ((k + n) mod m) mod m = (k + Suc n) mod m" for k n m :: nat
  by (simp add: mod_Suc_eq)

lemma sched_ready:
  assumes inv: "sched_inv R ts k S" and len: "1 < length ts"
    and room: "set (call_words (reg_esp (sys S))) \<subseteq> R (current_task (sys S))"
  defines "q \<equiv> ts ! ((k + Suc (switches S)) mod length ts)"
  shows "q \<in> set ts" "q \<noteq> current_task (sys S)" "stack_room (sys S)" "frame_ok (sys S) q"
proof -
  let ?s = "sys S" and ?n = "switches S"
  note parts = sched_inv_parts [OF inv]
  have lt: "(k + Suc ?n) mod length ts < length ts" "(k + ?n) mod length ts < length ts"
    using len by (auto intro!: mod_less_divisor)
  then show q: "q \<in> set ts"
    unfolding q_def by (intro nth_mem)
  have "(k + Suc ?n) mod length ts \<noteq> (k + ?n) mod length ts"
    unfolding next_index [symmetric] using len lt(2) by (auto simp: mod_Suc)
  then show ne: "q \<noteq> current_task ?s"
    using parts(1) lt by (simp add: queue_def nth_eq_iff_index_eq q_def)
  show "stack_room ?s"
    using room parts(2,3) by (auto simp: stack_room_def list_all_iff stacks_ok_def)
  have "R q \<inter> R (current_task ?s) = {}"
    using parts(2,3) q ne by (auto simp: stacks_ok_def)
  then show "frame_ok ?s q"
    using parts(4) [OF q ne] room parts(2) q by (auto simp: frame_ok_def list_all_iff stacks_ok_def)
qed

lemma sched_switch_ok:
  assumes inv: "sched_inv R ts k S" and len: "1 < length ts"
    and room: "set (call_words (reg_esp (sys S))) \<subseteq> R (current_task (sys S))"
  shows "\<exists>t. schedule ret (sys S) = Inr t \<and> current_task t = ts ! ((k + Suc (switches S)) mod length ts) \<and>
    registers t = left S (current_task t) \<and> tss_esp0 (tss t) = kstack_bottom (tasks (sys S) (current_task t)) + 4096 \<and>
    sched_inv R ts k \<lparr>sys = t, left = (left S)(current_task (sys S) :=
      [reg_edi (sys S), reg_esi (sys S), reg_ebx (sys S), reg_ebp (sys S), ret]), switches = Suc (switches S)\<rparr>"
proof -
  let ?s = "sys S" and ?n = "switches S"
  let ?p = "current_task ?s" and ?q = "ts ! ((k + Suc ?n) mod length ts)"
  note q = sched_inv_parts(1) [OF inv] and st = sched_inv_parts(2) [OF inv] and cur = sched_inv_parts(3) [OF inv]
    and f = sched_inv_parts(4) [OF inv] and i = next_index [of k ?n "length ts"]
  note nxt = sched_ready(1) [OF inv len room] and ne = sched_ready(2) [OF inv len room]
  have disj: "R p \<inter> R ?p = {}" if "p \<in> set ts" "p \<noteq> ?p" for p
    using st cur that by (auto simp: stacks_ok_def)
  have "stack_room ?s" "frame_ok ?s (ts ! (Suc ((k + ?n) mod length ts) mod length ts))"
    using sched_ready(3,4) [OF inv len room] unfolding i by simp_all
  then obtain t where t: "schedule ret ?s = Inr t" "queue t ts ((k + Suc ?n) mod length ts)"
    "current_task t = ?q" "registers t = saved ?s ?q" "tss_esp0 (tss t) = kstack_bottom (tasks ?s ?q) + 4096"
    "tasks t = (tasks ?s)(?p := (tasks ?s ?p)\<lparr>task_esp := reg_esp ?s - 28\<rparr>)"
    "saved t ?p = [reg_edi ?s, reg_esi ?s, reg_ebx ?s, reg_ebp ?s, ret]"
    "\<And>a. a \<notin> set (call_words (reg_esp ?s)) \<Longrightarrow> stack_words t a = stack_words ?s a" "heap_same ?s t"
    using schedule_ok [OF q len, of ret] unfolding i by metis
  have keep: "set (frame_words (task_esp (tasks t p))) \<subseteq> R p \<and>
      saved t p = ((left S)(?p := [reg_edi ?s, reg_esi ?s, reg_ebx ?s, reg_ebp ?s, ret])) p"
    if p: "p \<in> set ts" for p
  proof (cases "p = ?p")
    case True
    then show ?thesis
      using t(6,7) room frame_in_call [of "reg_esp ?s"] by auto
  next
    case False
    have "saved t p = saved ?s p"
      using f [OF p False] disj [OF p False] room False by (intro saved_cong t(8)) (auto simp: t(6))
    then show ?thesis
      using f [OF p False] False by (simp add: t(6))
  qed
  have "sched_inv R ts k \<lparr>sys = t, left = (left S)(?p := [reg_edi ?s, reg_esi ?s, reg_ebx ?s, reg_ebp ?s, ret]),
      switches = Suc ?n\<rparr>"
    using t(2) st stacks_same [OF t(9), of R ts] keep by (simp add: sched_inv_def)
  then show ?thesis
    using t(1,3-5) f [OF nxt ne] by (intro exI [of _ t]) simp
qed

lemma sched_step_inv: "sched_step R ret S T \<Longrightarrow> sched_inv R ts k S \<Longrightarrow> sched_inv R ts k T"
proof (induction rule: sched_step.induct)
  case (execute s W c n e p b si di i)
  then show ?case by (intro sched_execute_inv)
next
  case (switch s t c n)
  have q: "queue s ts ((k + n) mod length ts)"
    using switch(3) by (simp add: sched_inv_def)
  show ?case
  proof (cases "1 < length ts")
    case True
    then show ?thesis
      using sched_switch_ok [OF switch(3) True, of ret] switch(1,2) by auto
  next
    case False
    then have one: "length ts = 1"
      using q by (cases ts) (auto simp: queue_def)
    then have "set ts = {current_task s}"
      using q by (cases ts) (auto simp: queue_def)
    moreover have "t = s"
      using schedule_single [OF q one, of ret] switch(2) by simp
    ultimately show ?thesis
      using switch(3) one by (simp add: sched_inv_def)
  qed
qed

lemma sched_steps_inv: "(sched_step R ret)\<^sup>*\<^sup>* S T \<Longrightarrow> sched_inv R ts k S \<Longrightarrow> sched_inv R ts k T"
  by (induction rule: rtranclp_induct) (auto intro: sched_step_inv)

text \<open>
  C32. under every interleaving of scheduling with the running code, which writes only its own
  stack, the running task is the next of the circular queue for each switch that has happened, and
  the queue stays whole
\<close>

theorem schedule_round_robin:
  assumes "sched_inv R ts k S" "(sched_step R ret)\<^sup>*\<^sup>* S T"
  shows "current_task (sys T) = ts ! ((k + switches T) mod length ts) \<and>
    queue (sys T) ts ((k + switches T) mod length ts)"
proof -
  have "queue (sys T) ts ((k + switches T) mod length ts)"
    using sched_steps_inv [OF assms(2,1)] by (simp add: sched_inv_def Let_def)
  then show ?thesis
    by (simp add: queue_def)
qed

text \<open>
  C33. in every reachable state a call of schedule returns in the next task of the queue with the
  registers and the return address that the task had when it was left, and puts its kernel stack
  into the TSS
\<close>

theorem schedule_resumes:
  assumes "sched_inv R ts k S" "(sched_step R ret)\<^sup>*\<^sup>* S T" "1 < length ts"
    and "set (call_words (reg_esp (sys T))) \<subseteq> R (current_task (sys T))"
  shows "\<exists>t. schedule ret (sys T) = Inr t \<and> current_task t = ts ! ((k + Suc (switches T)) mod length ts) \<and>
    registers t = left T (current_task t) \<and>
    tss_esp0 (tss t) = kstack_bottom (tasks (sys T) (current_task t)) + 4096"
  using sched_switch_ok [OF sched_steps_inv [OF assms(2,1)] assms(3,4), of ret] by blast


section \<open>Creation\<close>

lemma heap_ok_range:
  assumes "heap_ok s A" "(x, m) \<in> A"
  shows "heap_start + 16 \<le> x" "x + m \<le> heap_limit" "x + m \<le> unat (heap_current_end s)"
proof -
  obtain bs where bs: "heap_wf s bs" "(x, m) \<in> allocated heap_start bs"
    using assms by (auto simp: heap_ok_def)
  show "heap_start + 16 \<le> x" "x + m \<le> heap_limit" "x + m \<le> unat (heap_current_end s)"
    using allocated_range [OF bs(2)] bs(1) by (auto simp: heap_wf_def heap_space_def)
qed

lemma kmalloc_call_ok:
  fixes s :: "'a heap_scheme"
  assumes "heap_ok s A" "0 < unat n" "heap_room s (r + kmalloc_pages (unat n))"
  obtains p m t where "kmalloc_call n s = Inr (p, t)" "unat n \<le> m" "(unat p, m) \<notin> A" "unat p mod 8 = 0"
    "heap_ok t (insert (unat p, m) A)" "heap_room t r" "heap_change s t" "heap_start + 16 \<le> unat p" "unat p + m \<le> heap_limit"
proof -
  obtain x m t where t: "kmalloc n s = Some (Inr (of_nat x, t))" "unat n \<le> m" "x mod 8 = 0" "(x, m) \<notin> A"
    "heap_ok t (insert (x, m) A)" "heap_room t r" "heap_change s t"
    using kmalloc_ok [OF assms] by (elim exE conjE)
  have x: "heap_start + 16 \<le> x" "x + m \<le> heap_limit"
    using heap_ok_range [OF t(5), of x m] by simp_all
  then have "unat (of_nat x :: u32) = x"
    by (intro unat_address) (simp add: heap_bounds)
  with t x show thesis
    by (intro that [of "of_nat x" t m]) (simp_all add: kmalloc_call_def)
qed

lemma block_mapped:
  assumes "heap_ok s A" "(x, m) \<in> A" "x \<le> unat q" "unat q + k \<le> x + m"
  shows "bytes_mapped k s q"
  unfolding bytes_mapped_def list_all_iff
proof
  fix i
  assume "i \<in> set [0..<k]"
  then have i: "i < k" by simp
  have "x + m < 4294967296"
    using heap_ok_range(2) [OF assms(1,2)] by (simp add: heap_bounds)
  then have "unat q + i < 4294967296"
    using assms(4) i by linarith
  with i have "unat (q + of_nat i) = unat q + i"
    by (subst unat_add_small) (simp_all add: unat_of_nat_small)
  with i assms(3,4) show "translate (mem s) (cr3 s) (q + of_nat i) \<noteq> None"
    by (intro heap_ok_mapped [OF assms(1,2)]) simp_all
qed

lemma heap_change_task:
  fixes s t :: "'a task_scheme"
  assumes "heap_change s t"
  shows "tasks t = tasks s" "stack_words t = stack_words s" "current_task t = current_task s"
    "ready_queue t = ready_queue s" "next_tid t = next_tid s" "tty_lock t = tty_lock s"
    "registers t = registers s" "reg_esp t = reg_esp s" "task.more t = task.more s" "tty_inv t = tty_inv s"
    "kbd_ok t = kbd_ok s"
proof -
  obtain m u e N where "t = s\<lparr>mem := m, pmm_used_blocks := u, heap_current_end := e, nodes := N\<rparr>"
    using assms unfolding heap_change_def by blast
  then show "tasks t = tasks s" "stack_words t = stack_words s" "current_task t = current_task s"
    "ready_queue t = ready_queue s" "next_tid t = next_tid s" "tty_lock t = tty_lock s"
    "registers t = registers s" "reg_esp t = reg_esp s" "task.more t = task.more s" "tty_inv t = tty_inv s"
    "kbd_ok t = kbd_ok s"
    by (simp_all add: registers_def tty_inv_def kbd_ok_def)
qed

lemma maps_kept_bytes:
  assumes "maps_kept s t" "list_all (\<lambda>k. dir_index (p + of_nat k) \<noteq> 1023 \<and> unat (p + of_nat k) < unat (heap_current_end s)) [0..<n]"
  shows "bytes_mapped n t p = bytes_mapped n s p"
  using assms by (auto simp: bytes_mapped_def maps_kept_def list_all_iff)

lemma kmalloc_pages_task: "kmalloc_pages (unat sizeof_task) = 1" "kmalloc_pages 4096 = 2"
  by (simp_all add: kmalloc_pages_def heap_pages_def rounded_def sizeof_task_def)

lemma tasking_init_ok:
  fixes s :: "'a task_scheme"
  assumes ok: "heap_ok s A" and room: "heap_room s (r + 1)" and lock: "tty_lock s = 0"
  shows "\<exists>t p m. tasking_init s = Inr t \<and> queue t [p] 0 \<and> task_id (tasks t p) = next_tid s \<and>
    task_running (tasks t p) \<and> kstack_bottom (tasks t p) = kstack_bottom (tasks s p) \<and> next_tid t = next_tid s + 1 \<and>
    heap_ok t (insert (unat p, m) A) \<and> 20 \<le> m \<and> heap_room t r \<and> tty_lock t = 0 \<and> maps_kept s t \<and>
    stack_words t = stack_words s \<and> registers t = registers s \<and> reg_esp t = reg_esp s \<and> task.more t = task.more s \<and>
    (tty_inv s \<longrightarrow> tty_inv t) \<and> kbd_ok t = kbd_ok s"
proof -
  have pre: "0 < unat sizeof_task" "heap_room s (r + kmalloc_pages (unat sizeof_task))"
    using room by (simp_all add: kmalloc_pages_task) (simp add: sizeof_task_def)
  obtain p m a where a: "kmalloc_call sizeof_task s = Inr (p, a)" "unat sizeof_task \<le> m" "(unat p, m) \<notin> A" "unat p mod 8 = 0"
    "heap_ok a (insert (unat p, m) A)" "heap_room a r" "heap_change s a" "heap_start + 16 \<le> unat p" "unat p + m \<le> heap_limit"
    using ok pre by (rule kmalloc_call_ok)
  note ha = heap_change_task [OF a(7)]
  have m: "20 \<le> m"
    using a(2) by (simp add: sizeof_task_def)
  have mp: "bytes_mapped 20 a p"
    using m by (intro block_mapped [OF a(5)]) auto
  have p0: "p \<noteq> 0"
    using a(8) by (auto simp: heap_bounds)
  let ?T = "(tasks s)(p := (tasks s p)\<lparr>task_id := next_tid s, task_running := True, task_next := p\<rparr>)"
  let ?u = "a\<lparr>current_task := p, next_tid := next_tid s + 1, tasks := ?T, ready_queue := p\<rparr>"
  define msg where "msg = ''Multitasking initialized. Current Task ID: %d'' @ [newline_char]"
  have rn: "render msg [PInt (next_tid s)] \<noteq> None"
    by (simp add: msg_def)
  have lu: "tty_lock ?u = 0"
    using lock ha by simp
  obtain l rr c b where w: "print msg [PInt (next_tid s)] ?u =
      Inr (?u\<lparr>io_log := l, terminal_row := rr, terminal_column := c, terminal_buffer := b\<rparr>)" (is "_ = Inr ?w")
    and inv: "tty_inv ?u \<longrightarrow>
      tty_inv (?u\<lparr>io_log := l, terminal_row := rr, terminal_column := c, terminal_buffer := b\<rparr>)"
    by (rule print_returns [OF lu rn])
  have same: "heap_same a ?w"
    by (simp add: heap_same_def)
  have "tasking_init s = Inr ?w"
    using a(1) mp w unfolding tasking_init_def msg_def [symmetric]
    by (simp add: set_task_def get_task_def Let_def ha)
  moreover have "queue ?w [p] 0"
    using mp p0 heap_same_ok(3) [OF same] by (simp add: queue_def linked_def)
  moreover have "maps_kept s ?w"
    using a(7) maps_kept_cong(2) [of ?w a s] by (simp add: heap_change_def)
  moreover have "tty_inv s \<longrightarrow> tty_inv ?w" "kbd_ok ?w = kbd_ok s"
    using inv ha(10,11) by (simp_all add: tty_inv_def kbd_ok_def)
  moreover have "heap_ok ?w (insert (unat p, m) A)" "heap_room ?w r"
    using a(5,6) heap_same_ok(1,2) [OF same] by simp_all
  ultimately show ?thesis
    using m lu ha by (intro exI [of _ ?w] exI [of _ p] exI [of _ m]) (simp add: registers_def)
qed


definition owned :: "(nat \<times> nat) set \<Rightarrow> u32 list \<Rightarrow> bool" where
  "owned A ts \<longleftrightarrow> (\<forall>p\<in>set ts. \<exists>m. (unat p, m) \<in> A \<and> 20 \<le> m)"

lemma owned_mapped:
  assumes "owned A ts" "heap_ok s A" "p \<in> set ts"
  shows "bytes_mapped 20 s p" "p \<noteq> 0"
proof -
  obtain m where "(unat p, m) \<in> A" "20 \<le> m"
    using assms by (auto simp: owned_def)
  then show "bytes_mapped 20 s p" "p \<noteq> 0"
    using block_mapped [OF assms(2), of "unat p" m p 20] heap_ok_range(1) [OF assms(2), of "unat p" m]
    by (auto simp: heap_bounds)
qed

lemma owned_fresh:
  assumes "owned A ts" "heap_ok t (insert (unat p, m) A)" "(unat p, m) \<notin> A" "20 \<le> m"
  shows "p \<notin> set ts"
proof
  assume "p \<in> set ts"
  then obtain m' where m': "(unat p, m') \<in> A" "20 \<le> m'"
    using assms(1) by (auto simp: owned_def)
  then have "(unat p, m) \<noteq> (unat p, m')"
    using assms(3) by auto
  then show False
    using heap_ok_disjoint [OF assms(2)] m' assms(4) by (force simp: ranges_disjoint_def)
qed

definition frame_store :: "u32 \<Rightarrow> u32 \<Rightarrow> 'a task_scheme \<Rightarrow> u32 \<Rightarrow> u32" where
  "frame_store start e s = (stack_words s)(e + 16 := start, e + 12 := 0, e + 8 := 0, e + 4 := 0, e := 0)"

lemma frame_store_simps:
  "List.map (frame_store start e s) (frame_words e) = [0, 0, 0, 0, start]"
  "a \<notin> set (frame_words e) \<Longrightarrow> frame_store start e s a = stack_words s a"
  by (simp_all add: frame_store_def frame_words_def)

lemma initial_frame_run:
  assumes "list_all (bytes_mapped 4 s) (frame_words (stack - 20))"
  shows "initial_frame start stack s = Inr (s\<lparr>stack_words := frame_store start (stack - 20) s\<rparr>)"
  using assms by (simp add: initial_frame_def set_word_def frame_words_def frame_store_def)

lemma queue_insert:
  assumes q: "queue s (h # ts) k" and p: "p \<notin> set (h # ts)" "p \<noteq> 0" "bytes_mapped 20 t p"
    and mapped: "\<forall>x\<in>set (h # ts). bytes_mapped 20 t x"
    and same: "current_task t = current_task s" "ready_queue t = ready_queue s"
    and new: "task_next (tasks t p) = task_next (tasks s h)" "task_next (tasks t h) = p"
    and others: "\<And>x. x \<in> set ts \<Longrightarrow> task_next (tasks t x) = task_next (tasks s x)"
  shows "queue t (h # p # ts) (if k = 0 then 0 else Suc k)"
proof -
  have l: "linked (tasks s) ((h # ts) @ [h])" and d: "distinct (h # ts)"
    using q by (auto simp: queue_def)
  have ls: "linked (tasks s) (ts @ [h])" and n: "task_next (tasks s h) = hd (ts @ [h])"
    using l by (cases ts; simp add: linked_def)+
  have "linked (tasks t) (ts @ [h])"
    unfolding linked_nth
  proof (intro allI impI)
    fix i
    assume i: "Suc i < length (ts @ [h])"
    then have "task_next (tasks s ((ts @ [h]) ! i)) = (ts @ [h]) ! Suc i"
      using ls unfolding linked_nth by blast
    moreover have "(ts @ [h]) ! i \<in> set ts"
      using i by (simp add: nth_append)
    ultimately show "task_next (tasks t ((ts @ [h]) ! i)) = (ts @ [h]) ! Suc i"
      by (simp only: others)
  qed
  then have "linked (tasks t) ((h # p # ts) @ [h])"
    using new n by (cases ts) (simp_all add: linked_def)
  then show ?thesis
    using q d p mapped same by (cases k) (auto simp: queue_def list_all_iff)
qed


lemma stack_top_mapped:
  assumes ok: "heap_ok s A" and q: "(unat q, n) \<in> A" "4096 \<le> n"
  shows "list_all (bytes_mapped 4 s) (frame_words (q + 4096 - 20))"
proof -
  have "unat q + 4096 < 4294967296"
    using heap_ok_range(2) [OF ok q(1)] q(2) by (simp add: heap_bounds)
  then have "unat (q + 4076) = unat q + 4076" "unat (q + 4080) = unat q + 4080" "unat (q + 4084) = unat q + 4084"
    "unat (q + 4088) = unat q + 4088" "unat (q + 4092) = unat q + 4092"
    by (subst unat_add_small; simp)+
  then have "bytes_mapped 4 s (q + 4076)" "bytes_mapped 4 s (q + 4080)" "bytes_mapped 4 s (q + 4084)"
    "bytes_mapped 4 s (q + 4088)" "bytes_mapped 4 s (q + 4092)"
    using q(2) by (intro block_mapped [OF ok q(1)]; simp)+
  then show ?thesis
    by (simp add: frame_words_def ac_simps)
qed

lemma task_create_ok:
  fixes s :: "'a task_scheme"
  assumes ok: "heap_ok s A" and room: "heap_room s (r + 3)" and lock: "tty_lock s = 0"
    and q: "queue s (h # ts) k" and own: "owned A (h # ts)"
  shows "\<exists>t p m st n. task_create start s = Inr t \<and> queue t (h # p # ts) (if k = 0 then 0 else Suc k) \<and>
    heap_ok t (insert (unat st, n) (insert (unat p, m) A)) \<and> 20 \<le> m \<and> 4096 \<le> n \<and> heap_room t r \<and> tty_lock t = 0 \<and>
    p \<notin> set (h # ts) \<and> (unat p, m) \<notin> A \<and> (unat st, n) \<notin> insert (unat p, m) A \<and> unat st mod 8 = 0 \<and>
    tasks t = (tasks s)(p := (tasks s p)\<lparr>task_id := next_tid s, kstack_bottom := st,
      task_esp := st + 4096 - 20, task_next := task_next (tasks s h)\<rparr>,
      h := (tasks s h)\<lparr>task_next := p\<rparr>) \<and>
    saved t p = [0, 0, 0, 0, start] \<and> next_tid t = next_tid s + 1 \<and>
    (\<forall>a. a \<notin> set (frame_words (st + 4096 - 20)) \<longrightarrow> stack_words t a = stack_words s a) \<and>
    registers t = registers s \<and> reg_esp t = reg_esp s \<and> maps_kept s t \<and> task.more t = task.more s \<and>
    (tty_inv s \<longrightarrow> tty_inv t) \<and> kbd_ok t = kbd_ok s"
proof -
  have pre: "0 < unat sizeof_task" "heap_room s (r + 2 + kmalloc_pages (unat sizeof_task))"
    using room by (simp_all add: kmalloc_pages_task numeral_3_eq_3) (simp add: sizeof_task_def)
  obtain p m a where a: "kmalloc_call sizeof_task s = Inr (p, a)" "unat sizeof_task \<le> m" "(unat p, m) \<notin> A" "unat p mod 8 = 0"
    "heap_ok a (insert (unat p, m) A)" "heap_room a (r + 2)" "heap_change s a" "heap_start + 16 \<le> unat p" "unat p + m \<le> heap_limit"
    using ok pre by (rule kmalloc_call_ok)
  note ha = heap_change_task [OF a(7)]
  have m: "20 \<le> m"
    using a(2) by (simp add: sizeof_task_def)
  let ?A = "insert (unat p, m) A"
  have ap: "bytes_mapped 20 a p"
    using m by (intro block_mapped [OF a(5)]) auto
  let ?a = "a\<lparr>tasks := (tasks s)(p := (tasks s p)\<lparr>task_id := next_tid s\<rparr>), next_tid := next_tid s + 1\<rparr>"
  have sa: "heap_same a ?a"
    by (simp add: heap_same_def)
  have pre2: "heap_ok ?a ?A" "0 < unat (4096 :: u32)" "heap_room ?a (r + kmalloc_pages (unat (4096 :: u32)))"
    using a(5,6) heap_same_ok(1,2) [OF sa] by (simp_all add: kmalloc_pages_task)
  obtain st n b where b: "kmalloc_call 4096 ?a = Inr (st, b)" "unat (4096 :: u32) \<le> n" "(unat st, n) \<notin> ?A" "unat st mod 8 = 0"
    "heap_ok b (insert (unat st, n) ?A)" "heap_room b r" "heap_change ?a b" "heap_start + 16 \<le> unat st" "unat st + n \<le> heap_limit"
    using pre2 by (rule kmalloc_call_ok)
  note hb = heap_change_task [OF b(7)]
  have n: "4096 \<le> n"
    using b(2) by simp
  let ?B = "insert (unat st, n) ?A"
  have own': "owned ?B (h # ts)" "owned ?B [p]"
    using own m by (auto simp: owned_def)
  note bh = owned_mapped [OF own'(1) b(5)] and bp = owned_mapped [OF own'(2) b(5), of p, simplified]
  have p_new: "p \<notin> set (h # ts)"
    using own a(5,3) m by (rule owned_fresh)
  have h: "ready_queue s = h"
    using q by (auto simp: queue_def)
  have "list_all (bytes_mapped 4 b) (frame_words (st + 4096 - 20))"
    using n by (intro stack_top_mapped [OF b(5)]) auto
  then have frame: "list_all (bytes_mapped 4 (b\<lparr>tasks := T\<rparr>)) (frame_words (st + 4096 - 20))" for T
    by simp
  let ?t = "(tasks s p)\<lparr>task_id := next_tid s, kstack_bottom := st,
      task_esp := st + 4096 - 20, task_next := task_next (tasks s h)\<rparr>"
  let ?T = "(tasks s)(p := ?t, h := (tasks s h)\<lparr>task_next := p\<rparr>)"
  let ?u = "b\<lparr>stack_words := frame_store start (st + 4096 - 20) s, tasks := ?T\<rparr>"
  have fs: "frame_store start e (b\<lparr>tasks := T\<rparr>) = frame_store start e s" for e T
    using ha hb by (simp add: frame_store_def)
  define msg where "msg = ''Task created: ID %d, Stack: 0x%x'' @ [newline_char]"
  have rn: "render msg [PInt (next_tid s), PInt (st + 4096 - 20)] \<noteq> None"
    by (simp add: msg_def)
  have lu: "tty_lock ?u = 0"
    using lock ha hb by simp
  obtain l rr c bb where w: "print msg [PInt (next_tid s), PInt (st + 4096 - 20)] ?u =
      Inr (?u\<lparr>io_log := l, terminal_row := rr, terminal_column := c, terminal_buffer := bb\<rparr>)" (is "_ = Inr ?w")
    and inv: "tty_inv ?u \<longrightarrow>
      tty_inv (?u\<lparr>io_log := l, terminal_row := rr, terminal_column := c, terminal_buffer := bb\<rparr>)"
    by (rule print_returns [OF lu rn])
  have same: "heap_same b ?w"
    by (simp add: heap_same_def)
  have hp: "h \<noteq> p"
    using p_new by auto
  have mh: "bytes_mapped 20 b h"
    using bh by simp
  have "task_create start s = Inr ?w"
    using a(1) ap b(1) mh bp(1) w hp h unfolding task_create_def msg_def [symmetric]
    by (simp add: set_task_def get_task_def initial_frame_run [OF frame] fs ha hb fun_upd_twist)
  moreover have "queue ?w (h # p # ts) (if k = 0 then 0 else Suc k)"
  proof (rule queue_insert [OF q p_new bp(2)])
    show "bytes_mapped 20 ?w p" "\<forall>x\<in>set (h # ts). bytes_mapped 20 ?w x"
      using bp(1) bh(1) heap_same_ok(3) [OF same] by simp_all
    show "task_next (tasks ?w x) = task_next (tasks s x)" if "x \<in> set ts" for x
      using that p_new q by (auto simp: queue_def)
  qed (use ha hb hp in simp_all)
  moreover have "maps_kept s ?w"
  proof -
    have "maps_kept s a" "maps_kept ?a b"
      using a(7) b(7) unfolding heap_change_def by blast+
    moreover have "maps_kept ?a b = maps_kept a b" "maps_kept s ?w = maps_kept s b"
      by (rule maps_kept_cong; simp)+
    ultimately show ?thesis
      using maps_kept_trans by blast
  qed
  moreover have "saved ?w p = [0, 0, 0, 0, start]"
    using hp by (simp add: saved_def frame_store_simps(1) [simplified])
  moreover have "tty_inv s \<longrightarrow> tty_inv ?w" "kbd_ok ?w = kbd_ok s"
    using inv ha(10,11) hb(10,11) by (simp_all add: tty_inv_def kbd_ok_def)
  moreover have "heap_ok ?w ?B" "heap_room ?w r"
    using b(5,6) heap_same_ok(1,2) [OF same] by simp_all
  moreover have "\<forall>a. a \<notin> set (frame_words (st + 4096 - 20)) \<longrightarrow> stack_words ?w a = stack_words s a"
    by (simp add: frame_store_simps(2))
  ultimately show ?thesis
    using m n lu ha hb p_new a(3) b(3,4)
    by (intro exI [of _ ?w] exI [of _ p] exI [of _ m] exI [of _ st] exI [of _ n]) (simp add: registers_def)
qed


section \<open>From the first task to a running system\<close>

definition stack_area :: "u32 \<Rightarrow> u32 set" where
  "stack_area st = (\<lambda>i. st + of_nat (4 * i)) ` {..<1024}"

lemma stack_area_bounds:
  assumes "unat st + 4096 < 4294967296" "a \<in> stack_area st"
  shows "unat st \<le> unat a" "unat a + 4 \<le> unat st + 4096"
proof -
  obtain i where i: "i < 1024" "a = st + of_nat (4 * i)"
    using assms(2) by (auto simp: stack_area_def)
  have "unat (of_nat (4 * i) :: u32) = 4 * i"
    using i(1) by (intro unat_address) simp
  then have "unat a = unat st + 4 * i"
    unfolding i(2) using assms(1) i(1) by (subst unat_add_small) simp_all
  with i(1) show "unat st \<le> unat a" "unat a + 4 \<le> unat st + 4096"
    by simp_all
qed

lemma stack_area_mapped:
  assumes "heap_ok s A" "(unat st, n) \<in> A" "4096 \<le> n" "a \<in> stack_area st"
  shows "bytes_mapped 4 s a"
proof -
  have "unat st + 4096 < 4294967296"
    using heap_ok_range(2) [OF assms(1,2)] assms(3) by (simp add: heap_bounds)
  from stack_area_bounds [OF this assms(4)] assms(3) show ?thesis
    by (intro block_mapped [OF assms(1,2)]) simp_all
qed

lemma frame_in_area: "set (frame_words (st + 4096 - 20)) \<subseteq> stack_area st"
proof -
  have "st + of_nat (4 * 1019) \<in> stack_area st" "st + of_nat (4 * 1020) \<in> stack_area st" "st + of_nat (4 * 1021) \<in> stack_area st"
    "st + of_nat (4 * 1022) \<in> stack_area st" "st + of_nat (4 * 1023) \<in> stack_area st"
    unfolding stack_area_def by (intro imageI; simp)+
  then show ?thesis
    by (simp add: frame_words_def ac_simps)
qed

definition low_stack :: "u32 set \<Rightarrow> 'a vmm_scheme \<Rightarrow> bool" where
  "low_stack R s \<longleftrightarrow> (\<forall>a\<in>R. unat a + 4 \<le> heap_start \<and> bytes_mapped 4 s a)"

lemma low_stack_kept:
  assumes "low_stack R s" "maps_kept s t" "heap_start \<le> unat (heap_current_end s)"
  shows "low_stack R t"
  unfolding low_stack_def
proof (intro ballI conjI)
  fix a
  assume a: "a \<in> R"
  then show small: "unat a + 4 \<le> heap_start"
    using assms(1) by (simp add: low_stack_def)
  have "dir_index (a + of_nat k) \<noteq> 1023 \<and> unat (a + of_nat k) < unat (heap_current_end s)" if "k < 4" for k
  proof -
    have u: "unat (a + of_nat k) = unat a + k"
      using that small by (subst unat_add_small) (simp_all add: unat_of_nat_small heap_bounds)
    then have "unat (a + of_nat k) div 4194304 < 1023"
      using that small by (simp add: heap_bounds div_less_iff_less_mult)
    then show ?thesis
      using that small assms(3) u by (auto simp: dir_index_div)
  qed
  then show "bytes_mapped 4 t a"
    using maps_kept_bytes [OF assms(2), of a 4] a assms(1) by (simp add: low_stack_def list_all_iff)
qed

lemma heap_ok_end: "heap_ok s A \<Longrightarrow> heap_start \<le> unat (heap_current_end s)"
  by (auto simp: heap_ok_def heap_wf_def heap_space_def)

text \<open>The system after \<open>tasking_init\<close> and one \<open>task_create\<close>, with the boot stack for the first task.\<close>

lemma tasks_start_ok:
  fixes s :: task
  assumes ok: "heap_ok s A" and room: "heap_room s (r + 4)" and lock: "tty_lock s = 0" and low: "low_stack R s"
  shows "\<exists>u t p q st B. tasking_init s = Inr u \<and> task_create start u = Inr t \<and> p \<noteq> q \<and>
    sched_inv (\<lambda>x. if x = p then R else stack_area st) [p, q] 0
      \<lparr>sys = t, left = (\<lambda>_. [0, 0, 0, 0, start]), switches = 0\<rparr> \<and>
    kstack_bottom (tasks t q) = st \<and> kstack_bottom (tasks t p) = kstack_bottom (tasks s p) \<and>
    registers t = registers s \<and> reg_esp t = reg_esp s \<and> heap_ok t B \<and> heap_room t r \<and> tty_lock t = 0 \<and> maps_kept s t"
proof -
  have "heap_room s (r + 3 + 1)"
    using room by (simp add: eval_nat_numeral)
  then obtain u p m where u: "tasking_init s = Inr u" "queue u [p] 0" "kstack_bottom (tasks u p) = kstack_bottom (tasks s p)"
    "heap_ok u (insert (unat p, m) A)" "20 \<le> m" "heap_room u (r + 3)" "tty_lock u = 0" "maps_kept s u"
    "registers u = registers s" "reg_esp u = reg_esp s"
    using tasking_init_ok [OF ok _ lock] by metis
  have own: "owned (insert (unat p, m) A) [p]"
    using u(5) by (auto simp: owned_def)
  obtain t q k st n where t': "task_create start u = Inr t" "queue t (p # q # []) (if (0 :: nat) = 0 then 0 else Suc 0)"
    "heap_ok t (insert (unat st, n) (insert (unat q, k) (insert (unat p, m) A)))" "20 \<le> k" "4096 \<le> n" "heap_room t r"
    "tty_lock t = 0" "q \<notin> set [p]" "(unat q, k) \<notin> insert (unat p, m) A"
    "(unat st, n) \<notin> insert (unat q, k) (insert (unat p, m) A)" "unat st mod 8 = 0"
    "tasks t = (tasks u)(q := (tasks u q)\<lparr>task_id := next_tid u, kstack_bottom := st,
      task_esp := st + 4096 - 20, task_next := task_next (tasks u p)\<rparr>, p := (tasks u p)\<lparr>task_next := q\<rparr>)"
    "saved t q = [0, 0, 0, 0, start]" "next_tid t = next_tid u + 1"
    "\<forall>a. a \<notin> set (frame_words (st + 4096 - 20)) \<longrightarrow> stack_words t a = stack_words u a"
    "registers t = registers u" "reg_esp t = reg_esp u" "maps_kept u t" "task.more t = task.more u"
    using task_create_ok [OF u(4,6,7,2) own, of start] by (elim exE conjE)
  have pq: "queue t [p, q] 0" "q \<noteq> p"
    using t'(2,8) by simp_all
  note t = t'(1) pq(1) t'(3,5-7) pq(2) t'(12,13,16-18)
  let ?R = "\<lambda>x. if x = p then R else stack_area st"
  have kept: "maps_kept s t"
    using u(8) t(12) by (rule maps_kept_trans)
  then have low_t: "low_stack R t"
    using low_stack_kept [OF low _ heap_ok_end [OF ok]] by blast
  have area: "bytes_mapped 4 t a" "heap_start \<le> unat a" if "a \<in> stack_area st" for a
  proof -
    show "bytes_mapped 4 t a"
      using that t(4) by (intro stack_area_mapped [OF t(3)]) auto
    have st: "heap_start + 16 \<le> unat st" "unat st + n \<le> heap_limit"
      using heap_ok_range [OF t(3), of "unat st" n] by auto
    then show "heap_start \<le> unat a"
      using stack_area_bounds(1) [OF _ that] t(4) by (simp add: heap_bounds)
  qed
  have "R \<inter> stack_area st = {}"
    using low_t area(2) by (fastforce simp: low_stack_def)
  then have "stacks_ok ?R [p, q] t"
    using low_t area(1) t(7) by (auto simp: stacks_ok_def low_stack_def)
  moreover have "task_esp (tasks t q) = st + 4096 - 20"
    using t(7) by (simp add: t(8))
  moreover have "current_task t = p"
    using t(2) by (simp add: queue_def)
  ultimately have inv: "sched_inv ?R [p, q] 0 \<lparr>sys = t, left = (\<lambda>_. [0, 0, 0, 0, start]), switches = 0\<rparr>"
    using t(2,7,9) frame_in_area [of st] by (simp add: sched_inv_def)
  have "kstack_bottom (tasks t q) = st" "kstack_bottom (tasks t p) = kstack_bottom (tasks s p)"
    using t(7) u(3) by (simp_all add: t(8))
  with inv show ?thesis
    using u(1,9,10) t(1,3,5-7,10,11) kept
    by (intro exI [of _ u] exI [of _ t] exI [of _ p] exI [of _ q] exI [of _ st] exI conjI) simp_all
qed


text \<open>
  Tasking_init followed by task_create returns with two distinct tasks in the queue that satisfy
  the invariant of the scheduler, the new one set to begin at its entry; the stack field of the
  first task is left as the memory had it.
\<close>

theorem tasks_start:
  fixes s :: task
  assumes "heap_ok s A" "heap_room s (r + 4)" "tty_lock s = 0" "low_stack R s"
  shows "\<exists>u t p q st. tasking_init s = Inr u \<and> task_create start u = Inr t \<and> p \<noteq> q \<and>
    sched_inv (\<lambda>x. if x = p then R else stack_area st) [p, q] 0
      \<lparr>sys = t, left = (\<lambda>_. [0, 0, 0, 0, start]), switches = 0\<rparr> \<and>
    kstack_bottom (tasks t q) = st \<and> kstack_bottom (tasks t p) = kstack_bottom (tasks s p)"
  using tasks_start_ok [OF assms, of start] by (elim exE conjE) (intro exI conjI)

section \<open>The list of tasks\<close>

lemma emit_task:
  fixes s :: "'a task_scheme"
  defines "t cs \<equiv> fold terminal_putchar_unlocked cs s"
  shows "tasks (t cs) = tasks s" "current_task (t cs) = current_task s" "ready_queue (t cs) = ready_queue s"
    "tty_lock (t cs) = tty_lock s" "bytes_mapped n (t cs) = bytes_mapped n s"
proof -
  obtain l r c b where t: "t cs = s\<lparr>io_log := l, terminal_row := r, terminal_column := c, terminal_buffer := b\<rparr>"
    using terminal_put_all_changes [of cs s] unfolding t_def by blast
  show "tasks (t cs) = tasks s" "current_task (t cs) = current_task s" "ready_queue (t cs) = ready_queue s"
    "tty_lock (t cs) = tty_lock s"
    by (simp_all add: t)
  have "heap_same s (t cs)"
    by (simp add: t heap_same_def)
  then show "bytes_mapped n (t cs) = bytes_mapped n s"
    by (rule heap_same_ok)
qed

definition task_line :: "'a task_scheme \<Rightarrow> u32 \<Rightarrow> string" where
  "task_line s p =
     decimal (sint (task_id (tasks s p))) @ ''     0x'' @ base_numeral 16 (unat (task_esp (tasks s p))) @ ''       '' @
     (if p = current_task s then ''Running'' else ''Ready'') @ [newline_char]"

lemma task_line_emit: "task_line (fold terminal_putchar_unlocked cs s) = task_line s"
  by (simp add: task_line_def fun_eq_iff emit_task)

lemma print_task_line:
  assumes "tty_lock s = 0"
  shows "print (''%d     0x%x       %s'' @ [newline_char])
    [PInt (task_id (tasks s p)), PInt (task_esp (tasks s p)),
     PStr (Some (if p = current_task s then ''Running'' else ''Ready''))] s =
    Inr (fold terminal_putchar_unlocked (task_line s p) s)"
proof -
  have "render (''%d     0x%x       %s'' @ [newline_char])
    [PInt (task_id (tasks s p)), PInt (task_esp (tasks s p)),
     PStr (Some (if p = current_task s then ''Running'' else ''Ready''))] = Some (task_line s p)"
    by (simp add: task_line_def)
  with assms show ?thesis
    by (rule print_renders)
qed

lemma print_tasks_run:
  fixes s :: "'a task_scheme"
  assumes q: "queue s ts k" and ts: "ts = ys @ z # zs" and lock: "tty_lock s = 0"
  shows "print_tasks (hd ts) z s = Some (Inr (fold terminal_putchar_unlocked (List.concat (List.map (task_line s) (z # zs))) s))"
  using assms
proof (induction zs arbitrary: ys z s)
  case Nil
  have "task_next (tasks s z) = hd ts" "bytes_mapped 20 s z"
    using Nil by (auto simp: queue_def linked_def successively_append_iff)
  then show ?case
    using print_task_line [OF Nil(3)]
    by (subst print_tasks.simps) (simp add: get_task_def del: append.simps)
next
  case (Cons x zs)
  let ?t = "fold terminal_putchar_unlocked (task_line s z) s"
  have n: "task_next (tasks s z) = x" "bytes_mapped 20 s z"
    using Cons.prems by (auto simp: queue_def linked_def successively_append_iff)
  have "hd ts \<in> set (ys @ [z])"
    using Cons.prems(2) by (cases ys) simp_all
  moreover have "x \<notin> set (ys @ [z])"
    using Cons.prems(1,2) by (auto simp: queue_def)
  ultimately have "x \<noteq> hd ts"
    by metis
  note n = n this
  have qt: "queue ?t ts k"
    using Cons.prems(1) by (simp add: queue_def emit_task)
  have lines: "task_line ?t = task_line s"
    by (rule task_line_emit)
  have "print_tasks (hd ts) z s = print_tasks (hd ts) x ?t"
    using n print_task_line [OF Cons.prems(3)]
    by (subst print_tasks.simps) (simp add: get_task_def del: append.simps)
  also have "\<dots> = Some (Inr (fold terminal_putchar_unlocked (List.concat (List.map (task_line ?t) (x # zs))) ?t))"
    using Cons.IH [OF qt, of "ys @ [z]" x] Cons.prems by (simp add: emit_task)
  finally show ?case
    by (simp add: lines)
qed

definition task_header :: string where
  "task_header = ''ID    Stack Pointer    Status'' @ [newline_char] @ ''-----------------------------'' @ [newline_char]"

text \<open>
  The walk of task_print_list over the circular queue ends and prints one line for each task.
\<close>

theorem task_print_list_lines:
  fixes s :: "'a task_scheme"
  assumes "queue s ts k" "tty_lock s = 0"
  shows "task_print_list s =
    Some (Inr (fold terminal_putchar_unlocked (task_header @ List.concat (List.map (task_line s) ts)) s))"
proof -
  let ?h = "fold terminal_putchar_unlocked task_header s"
  have h: "bind_outcome (print (''ID    Stack Pointer    Status'' @ [newline_char]) [] s)
      (print (''-----------------------------'' @ [newline_char]) []) = Inr ?h"
  proof -
    have r: "render (''ID    Stack Pointer    Status'' @ [newline_char]) [] = Some (''ID    Stack Pointer    Status'' @ [newline_char])"
      "render (''-----------------------------'' @ [newline_char]) [] = Some (''-----------------------------'' @ [newline_char])"
      by simp_all
    let ?s = "fold terminal_putchar_unlocked (''ID    Stack Pointer    Status'' @ [newline_char]) s"
    have "tty_lock ?s = 0"
      using assms(2) by (simp only: emit_task)
    then show ?thesis
      using print_renders [OF assms(2) r(1)] print_renders [OF _ r(2), of ?s]
      by (simp add: task_header_def del: append.simps)
  qed
  have q: "queue ?h ts k" "tty_lock ?h = 0"
    using assms by (simp_all add: queue_def emit_task)
  obtain z zs where ts: "ts = [] @ z # zs"
    using assms(1) by (cases ts) (auto simp: queue_def)
  have "task_line ?h = task_line s" "hd ts = ready_queue ?h" "hd ts = z"
    using assms(1) ts by (simp_all add: task_line_emit emit_task queue_def)
  then show ?thesis
    using print_tasks_run [OF q(1) ts q(2)] h ts by (simp add: task_print_list_def)
qed

section \<open>Instances\<close>

definition boot_task :: task where
  "boot_task = heap.extend boot_heap (task.fields
     (\<lambda>_. \<lparr>task_esp = 0, kstack_bottom = 0, task_id = 0, task_next = 0, task_running = False\<rparr>) (\<lambda>_. 0) 0 0 1
     0xC0104000 0 0 0 0 0)"

lemma boot_task_simps [simp]: "tty_lock boot_task = 0" "heap_current_end boot_task = KHEAP_START"
  "reg_esp boot_task = 0xC0104000" "current_task boot_task = 0" "next_tid boot_task = 1"
  by (simp_all add: boot_task_def boot_heap_def boot_vmm_def boot_pmm_def boot_idt_def boot_cpu_def boot_kbd_def
      boot_tty_def boot_hw_def hw.defs tty.defs kbd.defs cpu.defs idt.defs pmm.defs vmm.defs heap.defs task.defs)

definition boot_stack :: "u32 set" where
  "boot_stack = set (below 25 0xC0104000)"

lemma boot_stack_low:
  assumes "\<And>v. dir_index v = 768 \<Longrightarrow> translate (mem s) (cr3 s) v \<noteq> None"
  shows "low_stack boot_stack s"
  unfolding low_stack_def
proof (intro ballI conjI)
  fix a
  assume "a \<in> boot_stack"
  then have a: "3222290332 \<le> unat a" "unat a + 4 \<le> 3222290432"
    by (auto simp: boot_stack_def below_25)
  then show "unat a + 4 \<le> heap_start"
    by (simp add: heap_bounds)
  have "dir_index (a + of_nat k) = 768" if "k < 4" for k
  proof -
    have "unat (a + of_nat k) = unat a + k"
      using that a(2) by (subst unat_add_small) (simp_all add: unat_of_nat_small)
    moreover have "(unat a + k) div 4194304 = 768"
      using a that by (intro div_nat_eqI) simp_all
    ultimately show ?thesis
      by (simp add: dir_index_div)
  qed
  then show "bytes_mapped 4 s a"
    using assms by (simp add: bytes_mapped_def list_all_iff)
qed

text \<open>Paging and the heap of the 8 MB machine, up to the start of the tasks.\<close>

lemma kernel_memory_example:
  fixes b :: "'a heap_scheme"
  assumes "tty_lock b = 0" "heap_current_end b = KHEAP_START"
  shows "\<exists>s t. vmm_init (pmm_8mb b) = Inr s \<and> kheap_init s = Inr t \<and> heap_ok t {} \<and> heap_room t 510 \<and>
    tty_lock t = 0 \<and> low_stack boot_stack t \<and> vmm_change (pmm_8mb b) s \<and> init_change s t \<and> heap_free t {} 2097136"
proof -
  obtain s where s: "vmm_init (pmm_8mb b) = Inr s" "vmm_ok s" "tty_lock s = 0" "card (free_pages s) = 2045"
    "0 \<notin> free_pages s" "vmm_change (pmm_8mb b) s"
    "\<And>v. dir_index v \<noteq> 1023 \<Longrightarrow> translate (mem s) (cr3 s) v = (if dir_index v \<in> {0, 768} then Some (take_bit 22 v) else None)"
    using vmm_init_example [OF assms(1)] by auto
  have e: "heap_current_end s = KHEAP_START"
    using s(6) assms(2) by (auto simp: vmm_change_def pmm_8mb_def)
  then have "heap_room s (510 + 512)"
    using s(4) by (simp add: heap_room_def heap_bounds KHEAP_START_def)
  then obtain t where t: "kheap_init s = Inr t" "heap_ok t {}" "heap_room t 510" "tty_lock t = 0" "init_change s t"
    "heap_free t {} 2097136"
    using kheap_init_ok [OF s(3,2,5) e] by metis
  have "low_stack boot_stack s"
    using s(7) by (intro boot_stack_low) simp
  then have "low_stack boot_stack t"
    using low_stack_kept [of boot_stack s t] t(5) e by (simp add: init_change_def heap_start_def)
  with s(1,6) t show ?thesis
    by blast
qed

text \<open>
  An instance of the statement above.
\<close>

theorem tasks_start_witness:
  "\<exists>s u t p q. heap_ok (s :: task) {} \<and> tasking_init s = Inr u \<and> task_create 0xC0100010 u = Inr t \<and> p \<noteq> q \<and> queue t [p, q] 0"
proof -
  obtain s where s: "heap_ok (s :: task) {}" "heap_room s 510" "tty_lock s = 0" "low_stack boot_stack s"
    using kernel_memory_example [of boot_task] by auto
  have "heap_room s (506 + 4)"
    using s(2) by simp
  from tasks_start [OF s(1) this s(3,4), of "0xC0100010"] obtain u t p q R' L where t: "tasking_init s = Inr u"
    "task_create 0xC0100010 u = Inr t" "p \<noteq> q" "sched_inv R' [p, q] 0 \<lparr>sys = t, left = L, switches = 0\<rparr>"
    by blast
  then have "queue t [p, q] 0"
    by (simp add: sched_inv_def)
  with s(1) t show ?thesis
    by blast
qed

lemma call_in_area: "set (call_words (st + 4096)) \<subseteq> stack_area st"
proof -
  have "i < 1024 \<Longrightarrow> st + of_nat (4 * i) \<in> stack_area st" for i
    by (simp add: stack_area_def)
  from this [of 1017] this [of 1018] this [of 1019] this [of 1020] this [of 1021] this [of 1022] this [of 1023]
  have "st + of_nat (4 * 1017) \<in> stack_area st" "st + of_nat (4 * 1018) \<in> stack_area st"
    "st + of_nat (4 * 1019) \<in> stack_area st" "st + of_nat (4 * 1020) \<in> stack_area st"
    "st + of_nat (4 * 1021) \<in> stack_area st" "st + of_nat (4 * 1022) \<in> stack_area st" "st + of_nat (4 * 1023) \<in> stack_area st"
    by simp_all
  then show ?thesis
    by (simp add: call_words_def ac_simps)
qed

lemma sched_example_stacks:
  obtains S p q R where "sched_inv R [p, q] 0 S" "switches S = 0" "p \<noteq> q" "left S q = [0, 0, 0, 0, 0xC0100010]"
    "current_task (sys S) = p" "set (below 25 (reg_esp (sys S))) \<subseteq> R p"
    "set (call_words (kstack_bottom (tasks (sys S) q) + 4096)) \<subseteq> R q"
proof -
  obtain b s where s: "vmm_init (pmm_8mb boot_task) = Inr b" "heap_ok (s :: task) {}" "heap_room s 510" "tty_lock s = 0"
    "low_stack boot_stack s" "vmm_change (pmm_8mb boot_task) b" "init_change b s"
    using kernel_memory_example [of boot_task] by auto
  have esp: "reg_esp s = 0xC0104000"
    using s(6,7) by (auto simp: vmm_change_def init_change_def pmm_8mb_def)
  have "heap_room s (506 + 4)"
    using s(3) by simp
  from tasks_start_ok [OF s(2) this s(4,5), of "0xC0100010"]
  obtain u t p q st B where t: "tasking_init s = Inr u" "task_create 0xC0100010 u = Inr t" "p \<noteq> q"
    "sched_inv (\<lambda>x. if x = p then boot_stack else stack_area st) [p, q] 0
      \<lparr>sys = t, left = (\<lambda>_. [0, 0, 0, 0, 0xC0100010]), switches = 0\<rparr>"
    "kstack_bottom (tasks t q) = st" "kstack_bottom (tasks t p) = kstack_bottom (tasks s p)"
    "registers t = registers s" "reg_esp t = reg_esp s" "heap_ok t B" "heap_room t 506" "tty_lock t = 0" "maps_kept s t"
    by (elim exE conjE)
  have "current_task t = p"
    using t(4) by (simp add: sched_inv_def queue_def)
  then show thesis
    using t(3-5,8) esp call_in_area [of st] by (intro that [OF t(4)]) (simp_all add: boot_stack_def)
qed

lemma sched_example:
  obtains S p q R where "sched_inv R [p, q] 0 S" "switches S = 0" "p \<noteq> q" "left S q = [0, 0, 0, 0, 0xC0100010]"
    "current_task (sys S) = p" "set (call_words (reg_esp (sys S))) \<subseteq> R p"
proof -
  have "set (call_words e) \<subseteq> set (below 25 e)" for e
    by (simp add: call_words_def below_25)
  moreover obtain S p q R where "sched_inv R [p, q] 0 S" "switches S = 0" "p \<noteq> q" "left S q = [0, 0, 0, 0, 0xC0100010]"
    "current_task (sys S) = p" "set (below 25 (reg_esp (sys S))) \<subseteq> R p"
    "set (call_words (kstack_bottom (tasks (sys S) q) + 4096)) \<subseteq> R q"
    by (rule sched_example_stacks)
  ultimately show thesis
    by (intro that [of R p q S]) blast+
qed

text \<open>
  An instance of C32.
\<close>

theorem schedule_round_robin_witness:
  "\<exists>S T p q R. (sched_step R 0xC0100400)\<^sup>*\<^sup>* S T \<and> switches T = 1 \<and> p \<noteq> q \<and> current_task (sys S) = p \<and> current_task (sys T) = q"
proof -
  obtain S p q R where S: "sched_inv R [p, q] 0 S" "switches S = 0" "p \<noteq> q" "current_task (sys S) = p"
    "set (call_words (reg_esp (sys S))) \<subseteq> R p"
    by (rule sched_example)
  obtain t where t: "schedule 0xC0100400 (sys S) = Inr t"
    using sched_switch_ok [OF S(1), of "0xC0100400"] S by auto
  let ?T = "\<lparr>sys = t, left = (left S)(current_task (sys S) := [reg_edi (sys S), reg_esi (sys S), reg_ebx (sys S),
    reg_ebp (sys S), 0xC0100400]), switches = Suc (switches S)\<rparr>"
  have "sched_step R 0xC0100400 S ?T"
    using sched_step.switch [of "sys S" R "0xC0100400" t "left S" "switches S"] S(4,5) t by (cases S) simp
  then have steps: "(sched_step R 0xC0100400)\<^sup>*\<^sup>* S ?T"
    by blast
  have "current_task (sys ?T) = q"
    using schedule_round_robin [OF S(1) steps] S(2) by simp
  then show ?thesis
    using steps S by (intro exI [of _ S] exI [of _ ?T] exI [of _ p] exI [of _ q] exI [of _ R]) simp
qed

text \<open>
  An instance of C33.
\<close>

theorem schedule_resumes_witness:
  "\<exists>S t p q R. sched_inv R [p, q] 0 S \<and> schedule 0xC0100400 (sys S) = Inr t \<and> current_task t = q \<and>
     registers t = [0, 0, 0, 0, 0xC0100010]"
proof -
  obtain S p q R where S: "sched_inv R [p, q] 0 S" "switches S = 0" "p \<noteq> q" "left S q = [0, 0, 0, 0, 0xC0100010]"
    "current_task (sys S) = p" "set (call_words (reg_esp (sys S))) \<subseteq> R p"
    by (rule sched_example)
  obtain t where "schedule 0xC0100400 (sys S) = Inr t" "current_task t = q" "registers t = left S (current_task t)"
    using schedule_resumes [OF S(1) rtranclp.rtrancl_refl, of "0xC0100400"] S(2,5,6) by auto
  with S show ?thesis
    by (intro exI [of _ S] exI [of _ t] exI [of _ p] exI [of _ q] exI [of _ R]) simp
qed


text \<open>
  An instance of the statement above.
\<close>

theorem task_print_list_lines_witness:
  "\<exists>s t. (tasking_init s :: task outcome) = Inr t \<and> (\<exists>u. task_print_list t = Some (Inr u))"
proof -
  obtain s where s: "heap_ok (s :: task) {}" "heap_room s 510" "tty_lock s = 0"
    using kernel_memory_example [of boot_task] by auto
  have "heap_room s (509 + 1)"
    using s(2) by simp
  then obtain t p where "tasking_init s = Inr t" "queue t [p] 0" "tty_lock t = 0"
    using tasking_init_ok [OF s(1) _ s(3)] by metis
  then show ?thesis
    using task_print_list_lines [of t "[p]" 0] by blast
qed

end
