(* ===== verification/Console.thy ===== *)
theory Console
  imports Printf
begin

text \<open>
  Text on the console, for the components that print: \<open>show_text cs s\<close> is the state after the
  characters \<open>cs\<close> have gone to the terminal. A call of \<open>printf\<close> with the lock free is one such
  step, and such steps compose and leave every field but the terminal's alone. Nothing in this
  theory models further code; it is the vocabulary in which the prints of the kernel are stated.
\<close>

definition show_text :: "string \<Rightarrow> 'a tty_scheme \<Rightarrow> 'a tty_scheme" where
  "show_text cs s = fold terminal_putchar_unlocked cs s"

lemma show_text_nil [simp]: "show_text [] s = s"
  by (simp add: show_text_def)

lemma show_text_append [simp]: "show_text b (show_text a s) = show_text (a @ b) s"
  by (simp add: show_text_def)

lemma show_text_changes:
  "\<exists>l r c b. show_text cs s = s\<lparr>io_log := l, terminal_row := r, terminal_column := c, terminal_buffer := b\<rparr>"
  unfolding show_text_def by (rule terminal_put_all_changes)

text \<open>Whatever does not look at those four fields is the same after a print.\<close>

lemma show_text_keeps:
  assumes "\<And>l r c b. f (s\<lparr>io_log := l, terminal_row := r, terminal_column := c, terminal_buffer := b\<rparr>) = f s"
  shows "f (show_text cs s) = f s"
  using show_text_changes [of cs s] assms by auto

lemma show_text_lock [simp]: "tty_lock (show_text cs s) = tty_lock s" "terminal_color (show_text cs s) = terminal_color s"
  by (rule show_text_keeps, simp)+

lemma print_shows:
  assumes "tty_lock s = 0" "render format args = Some out"
  shows "print format args s = Inr (show_text out s)"
  unfolding show_text_def using assms by (rule print_renders)

section \<open>Texts without a conversion\<close>

definition plain :: "string \<Rightarrow> bool" where
  "plain cs \<longleftrightarrow> list_all (\<lambda>c. c \<noteq> CHR ''%'') cs"

lemma render_plain: "plain cs \<Longrightarrow> render cs args = Some cs"
  by (induction cs args rule: render.induct) (simp_all add: plain_def)

text \<open>A series of calls of \<open>printf\<close> with one argument each.\<close>

primrec print_lines :: "string list \<Rightarrow> 'a tty_scheme \<Rightarrow> 'a tty_scheme outcome" where
  "print_lines [] s = Inr s"
| "print_lines (l # ls) s = bind_outcome (print l [] s) (print_lines ls)"

lemma print_lines_show:
  assumes "tty_lock s = 0" "list_all plain ls"
  shows "print_lines ls s = Inr (show_text (List.concat ls) s)"
  using assms
proof (induction ls arbitrary: s)
  case (Cons l ls)
  then show ?case
    using print_shows [OF Cons.prems(1) render_plain [of l "[]"]] by simp
qed simp

text \<open>The same with arguments: \<open>report\<close> is what a series of calls writes.\<close>

primrec print_all :: "(string \<times> parg list) list \<Rightarrow> 'a tty_scheme \<Rightarrow> 'a tty_scheme outcome" where
  "print_all [] s = Inr s"
| "print_all (fa # fas) s = bind_outcome (print (fst fa) (snd fa) s) (print_all fas)"

primrec report :: "(string \<times> parg list) list \<Rightarrow> string option" where
  "report [] = Some []"
| "report (fa # fas) = (case render (fst fa) (snd fa) of None \<Rightarrow> None | Some a \<Rightarrow> map_option ((@) a) (report fas))"

lemma print_all_show:
  assumes "tty_lock s = 0" "report fas = Some out"
  shows "print_all fas s = Inr (show_text out s)"
  using assms
proof (induction fas arbitrary: s out)
  case (Cons fa fas)
  then obtain a b where ab: "render (fst fa) (snd fa) = Some a" "report fas = Some b" "out = a @ b"
    by (auto split: option.splits)
  show ?case
    using print_shows [OF Cons.prems(1) ab(1)] Cons.IH [OF _ ab(2)] Cons.prems(1) ab(3) by simp
qed simp

end
