(* ===== verification/Irq.thy ===== *)
theory Irq
  imports Task Console
begin

text \<open>
  Interrupt dispatch (\<^verbatim>\<open>cpu/irq.cpp\<close>, \<^verbatim>\<open>cpu/isr.cpp\<close>), the installation of the keyboard
  handler and the wait of \<open>keyboard_getchar\<close>. The table of routines holds the handlers that the
  kernel installs; \<open>regs\<close> is the frame the stubs leave on the stack (see \<open>Stubs\<close>). A reader that waits is
  driven by the interrupts that arrive while the processor is halted, given as a list.
\<close>

section \<open>The state\<close>

record regs =
  r_ds :: u32
  r_edi :: u32
  r_esi :: u32
  r_ebp :: u32
  r_esp :: u32
  r_ebx :: u32
  r_edx :: u32
  r_ecx :: u32
  r_eax :: u32
  r_int_no :: u32
  r_err_code :: u32
  r_eip :: u32
  r_cs :: u32
  r_eflags :: u32
  r_useresp :: u32
  r_ss :: u32

datatype routine = Keyboard_handler

record irq = task +
  timer_ticks :: u32
  irq_routines :: "routine option list"
  cr2 :: u32
  interrupt_flag :: bool

section \<open>The operations\<close>

definition irq_install_handler :: "int \<Rightarrow> routine \<Rightarrow> 'a irq_scheme \<Rightarrow> 'a irq_scheme outcome" where
  "irq_install_handler irq handler s =
     (if 0 \<le> irq \<and> nat irq < length (irq_routines s)
      then Inr (s\<lparr>irq_routines := (irq_routines s)[nat irq := Some handler]\<rparr>)
      else Inl Wild)"

primrec run_routine :: "routine \<Rightarrow> 'a irq_scheme \<Rightarrow> 'a irq_scheme" where
  "run_routine Keyboard_handler s = keyboard_handler s"

text \<open>\<open>ret\<close> is the return address of the call of \<open>switch_to\<close> in \<open>schedule\<close>.\<close>

definition irq_handler :: "u32 \<Rightarrow> regs \<Rightarrow> 'a irq_scheme \<Rightarrow> 'a irq_scheme outcome" where
  "irq_handler ret r s =
     (let s = (if r_int_no r = 32 then s\<lparr>timer_ticks := timer_ticks s + 1\<rparr> else s);
          irq = r_int_no r - 32
      in if unat irq < length (irq_routines s) then
           let s = (case irq_routines s ! unat irq of None \<Rightarrow> s | Some f \<Rightarrow> run_routine f s)
           in if r_int_no r = 32 then schedule ret (pic_eoi 0 s)
              else Inr (pic_eoi (ucast irq) s)
         else Inl Wild)"

definition get_timer_ticks :: "'a irq_scheme \<Rightarrow> u32" where
  "get_timer_ticks s = timer_ticks s"

definition keyboard_install :: "'a irq_scheme \<Rightarrow> 'a irq_scheme outcome" where
  "keyboard_install s =
     bind_outcome (irq_install_handler 1 Keyboard_handler s)
       (print (''Keyboard driver installed. Typing enabled!'' @ [newline_char]) [])"

text \<open>
  The blocking read: while the ring is empty the processor halts until the next of the
  interrupts \<open>rs\<close>; when none is left it halts for ever.
\<close>

fun getchar_wait :: "u32 \<Rightarrow> regs list \<Rightarrow> 'a irq_scheme \<Rightarrow> (char \<times> regs list \<times> 'a irq_scheme) outcome" where
  "getchar_wait ret rs s =
     (case keyboard_getchar s of
        Some (c, s) \<Rightarrow> Inr (c, rs, s)
      | None \<Rightarrow> (case rs of
          [] \<Rightarrow> Inl Hang
        | r # rs \<Rightarrow> bind_outcome (irq_handler ret r s) (getchar_wait ret rs)))"

declare getchar_wait.simps [simp del]

text \<open>The report of an exception, and the handler, which halts after it.\<close>

definition isr_lines :: "regs \<Rightarrow> u32 \<Rightarrow> (string \<times> parg list) list" where
  "isr_lines r faulting_addr =
     [([newline_char] @ ''--- KERNEL PANIC: CPU EXCEPTION ---'' @ [newline_char], []),
      (''Exception ID: %d'' @ [newline_char], [PInt (r_int_no r)])] @
     (if r_int_no r = 14 then [(''Faulting Address: 0x%x'' @ [newline_char], [PInt faulting_addr])] else []) @
     [(''Error Code:   %d'' @ [newline_char], [PInt (r_err_code r)]),
      (''EIP: 0x%x  CS: 0x%x  EFLAGS: 0x%x'' @ [newline_char], [PInt (r_eip r), PInt (r_cs r), PInt (r_eflags r)]),
      (''EAX: 0x%x  EBX: 0x%x  ECX: 0x%x  EDX: 0x%x'' @ [newline_char],
        [PInt (r_eax r), PInt (r_ebx r), PInt (r_ecx r), PInt (r_edx r)]),
      (''ESP: 0x%x  EBP: 0x%x  ESI:   0x%x  EDI: 0x%x'' @ [newline_char],
        [PInt (r_esp r), PInt (r_ebp r), PInt (r_esi r), PInt (r_edi r)]),
      ([newline_char] @ ''System Halted.'' @ [newline_char], [])]"

definition isr_report :: "regs \<Rightarrow> 'a irq_scheme \<Rightarrow> 'a irq_scheme outcome" where
  "isr_report r s = print_all (isr_lines r (cr2 s)) s"

definition isr_handler :: "regs \<Rightarrow> 'a irq_scheme \<Rightarrow> 'a irq_scheme outcome" where
  "isr_handler r s = (if r_int_no r < 32 then bind_outcome (isr_report r s) (\<lambda>_. Inl Hang) else Inr s)"


section \<open>The keyboard line\<close>

lemma irq_handler_keyboard:
  assumes "r_int_no r = 33" "1 < length (irq_routines s)" "irq_routines s ! 1 = Some Keyboard_handler"
  shows "irq_handler ret r s = Inr (pic_eoi 1 (keyboard_handler s))"
  using assms by (simp add: irq_handler_def)

lemma keyboard_handler_keeps:
  "irq_routines (keyboard_handler s) = irq_routines s" "tty_lock (keyboard_handler s) = tty_lock s"
  by (simp_all add: keyboard_handler_def inb_def Let_def kbd_push_def)

lemma kbd_advance_keeps [simp]: "irq_routines (kbd_advance s) = irq_routines s" "tty_lock (kbd_advance s) = tty_lock s"
  by (simp_all add: kbd_advance_def)

lemma pic_eoi_log [simp]: "pic_eoi 1 s = s\<lparr>io_log := io_log s @ [Out PIC1_COMMAND 0x20]\<rparr>"
  "pic_eoi 0 s = s\<lparr>io_log := io_log s @ [Out PIC1_COMMAND 0x20]\<rparr>"
  by (simp_all add: pic_eoi_def outb_def word_le_nat_alt)

definition keyboard_ready :: "'a irq_scheme \<Rightarrow> bool" where
  "keyboard_ready s \<longleftrightarrow> kbd_ok s \<and> 1 < length (irq_routines s) \<and> irq_routines s ! 1 = Some Keyboard_handler"

definition key_event :: "'a irq_scheme \<Rightarrow> 'a irq_scheme" where
  "key_event s = pic_eoi 1 (keyboard_handler s)"

lemma key_event_ready: "keyboard_ready s \<Longrightarrow> keyboard_ready (key_event s)"
  using keyboard_handler_ok [of s] by (simp add: keyboard_ready_def key_event_def keyboard_handler_keeps)

lemma key_event_contents:
  assumes "kbd_ok s"
  shows "kbd_contents (key_event s) = (case typed s of
      Some c \<Rightarrow> if length (kbd_contents s) < 255 then kbd_contents s @ [c] else kbd_contents s
    | None \<Rightarrow> kbd_contents s)"
  using keyboard_handler_contents [OF assms] by (auto simp: key_event_def split: option.splits)

text \<open>
  The reader with the ring empty: it sleeps through the keyboard interrupts that type nothing and
  returns the character of the first that types one.
\<close>

primrec awaited :: "nat \<Rightarrow> 'a irq_scheme \<Rightarrow> 'a irq_scheme" where
  "awaited 0 s = s"
| "awaited (Suc n) s = awaited n (key_event s)"

lemma getchar_ready:
  assumes "kbd_ok s" "kbd_contents s = c # cs"
  shows "\<exists>t. getchar_wait ret rs s = Inr (c, rs, t) \<and> t = kbd_advance s \<and> kbd_contents t = cs \<and> kbd_ok t"
proof -
  obtain t where t: "keyboard_getchar s = Some (c, t)" "kbd_contents t = cs" "kbd_ok t"
    using kbd_ring.pop_head [OF assms] by blast
  then have "t = kbd_advance s"
    by (auto simp: keyboard_getchar_def)
  moreover have "getchar_wait ret rs s = Inr (c, rs, t)"
    unfolding getchar_wait.simps [of ret rs s] t(1) by simp
  ultimately show ?thesis
    using t(2,3) by simp
qed

lemma getchar_empty:
  assumes "kbd_ok s" "kbd_contents s = []"
  shows "getchar_wait ret rs s =
    (case rs of [] \<Rightarrow> Inl Hang | r # rs \<Rightarrow> bind_outcome (irq_handler ret r s) (getchar_wait ret rs))"
  using kbd_ring.pop_empty [OF assms] by (subst getchar_wait.simps) simp

lemma getchar_sleeps:
  assumes "keyboard_ready s" "kbd_contents s = []" "list_all (\<lambda>r. r_int_no r = 33) rs"
    and "\<And>i. i < length rs \<Longrightarrow> typed (awaited i s) = None"
  shows "getchar_wait ret (rs @ rs') s = getchar_wait ret rs' (awaited (length rs) s) \<and>
    keyboard_ready (awaited (length rs) s) \<and> kbd_contents (awaited (length rs) s) = []"
  using assms
proof (induction rs arbitrary: s)
  case (Cons r rs)
  have t: "typed s = None"
    using Cons.prems(4) [of 0] by simp
  have c: "kbd_contents (key_event s) = []"
    using Cons.prems(1,2) t by (simp add: key_event_contents keyboard_ready_def)
  have "irq_handler ret r s = Inr (key_event s)"
    using Cons.prems(1,3) irq_handler_keyboard by (auto simp: keyboard_ready_def key_event_def)
  then have "getchar_wait ret ((r # rs) @ rs') s = getchar_wait ret (rs @ rs') (key_event s)"
    using getchar_empty [of s ret "(r # rs) @ rs'"] Cons.prems(1,2) by (simp add: keyboard_ready_def)
  moreover have "typed (awaited i (key_event s)) = None" if "i < length rs" for i
    using Cons.prems(4) [of "Suc i"] that by simp
  ultimately show ?case
    using Cons.IH [OF key_event_ready [OF Cons.prems(1)] c] Cons.prems(3) by simp
qed simp

text \<open>
  C34. a reader that finds the ring empty sleeps through the keyboard interrupts that type nothing
  and returns the character of the first that types one
\<close>

theorem keyboard_getchar_waits:
  assumes "keyboard_ready s" "kbd_contents s = []" "list_all (\<lambda>r. r_int_no r = 33) rs" "r_int_no r = 33"
    and "\<And>i. i < length rs \<Longrightarrow> typed (awaited i s) = None" "typed (awaited (length rs) s) = Some c"
  shows "\<exists>t. getchar_wait ret (rs @ r # rs') s = Inr (c, rs', t) \<and> keyboard_ready t \<and> kbd_contents t = []"
proof -
  let ?u = "awaited (length rs) s"
  have u: "getchar_wait ret (rs @ r # rs') s = getchar_wait ret (r # rs') ?u" "keyboard_ready ?u" "kbd_contents ?u = []"
    using getchar_sleeps [OF assms(1-3,5), of ret "r # rs'"] by simp_all
  have "irq_handler ret r ?u = Inr (key_event ?u)"
    using u(2) assms(4) irq_handler_keyboard by (auto simp: keyboard_ready_def key_event_def)
  then have run: "getchar_wait ret (r # rs') ?u = getchar_wait ret rs' (key_event ?u)"
    using getchar_empty [of ?u ret "r # rs'"] u(2,3) by (simp add: keyboard_ready_def)
  have "kbd_contents (key_event ?u) = [c]"
    using u(2,3) assms(6) by (simp add: key_event_contents keyboard_ready_def)
  moreover have k: "keyboard_ready (key_event ?u)"
    using u(2) by (rule key_event_ready)
  ultimately obtain t where "getchar_wait ret rs' (key_event ?u) = Inr (c, rs', t)" "t = kbd_advance (key_event ?u)"
    "kbd_contents t = []" "kbd_ok t"
    using getchar_ready [of "key_event ?u" c "[]" ret rs'] by (auto simp: keyboard_ready_def)
  with k run u(1) show ?thesis
    by (auto simp: keyboard_ready_def)
qed

section \<open>The timer line\<close>

lemma irq_handler_timer:
  assumes "r_int_no r = 32" "0 < length (irq_routines s)" "irq_routines s ! 0 = None"
  shows "irq_handler ret r s =
    schedule ret (s\<lparr>timer_ticks := timer_ticks s + 1, io_log := io_log s @ [Out PIC1_COMMAND 0x20]\<rparr>)"
  using assms by (simp add: irq_handler_def)

text \<open>
  The timer interrupt counts a tick, acknowledges the controller before it switches, and returns
  in the next task of the queue with the registers saved for it.
\<close>

theorem timer_preempts:
  assumes r: "r_int_no r = 32" "0 < length (irq_routines s)" "irq_routines s ! 0 = None"
    and q: "queue s ts k" "1 < length ts" "stack_room s" "frame_ok s (ts ! (Suc k mod length ts))"
  shows "\<exists>t. irq_handler ret r s = Inr t \<and> timer_ticks t = timer_ticks s + 1 \<and>
    io_log t = io_log s @ [Out PIC1_COMMAND 0x20] \<and> queue t ts (Suc k mod length ts) \<and>
    registers t = saved s (ts ! (Suc k mod length ts))"
proof -
  let ?u = "s\<lparr>timer_ticks := timer_ticks s + 1, io_log := io_log s @ [Out PIC1_COMMAND 0x20]\<rparr>"
  have "heap_same s ?u"
    by (simp add: heap_same_def)
  note same = heap_same_ok(3) [OF this]
  have u: "queue ?u ts k" "stack_room ?u" "frame_ok ?u (ts ! (Suc k mod length ts))"
    using q(1,3,4) same by (simp_all add: queue_def stack_room_def frame_ok_def)
  obtain t where t: "schedule ret ?u = Inr t" "queue t ts (Suc k mod length ts)"
    "registers t = saved ?u (ts ! (Suc k mod length ts))" "io_log t = io_log ?u" "task.more t = task.more ?u"
    using schedule_ok [OF u(1) q(2) u(2,3), of ret] by blast
  have "timer_ticks t = timer_ticks ?u"
    using t(5) by (cases t; cases s) simp
  moreover have "saved ?u p = saved s p" for p
    by (simp add: saved_def)
  ultimately show ?thesis
    using irq_handler_timer [OF r, of ret] t by (intro exI [of _ t]) simp
qed

section \<open>Exceptions\<close>

definition isr_text :: "regs \<Rightarrow> u32 \<Rightarrow> string" where
  "isr_text r fault = the (report (isr_lines r fault))"

lemma isr_lines_report: "report (isr_lines r fault) = Some (isr_text r fault)"
  by (simp add: isr_text_def isr_lines_def)

text \<open>
  An exception prints its report, the faulting address for page faults included, and halts for
  ever.
\<close>

theorem isr_handler_panics:
  assumes "tty_lock s = 0" "r_int_no r < 32"
  shows "isr_report r s = Inr (show_text (isr_text r (cr2 s)) s) \<and> isr_handler r s = Inl Hang"
  using print_all_show [OF assms(1) isr_lines_report] assms(2) by (simp add: isr_report_def isr_handler_def)


section \<open>Instances\<close>

definition with_irq :: "task \<Rightarrow> routine option list \<Rightarrow> irq" where
  "with_irq s rs = task.extend s (irq.fields 0 rs 0 False)"

lemma with_irq_simps [simp]:
  "timer_ticks (with_irq s rs) = 0" "irq_routines (with_irq s rs) = rs" "tty_lock (with_irq s rs) = tty_lock s"
  "terminal_row (with_irq s rs) = terminal_row s" "terminal_column (with_irq s rs) = terminal_column s"
  "kbd_buffer_head (with_irq s rs) = kbd_buffer_head s" "kbd_buffer_tail (with_irq s rs) = kbd_buffer_tail s"
  "device (with_irq s rs) = device s" "io_log (with_irq s rs) = io_log s" "tasks (with_irq s rs) = tasks s"
  "stack_words (with_irq s rs) = stack_words s" "current_task (with_irq s rs) = current_task s"
  "ready_queue (with_irq s rs) = ready_queue s" "reg_esp (with_irq s rs) = reg_esp s" "mem (with_irq s rs) = mem s"
  "cr3 (with_irq s rs) = cr3 s" "caps_lock (with_irq s rs) = caps_lock s" "lshift_pressed (with_irq s rs) = lshift_pressed s"
  "rshift_pressed (with_irq s rs) = rshift_pressed s" "kbd_buffer (with_irq s rs) = kbd_buffer s"
  by (simp_all add: with_irq_def irq.defs task.defs)

lemma with_irq_mapped [simp]: "bytes_mapped n (with_irq s rs) = bytes_mapped n s"
  by (simp add: bytes_mapped_def fun_eq_iff)

definition no_routines :: "routine option list" where
  "no_routines = replicate 16 None"

definition boot_irq :: irq where
  "boot_irq = with_irq boot_task no_routines"

definition kernel_regs :: "u32 \<Rightarrow> regs" where
  "kernel_regs n = \<lparr>r_ds = 0x10, r_edi = 0, r_esi = 0, r_ebp = 0, r_esp = 0, r_ebx = 0, r_edx = 0, r_ecx = 0, r_eax = 0,
     r_int_no = n, r_err_code = 0, r_eip = 0, r_cs = 8, r_eflags = 0x200, r_useresp = 0, r_ss = 0x10\<rparr>"

lemma kernel_regs_simps [simp]: "r_int_no (kernel_regs n) = n" "r_eax (kernel_regs n) = 0"
  by (simp_all add: kernel_regs_def)

text \<open>
  An instance of the statement above.
\<close>

theorem timer_preempts_witness:
  "\<exists>s t p q. irq_handler 0xC0100400 (kernel_regs 32) s = Inr t \<and> timer_ticks t = (1 :: u32) \<and>
     current_task (s :: irq) = p \<and> current_task t = q \<and> p \<noteq> q"
proof -
  obtain S p q R where S: "sched_inv R [p, q] 0 S" "switches S = 0" "p \<noteq> q" "left S q = [0, 0, 0, 0, 0xC0100010]"
    "current_task (sys S) = p" "set (call_words (reg_esp (sys S))) \<subseteq> R p"
    by (rule sched_example)
  let ?s = "with_irq (sys S) no_routines"
  have len: "1 < length [p, q]"
    by simp
  have room: "set (call_words (reg_esp (sys S))) \<subseteq> R (current_task (sys S))"
    using S by simp
  have "queue ?s [p, q] 0"
    using sched_inv_parts(1) [OF S(1)] S(2) by (auto simp: queue_def)
  moreover have "stack_room ?s" "frame_ok ?s q"
    using sched_ready(3,4) [OF S(1) len room] S(2) by (simp_all add: stack_room_def frame_ok_def)
  ultimately obtain t where "irq_handler 0xC0100400 (kernel_regs 32) ?s = Inr t" "timer_ticks t = timer_ticks ?s + 1"
    "queue t [p, q] 1"
    using timer_preempts [of "kernel_regs 32" ?s "[p, q]" 0 "0xC0100400"] by (auto simp: no_routines_def)
  with S(3,5) show ?thesis
    by (intro exI [of _ ?s] exI [of _ t]) (simp add: queue_def)
qed

text \<open>
  An instance of the statement above.
\<close>

theorem isr_handler_panics_witness: "isr_handler (kernel_regs 14) boot_irq = Inl Hang"
proof -
  have "tty_lock boot_irq = 0"
    by (simp add: boot_irq_def)
  from isr_handler_panics [OF this, of "kernel_regs 14"] show ?thesis
    by simp
qed

lemma boot_irq_simps [simp]:
  "kbd_buffer_head boot_irq = 0" "kbd_buffer_tail boot_irq = 0" "caps_lock boot_irq = False"
  "lshift_pressed boot_irq = False" "rshift_pressed boot_irq = False" "tty_lock boot_irq = 0"
  "terminal_row boot_irq = 0" "terminal_column boot_irq = 0"
  by (simp_all add: boot_irq_def boot_task_def boot_heap_def boot_vmm_def boot_pmm_def boot_idt_def boot_cpu_def
      boot_kbd_def boot_tty_def boot_hw_def hw.defs tty.defs kbd.defs cpu.defs idt.defs pmm.defs vmm.defs heap.defs
      task.defs)

text \<open>The machine with the handler installed and the key \<^verbatim>\<open>a\<close> waiting in the controller.\<close>

definition typing_irq :: irq where
  "typing_irq = boot_irq\<lparr>device := (\<lambda>_ _. 0x1E), irq_routines := no_routines[1 := Some Keyboard_handler]\<rparr>"

lemma typing_irq_types: "keyboard_ready typing_irq" "kbd_contents typing_irq = []" "typed typing_irq = Some (CHR ''a'')"
  by (simp_all add: keyboard_ready_def kbd_ok_def typing_irq_def no_routines_def kbd_contents_def ring_count_def typed_def
      next_scancode_def modifier_codes_def kbd_translate_def kbd_us_def nul_def)

text \<open>
  An instance of C34.
\<close>

theorem keyboard_getchar_waits_witness:
  "\<exists>t. getchar_wait 0 [kernel_regs 33] typing_irq = Inr (CHR ''a'', [], t)"
  using keyboard_getchar_waits [of typing_irq "[]" "kernel_regs 33" "CHR ''a''" 0 "[]"] typing_irq_types by auto

end
