(* ===== verification/Stubs.thy ===== *)
theory Stubs
  imports Irq
begin

text \<open>
  The entry stubs of the interrupts (\<^verbatim>\<open>cpu/interrupts.S\<close>) and the two ends of an interrupt that the
  processor provides: the way through a gate of the interrupt table, with the change to the kernel
  stack of the TSS when ring 3 is interrupted, and \<^verbatim>\<open>iret\<close>. \<open>scratch\<close> holds the registers that the
  other components do not name. A C handler may leave anything in eax, ecx, edx and the flags; the
  stub takes all four back from the stack, so they are not passed on.

  \<open>frame_at\<close> is the structure \<open>registers\<close> that a handler sees at the address it is given. The
  lemmas show that this structure holds the interrupted program's registers, and that a handler
  which leaves the frame alone returns to the interrupted program with all its registers.
\<close>

section \<open>Runs of pushes\<close>

lemma cpu_frame [simp]:
  "heap_same s (s\<lparr>seg_cs := v\<rparr>)" "heap_same s (s\<lparr>seg_ds := v\<rparr>)" "heap_same s (s\<lparr>seg_es := v\<rparr>)"
  "heap_same s (s\<lparr>seg_fs := v\<rparr>)" "heap_same s (s\<lparr>seg_gs := v\<rparr>)" "heap_same s (s\<lparr>seg_ss := v\<rparr>)"
  "heap_same s' (s'\<lparr>interrupt_flag := b\<rparr>)"
  by (simp_all add: heap_same_def)

lemmas cpu_frame_ok [simp] = cpu_frame [THEN heap_same_ok(1)] cpu_frame [THEN heap_same_ok(2)]
  cpu_frame [THEN heap_same_ok(3)]

primrec push_all :: "u32 list \<Rightarrow> 'a task_scheme \<Rightarrow> 'a task_scheme outcome" where
  "push_all [] s = Inr s"
| "push_all (w # ws) s = bind_outcome (push w s) (push_all ws)"

primrec stack_put :: "u32 list \<Rightarrow> u32 \<Rightarrow> (u32 \<Rightarrow> u32) \<Rightarrow> u32 \<Rightarrow> u32" where
  "stack_put [] e W = W"
| "stack_put (w # ws) e W = stack_put ws (e - 4) (W(e - 4 := w))"

lemma stack_put_outside: "a \<notin> set (below (length ws) e) \<Longrightarrow> stack_put ws e W a = W a"
  by (induction ws arbitrary: e W) auto

section \<open>The processor\<close>

record scratch =
  reg_eax :: u32
  reg_ecx :: u32
  reg_edx :: u32
  reg_eflags :: u32

definition flags_word :: "scratch \<Rightarrow> 'a irq_scheme \<Rightarrow> u32" where
  "flags_word x s = (if interrupt_flag s then set_bit 9 (reg_eflags x) else unset_bit 9 (reg_eflags x))"

text \<open>
  The way through the gate of vector \<open>v\<close>; \<open>err\<close> is the error code, if the processor pushes one. An
  interrupt without a gate is not defined.
\<close>

definition gate_enter :: "nat \<Rightarrow> u32 list \<Rightarrow> scratch \<Rightarrow> 'a irq_scheme \<Rightarrow> 'a irq_scheme outcome" where
  "gate_enter v err x s =
     (case gate_target (idt_entries s) v of
        None \<Rightarrow> Inl Wild
      | Some (sel, start) \<Rightarrow>
          bind_outcome
            (if seg_cs s AND 3 = 0 then Inr s
             else push_all [ucast (seg_ss s), reg_esp s]
                    (s\<lparr>seg_ss := ucast (tss_ss0 (tss s)), reg_esp := tss_esp0 (tss s)\<rparr>)) (\<lambda>t.
          bind_outcome (push_all ([flags_word x s, ucast (seg_cs s), reg_eip s] @ err) t) (\<lambda>t.
            Inr (t\<lparr>interrupt_flag := False, seg_cs := sel, reg_eip := start\<rparr>))))"

text \<open>\<^verbatim>\<open>iret\<close>: the flags it loads, and the state; the stack pointer too on the way back to ring 3.\<close>

definition iret :: "'a irq_scheme \<Rightarrow> (u32 \<times> 'a irq_scheme) outcome" where
  "iret s =
     bind_outcome (pop s) (\<lambda>(eip, t).
     bind_outcome (pop t) (\<lambda>(cs, t).
     bind_outcome (pop t) (\<lambda>(flags, t).
     let t = t\<lparr>reg_eip := eip, seg_cs := ucast cs, interrupt_flag := bit flags 9\<rparr>
     in if (ucast cs :: u16) AND 3 = seg_cs s AND 3 then Inr (flags, t)
        else bind_outcome (pop t) (\<lambda>(esp, t).
             bind_outcome (pop t) (\<lambda>(ss, t).
               Inr (flags, t\<lparr>reg_esp := esp, seg_ss := ucast ss\<rparr>))))))"

section \<open>The stubs\<close>

text \<open>The words that the stub of a vector pushes: a zero where the processor pushes no error code.\<close>

definition errcode_vectors :: "nat list" where
  "errcode_vectors = [8, 10, 11, 12, 13, 14, 17, 21, 29, 30]"

definition isr_words :: "nat \<Rightarrow> u32 list" where
  "isr_words v = (if v \<in> set errcode_vectors then [of_nat v] else [0, of_nat v])"

definition irq_words :: "nat \<Rightarrow> u32 list" where
  "irq_words n = [0, of_nat (32 + n)]"

text \<open>The common half that saves; \<open>ds\<close> is eax after \<^verbatim>\<open>mov %ds, %ax\<close>.\<close>

definition stub_save :: "u32 list \<Rightarrow> u32 \<Rightarrow> scratch \<Rightarrow> 'a irq_scheme \<Rightarrow> 'a irq_scheme outcome" where
  "stub_save ws ds x s =
     bind_outcome (push_all ws s) (\<lambda>s.
     bind_outcome (push_all [reg_eax x, reg_ecx x, reg_edx x, reg_ebx s] s) (\<lambda>s.
     bind_outcome (push_all [reg_esp s, reg_ebp s, reg_esi s, reg_edi s, ds] s) (\<lambda>s.
       Inr (s\<lparr>seg_ds := 0x10, seg_es := 0x10, seg_fs := 0x10, seg_gs := 0x10\<rparr>))))"

text \<open>The call of a handler with the address of the frame, and the two words dropped behind it.\<close>

definition stub_call :: "u32 \<Rightarrow> (u32 \<Rightarrow> 'a irq_scheme \<Rightarrow> 'a irq_scheme outcome) \<Rightarrow> 'a irq_scheme \<Rightarrow> 'a irq_scheme outcome" where
  "stub_call ret handler s =
     bind_outcome (push_all [reg_esp s, ret] s) (\<lambda>t.
     bind_outcome (handler (reg_esp s) t) (\<lambda>t. Inr (t\<lparr>reg_esp := reg_esp t + 8\<rparr>)))"

text \<open>The common half that restores, and \<^verbatim>\<open>iret\<close>.\<close>

definition stub_leave :: "'a irq_scheme \<Rightarrow> (scratch \<times> 'a irq_scheme) outcome" where
  "stub_leave s =
     bind_outcome (pop s) (\<lambda>(ds, s).
     bind_outcome (pop (s\<lparr>seg_ds := ucast ds, seg_es := ucast ds, seg_fs := ucast ds, seg_gs := ucast ds\<rparr>)) (\<lambda>(edi, s).
     bind_outcome (pop (s\<lparr>reg_edi := edi\<rparr>)) (\<lambda>(esi, s).
     bind_outcome (pop (s\<lparr>reg_esi := esi\<rparr>)) (\<lambda>(ebp, s).
     bind_outcome (pop (s\<lparr>reg_ebp := ebp, reg_esp := reg_esp s + 4\<rparr>)) (\<lambda>(ebx, s).
     bind_outcome (pop (s\<lparr>reg_ebx := ebx\<rparr>)) (\<lambda>(edx, s).
     bind_outcome (pop s) (\<lambda>(ecx, s).
     bind_outcome (pop s) (\<lambda>(eax, s).
     bind_outcome (iret (s\<lparr>reg_esp := reg_esp s + 8\<rparr>)) (\<lambda>(flags, s).
       Inr (\<lparr>reg_eax = eax, reg_ecx = ecx, reg_edx = edx, reg_eflags = flags\<rparr>, s))))))))))"

text \<open>The structure \<^verbatim>\<open>struct registers\<close> at an address of the stack.\<close>

definition frame_at :: "u32 \<Rightarrow> 'a task_scheme \<Rightarrow> regs" where
  "frame_at p s =
     (let w = (\<lambda>i. stack_words s (p + i))
      in \<lparr>r_ds = w 0, r_edi = w 4, r_esi = w 8, r_ebp = w 12, r_esp = w 16, r_ebx = w 20, r_edx = w 24, r_ecx = w 28,
          r_eax = w 32, r_int_no = w 36, r_err_code = w 40, r_eip = w 44, r_cs = w 48, r_eflags = w 52,
          r_useresp = w 56, r_ss = w 60\<rparr>)"

text \<open>The stubs of exceptions and of hardware interrupts, up to the call of the handler.\<close>

definition isr_enter :: "nat \<Rightarrow> u32 list \<Rightarrow> scratch \<Rightarrow> 'a irq_scheme \<Rightarrow> 'a irq_scheme outcome" where
  "isr_enter v err x s = bind_outcome (gate_enter v err x s) (stub_save (isr_words v) (ucast (seg_ds s)) x)"

definition irq_enter :: "nat \<Rightarrow> scratch \<Rightarrow> 'a irq_scheme \<Rightarrow> 'a irq_scheme outcome" where
  "irq_enter n x s = bind_outcome (gate_enter (32 + n) [] x s) (stub_save (irq_words n) (ucast (seg_ds s)) x)"

text \<open>The whole way of an interrupt; \<open>ret\<close> and \<open>sret\<close> are the return addresses of the two calls.\<close>

definition isr_interrupt :: "u32 \<Rightarrow> nat \<Rightarrow> u32 list \<Rightarrow> scratch \<Rightarrow> 'a irq_scheme \<Rightarrow> (scratch \<times> 'a irq_scheme) outcome" where
  "isr_interrupt ret v err x s =
     bind_outcome (isr_enter v err x s) (\<lambda>t.
     bind_outcome (stub_call ret (\<lambda>p t. isr_handler (frame_at p t) t) t) stub_leave)"

text \<open>The report of an exception, before the handler halts.\<close>

definition isr_shown :: "u32 \<Rightarrow> nat \<Rightarrow> u32 list \<Rightarrow> scratch \<Rightarrow> 'a irq_scheme \<Rightarrow> 'a irq_scheme outcome" where
  "isr_shown ret v err x s =
     bind_outcome (isr_enter v err x s) (\<lambda>t.
     bind_outcome (push_all [reg_esp t, ret] t) (\<lambda>u. isr_report (frame_at (reg_esp t) u) u))"

definition irq_interrupt :: "u32 \<Rightarrow> u32 \<Rightarrow> nat \<Rightarrow> scratch \<Rightarrow> 'a irq_scheme \<Rightarrow> (scratch \<times> 'a irq_scheme) outcome" where
  "irq_interrupt ret sret n x s =
     bind_outcome (irq_enter n x s) (\<lambda>t.
     bind_outcome (stub_call ret (\<lambda>p t. irq_handler sret (frame_at p t) t) t) stub_leave)"


section \<open>What the stubs do\<close>

text \<open>
  The stack that an interrupt uses, and the number of words of its frame: sixteen if ring 3 is
  interrupted, otherwise fourteen. Two more are for the call of the handler.
\<close>

definition int_top :: "'a task_scheme \<Rightarrow> u32" where
  "int_top s = (if seg_cs s AND 3 = 0 then reg_esp s else tss_esp0 (tss s))"

definition int_base :: "'a task_scheme \<Rightarrow> u32" where
  "int_base s = (if seg_cs s AND 3 = 0 then reg_esp s - 56 else tss_esp0 (tss s) - 64)"

definition int_room :: "'a task_scheme \<Rightarrow> bool" where
  "int_room s \<longleftrightarrow> list_all (bytes_mapped 4 s) (below 18 (int_top s))"

text \<open>The frame of an interrupt with the error code \<open>e\<close> and the vector \<open>n\<close>.\<close>

definition int_frame :: "u32 \<Rightarrow> u32 \<Rightarrow> u32 \<Rightarrow> scratch \<Rightarrow> 'a irq_scheme \<Rightarrow> u32 list" where
  "int_frame e n ds x s =
     (if seg_cs s AND 3 = 0 then [] else [ucast (seg_ss s), reg_esp s]) @
     [flags_word x s, ucast (seg_cs s), reg_eip s, e, n, reg_eax x, reg_ecx x, reg_edx x, reg_ebx s, int_base s + 20,
      reg_ebp s, reg_esi s, reg_edi s, ds]"

lemma below_18: "below 18 e = [e - 4, e - 8, e - 12, e - 16, e - 20, e - 24, e - 28, e - 32, e - 36, e - 40, e - 44, e - 48, e - 52, e - 56, e - 60, e - 64, e - 68, e - 72]"
  by (simp add: numeral_eq_Suc)

text \<open>The machine while a handler runs: everything but the registers and the stack as in \<open>s\<close>.\<close>

definition in_stub :: "(u32 \<Rightarrow> u32) \<Rightarrow> u16 \<Rightarrow> u32 \<Rightarrow> u32 \<Rightarrow> 'a irq_scheme \<Rightarrow> 'a irq_scheme" where
  "in_stub W ss esp start s =
     s\<lparr>stack_words := W, reg_esp := esp, interrupt_flag := False, seg_cs := 8, reg_eip := start, seg_ss := ss,
       seg_ds := 0x10, seg_es := 0x10, seg_fs := 0x10, seg_gs := 0x10\<rparr>"

definition int_ss :: "'a irq_scheme \<Rightarrow> u16" where
  "int_ss s = (if seg_cs s AND 3 = 0 then seg_ss s else ucast (tss_ss0 (tss s)))"

lemma push_in_stub:
  "bytes_mapped 4 s (esp - 4) \<Longrightarrow> push v (in_stub W ss esp start s) = Inr (in_stub (W(esp - 4 := v)) ss (esp - 4) start s)"
  by (simp add: push_run in_stub_def)

lemma enter_run:
  assumes "gate_target (idt_entries s) v = Some (8, start)" "int_room s" "err @ ws = [e, n]"
  shows "bind_outcome (gate_enter v err x s) (stub_save ws ds x) =
    Inr (in_stub (stack_put (int_frame e n ds x s) (int_top s) (stack_words s)) (int_ss s) (int_base s) start s)"
proof -
  consider "err = []" "ws = [e, n]" | "err = [e]" "ws = [n]" | "err = [e, n]" "ws = []"
    using assms(3) by (cases err; cases "tl err") (auto simp: append_eq_Cons_conv)
  then show ?thesis
    using assms(1,2)
    by cases (simp_all add: gate_enter_def stub_save_def push_run int_room_def int_top_def int_base_def below_18
        int_frame_def in_stub_def int_ss_def split: if_splits)
qed

lemma in_stub_simps [simp]:
  "stack_words (in_stub W ss esp start s) = W" "reg_esp (in_stub W ss esp start s) = esp"
  "seg_cs (in_stub W ss esp start s) = 8" "seg_ss (in_stub W ss esp start s) = ss"
  "irq_routines (in_stub W ss esp start s) = irq_routines s" "tty_lock (in_stub W ss esp start s) = tty_lock s"
  "bytes_mapped m (in_stub W ss esp start s) = bytes_mapped m s"
  by (simp_all add: in_stub_def)

text \<open>The frame as it lies on the stack, and the state with the registers of the interrupted program.\<close>

definition frame_held :: "u32 \<Rightarrow> u32 \<Rightarrow> u32 \<Rightarrow> scratch \<Rightarrow> 'a irq_scheme \<Rightarrow> (u32 \<Rightarrow> u32) \<Rightarrow> bool" where
  "frame_held e n ds x s W \<longleftrightarrow> (let ws = int_frame e n ds x s in List.map W (below (length ws) (int_top s)) = ws)"

definition restored :: "'a irq_scheme \<Rightarrow> 'a irq_scheme \<Rightarrow> 'a irq_scheme" where
  "restored s t =
     t\<lparr>seg_cs := seg_cs s, seg_ds := seg_ds s, seg_es := seg_es s, seg_fs := seg_fs s, seg_gs := seg_gs s,
       seg_ss := seg_ss s, reg_esp := reg_esp s, reg_ebp := reg_ebp s, reg_ebx := reg_ebx s, reg_esi := reg_esi s,
       reg_edi := reg_edi s, reg_eip := reg_eip s, interrupt_flag := interrupt_flag s\<rparr>"

text \<open>A program that uses one data segment, and whose flags are the ones of the processor.\<close>

definition one_segment :: "scratch \<Rightarrow> 'a irq_scheme \<Rightarrow> bool" where
  "one_segment x s \<longleftrightarrow> seg_es s = seg_ds s \<and> seg_fs s = seg_ds s \<and> seg_gs s = seg_ds s \<and>
     bit (reg_eflags x) 9 = interrupt_flag s"

lemma flags_word_same: "one_segment x s \<Longrightarrow> flags_word x s = reg_eflags x"
  unfolding flags_word_def by (rule bit_word_eqI) (auto simp: one_segment_def bit_simps)

lemma frame_kept:
  "frame_held e n ds x s (stack_put (int_frame e n ds x s @ [a, b]) (int_top s) W)"
  by (simp add: frame_held_def int_frame_def)

lemma frame_regs:
  assumes "frame_held e n ds x s (stack_words t)"
  defines "r \<equiv> frame_at (int_base s) t"
  shows "r_ds r = ds" "r_edi r = reg_edi s" "r_esi r = reg_esi s" "r_ebp r = reg_ebp s" "r_esp r = int_base s + 20"
    "r_ebx r = reg_ebx s" "r_edx r = reg_edx x" "r_ecx r = reg_ecx x" "r_eax r = reg_eax x" "r_int_no r = n"
    "r_err_code r = e" "r_eip r = reg_eip s" "r_cs r = ucast (seg_cs s)" "r_eflags r = flags_word x s"
    "seg_cs s AND 3 \<noteq> 0 \<Longrightarrow> r_useresp r = reg_esp s" "seg_cs s AND 3 \<noteq> 0 \<Longrightarrow> r_ss r = ucast (seg_ss s)"
  using assms(1)
  by (simp_all add: r_def frame_held_def frame_at_def int_frame_def int_base_def int_top_def split: if_splits)

lemma leave_run:
  assumes "frame_held e n ds x s (stack_words t)" "list_all (bytes_mapped 4 t) (below 18 (int_top s))"
    and "reg_esp t = int_base s" "one_segment x s" "ucast ds = seg_ds s" "seg_cs t AND 3 = 0"
    and "seg_cs s AND 3 = 0 \<Longrightarrow> seg_ss t = seg_ss s"
  shows "stub_leave t = Inr (x, restored s t)"
proof -
  have u: "(ucast (ucast a :: u32) :: u16) = a" for a
    by (rule bit_word_eqI) (simp add: bit_simps)
  note facts = assms(1,2) [unfolded frame_held_def int_frame_def int_top_def below_18]
  show ?thesis
  proof (cases "seg_cs s AND 3 = 0")
    case True
    have "restored s t = t\<lparr>seg_ds := seg_ds s, seg_es := seg_es s, seg_fs := seg_fs s, seg_gs := seg_gs s,
        reg_edi := reg_edi s, reg_esi := reg_esi s, reg_ebp := reg_ebp s, reg_ebx := reg_ebx s, reg_esp := reg_esp s,
        reg_eip := reg_eip s, seg_cs := seg_cs s, interrupt_flag := interrupt_flag s\<rparr>"
      using assms(7) [OF True] by (cases t) (simp add: restored_def)
    then show ?thesis
      using facts assms(3-6) flags_word_same [OF assms(4)] True
      by (simp add: stub_leave_def iret_def pop_run Let_def int_base_def u one_segment_def)
  next
    case False
    then show ?thesis
      using facts assms(3-6) flags_word_same [OF assms(4)]
      by (simp add: stub_leave_def iret_def pop_run Let_def int_base_def restored_def u one_segment_def)
  qed
qed

text \<open>The call of a handler, and the whole way of an interrupt whose handler leaves the frame alone.\<close>

definition call_stack :: "u32 \<Rightarrow> u32 \<Rightarrow> u32 \<Rightarrow> u32 \<Rightarrow> scratch \<Rightarrow> 'a irq_scheme \<Rightarrow> u32 \<Rightarrow> u32" where
  "call_stack ret e n ds x s = stack_put (int_frame e n ds x s @ [int_base s, ret]) (int_top s) (stack_words s)"

definition handler_entry :: "u32 \<Rightarrow> u32 \<Rightarrow> u32 \<Rightarrow> u32 \<Rightarrow> u32 \<Rightarrow> scratch \<Rightarrow> 'a irq_scheme \<Rightarrow> 'a irq_scheme" where
  "handler_entry ret start e n ds x s = in_stub (call_stack ret e n ds x s) (int_ss s) (int_base s - 8) start s"

lemma call_stack_outside: "a \<notin> set (below 18 (int_top s)) \<Longrightarrow> call_stack ret e n ds x s a = stack_words s a"
  by (auto simp: call_stack_def int_frame_def below_18)

lemma frame_held_below:
  assumes "frame_held e n ds x s W" "\<And>a. a \<notin> set (call_words (int_base s - 8)) \<Longrightarrow> W' a = W a"
  shows "frame_held e n ds x s W'"
  using assms by (simp add: frame_held_def int_frame_def int_base_def int_top_def call_words_def split: if_splits)

lemma frame_held_cong:
  assumes "frame_held e n ds x s W" "\<And>a. a \<in> set (below 18 (int_top s)) \<Longrightarrow> W' a = W a"
  shows "frame_held e n ds x s W'"
  using assms by (simp add: frame_held_def int_frame_def below_18 split: if_splits)

lemma call_enter:
  assumes "gate_target (idt_entries s) v = Some (8, start)" "int_room s" "err @ ws = [e, n]"
  shows "bind_outcome (bind_outcome (gate_enter v err x s) (stub_save ws ds x)) (\<lambda>t. push_all [reg_esp t, ret] t) =
    Inr (handler_entry ret start e n ds x s)"
  using assms(2)
  by (cases "seg_cs s AND 3 = 0") (simp_all add: enter_run [OF assms] push_in_stub int_room_def int_top_def
      below_18 int_base_def handler_entry_def call_stack_def int_frame_def)

lemma call_run:
  assumes "gate_target (idt_entries s) v = Some (8, start)" "int_room s" "err @ ws = [e, n]"
  shows "bind_outcome (bind_outcome (gate_enter v err x s) (stub_save ws ds x)) (stub_call ret h) =
    bind_outcome (h (int_base s) (handler_entry ret start e n ds x s)) (\<lambda>t. Inr (t\<lparr>reg_esp := reg_esp t + 8\<rparr>))"
  using call_enter [OF assms, of x ds ret] by (simp add: enter_run [OF assms] stub_call_def)

lemma interrupt_returns:
  assumes "gate_target (idt_entries s) v = Some (8, start)" "int_room s" "err @ ws = [e, n]"
    and "one_segment x s" "ucast ds = seg_ds s"
    and "h (int_base s) (handler_entry ret start e n ds y s) = Inr (in_stub W (int_ss s) (int_base s - 8) start t)"
    and "frame_held e n ds x s W" "bytes_mapped 4 t = bytes_mapped 4 s" "restored s t = t"
  shows "bind_outcome (bind_outcome (gate_enter v err y s) (stub_save ws ds y)) (\<lambda>u. bind_outcome (stub_call ret h u) stub_leave) =
    Inr (x, t\<lparr>stack_words := W\<rparr>)"
proof -
  let ?u = "(in_stub W (int_ss s) (int_base s - 8) start t)\<lparr>reg_esp := int_base s\<rparr>"
  have "restored s ?u = (restored s t)\<lparr>stack_words := W\<rparr>"
    by (simp add: restored_def in_stub_def)
  moreover have "stub_leave ?u = Inr (x, restored s ?u)"
    using assms(2,4,5,7,8) by (intro leave_run) (simp_all add: int_room_def int_ss_def)
  ultimately show ?thesis
    using call_run [OF assms(1-3), of y ds ret h] assms(6,9) by (simp add: bind_outcome_assoc [symmetric])
qed

section \<open>Exceptions\<close>


section \<open>Devices\<close>

text \<open>What the handler of a line other than the timer does.\<close>

definition device_event :: "nat \<Rightarrow> 'a irq_scheme \<Rightarrow> 'a irq_scheme" where
  "device_event n s = pic_eoi (of_nat n) (case irq_routines s ! n of None \<Rightarrow> s | Some f \<Rightarrow> run_routine f s)"

lemma in_stub_update:
  "(in_stub W ss esp start s)\<lparr>io_log := l\<rparr> = in_stub W ss esp start (s\<lparr>io_log := l\<rparr>)"
  "(in_stub W ss esp start s)\<lparr>kbd_buffer := b\<rparr> = in_stub W ss esp start (s\<lparr>kbd_buffer := b\<rparr>)"
  "(in_stub W ss esp start s)\<lparr>kbd_buffer_head := h\<rparr> = in_stub W ss esp start (s\<lparr>kbd_buffer_head := h\<rparr>)"
  "(in_stub W ss esp start s)\<lparr>lshift_pressed := c\<rparr> = in_stub W ss esp start (s\<lparr>lshift_pressed := c\<rparr>)"
  "(in_stub W ss esp start s)\<lparr>rshift_pressed := c\<rparr> = in_stub W ss esp start (s\<lparr>rshift_pressed := c\<rparr>)"
  "(in_stub W ss esp start s)\<lparr>caps_lock := c\<rparr> = in_stub W ss esp start (s\<lparr>caps_lock := c\<rparr>)"
  by (simp_all add: in_stub_def)

lemma in_stub_kbd [simp]:
  "device (in_stub W ss esp start s) = device s" "io_log (in_stub W ss esp start s) = io_log s"
  "kbd_buffer (in_stub W ss esp start s) = kbd_buffer s" "kbd_buffer_head (in_stub W ss esp start s) = kbd_buffer_head s"
  "kbd_buffer_tail (in_stub W ss esp start s) = kbd_buffer_tail s" "caps_lock (in_stub W ss esp start s) = caps_lock s"
  "lshift_pressed (in_stub W ss esp start s) = lshift_pressed s" "rshift_pressed (in_stub W ss esp start s) = rshift_pressed s"
  by (simp_all add: in_stub_def)

lemma keyboard_in_stub: "keyboard_handler (in_stub W ss esp start s) = in_stub W ss esp start (keyboard_handler s)"
proof -
  have "kbd_translate c (in_stub W ss esp start t) = kbd_translate c t" for c and t :: "'a irq_scheme"
    by (simp only: kbd_translate_def in_stub_kbd)
  moreover have "kbd_push c (in_stub W ss esp start t) = in_stub W ss esp start (kbd_push c t)" for c and t :: "'a irq_scheme"
    by (simp add: kbd_push_def Let_def in_stub_update)
  ultimately show ?thesis
    by (simp add: keyboard_handler_def inb_def Let_def in_stub_update if_distrib [of "in_stub W ss esp start"])
qed

definition key_change :: "'a irq_scheme \<Rightarrow> 'a irq_scheme \<Rightarrow> bool" where
  "key_change s t \<longleftrightarrow>
     (\<exists>l b h q x y z. t = s\<lparr>io_log := l, kbd_buffer := b, kbd_buffer_head := h, kbd_buffer_tail := q,
        lshift_pressed := x, rshift_pressed := y, caps_lock := z\<rparr>) \<and> (kbd_ok s \<longrightarrow> kbd_ok t)"

lemma key_change_trans: "key_change s t \<Longrightarrow> key_change t u \<Longrightarrow> key_change s u"
  unfolding key_change_def by (cases s) auto

lemma key_change_shape:
  "key_change s (s\<lparr>io_log := l\<rparr>)" "key_change s (s\<lparr>lshift_pressed := x\<rparr>)" "key_change s (s\<lparr>rshift_pressed := x\<rparr>)"
  "key_change s (s\<lparr>caps_lock := x\<rparr>)"
  by (cases s; simp add: key_change_def kbd_ok_def)+

lemma key_change_push: "key_change s (kbd_push c s)"
  by (cases s) (simp add: key_change_def kbd_push_def Let_def kbd_ok_def KBD_BUFFER_SIZE_def unat_mod)

lemma key_change_handler: "key_change s (keyboard_handler s)"
proof -
  have in_: "key_change s (s\<lparr>io_log := l\<rparr>)" for l
    by (rule key_change_shape)
  have s: "key_change s s"
    using in_ [of "io_log s"] by simp
  show ?thesis
    unfolding keyboard_handler_def Let_def inb_def
    by (auto intro: s in_ key_change_trans [OF in_] key_change_shape key_change_push)
qed

lemma key_change_eoi: "key_change s (pic_eoi irq s)"
  by (cases s) (simp add: key_change_def pic_eoi_def outb_def kbd_ok_def)

lemma key_change_same: "key_change s t \<Longrightarrow> heap_same s t"
  by (auto simp: key_change_def heap_same_def)

lemma key_change_restored: "key_change s t \<Longrightarrow> restored s t = t"
  by (cases s) (auto simp: key_change_def restored_def)

lemma device_in_stub: "device_event n (in_stub W ss esp start s) = in_stub W ss esp start (device_event n s)"
proof -
  have "pic_eoi m (in_stub W ss esp start t) = in_stub W ss esp start (pic_eoi m t)" for m and t :: "'a irq_scheme"
    by (simp add: in_stub_def pic_eoi_def outb_def)
  moreover have "run_routine f (in_stub W ss esp start s) = in_stub W ss esp start (run_routine f s)" for f
    by (cases f) (simp add: keyboard_in_stub)
  ultimately show ?thesis
    by (simp add: device_event_def split: option.split)
qed

lemma key_change_device: "key_change s (device_event n s)"
proof -
  have "key_change s (run_routine f s)" for f
    by (cases f) (simp add: key_change_handler)
  then show ?thesis
    by (auto simp: device_event_def intro: key_change_trans [OF _ key_change_eoi] key_change_eoi split: option.split)
qed

lemma device_handled:
  assumes "0 < n" "n < 16" "length (irq_routines s) = 16" "r_int_no r = of_nat (32 + n)"
  shows "irq_handler ret r s = Inr (device_event n s)"
proof -
  have "unat (of_nat n :: u32) = n"
    using assms(2) by (simp add: unat_of_nat_small)
  moreover have "(of_nat n :: u32) \<noteq> 0"
    using calculation assms(1) by auto
  moreover have "(ucast (of_nat n :: u32) :: u8) = of_nat n"
    using calculation(1) of_nat_unat [of "of_nat n :: u32"] by metis
  ultimately show ?thesis
    using assms by (simp add: irq_handler_def device_event_def Let_def)
qed


section \<open>Preemption\<close>

text \<open>
  The timer interrupt up to the point where \<open>schedule\<close> has switched, in the task that goes on there;
  and what a task executes that comes back from \<open>switch_to\<close>: the two arguments are dropped, then the
  return address and the argument of \<open>irq_handler\<close>, and the stub restores.
\<close>

definition timer_enter :: "u32 \<Rightarrow> u32 \<Rightarrow> scratch \<Rightarrow> 'a irq_scheme \<Rightarrow> 'a irq_scheme outcome" where
  "timer_enter ret sret x s =
     bind_outcome (irq_enter 0 x s) (\<lambda>t.
     bind_outcome (push_all [reg_esp t, ret] t) (\<lambda>u. irq_handler sret (frame_at (reg_esp t) u) u))"

definition irq_resume :: "'a irq_scheme \<Rightarrow> (scratch \<times> 'a irq_scheme) outcome" where
  "irq_resume s = stub_leave (s\<lparr>reg_esp := reg_esp s + 8 + 8\<rparr>)"

text \<open>The stack that the interrupt and the switch use, and a state in which it is untouched.\<close>

definition int_stack :: "'a irq_scheme \<Rightarrow> u32 set" where
  "int_stack s = set (below 25 (int_top s))"

definition task_kept :: "u32 \<Rightarrow> u32 set \<Rightarrow> 'a task_scheme \<Rightarrow> 'a task_scheme \<Rightarrow> bool" where
  "task_kept p R t u \<longleftrightarrow> task_esp (tasks u p) = task_esp (tasks t p) \<and>
     (\<forall>a \<in> R. stack_words u a = stack_words t a \<and> bytes_mapped 4 u a)"

definition segments :: "'a cpu_scheme \<Rightarrow> u16 \<times> u16" where
  "segments s = (seg_cs s, seg_ss s)"

lemma step_segments:
  "push v s = Inr t \<Longrightarrow> segments t = segments s" "pop s = Inr (w, t) \<Longrightarrow> segments t = segments s"
  "set_task p f s = Inr t \<Longrightarrow> segments t = segments s"
  by (auto simp: push_def pop_def set_word_def get_word_def set_task_def segments_def bind_outcome_Inr_iff split: if_splits)

lemma segments_update [simp]:
  "segments (s\<lparr>reg_esp := a\<rparr>) = segments s" "segments (s\<lparr>reg_ebp := a\<rparr>) = segments s"
  "segments (s\<lparr>reg_ebx := a\<rparr>) = segments s" "segments (s\<lparr>reg_esi := a\<rparr>) = segments s"
  "segments (s\<lparr>reg_edi := a\<rparr>) = segments s" "segments (s\<lparr>reg_eip := a\<rparr>) = segments s"
  "segments (s\<lparr>current_task := a\<rparr>) = segments s" "segments (tss_set_stack a s) = segments s"
  by (simp_all add: segments_def tss_set_stack_def)

lemma switch_segments:
  "switch_save s = Inr t \<Longrightarrow> segments t = segments s" "switch_restore s = Inr t \<Longrightarrow> segments t = segments s"
  by (auto simp: switch_save_def switch_restore_def bind_outcome_Inr_iff dest!: step_segments)

lemma schedule_segments: "schedule ret s = Inr t \<Longrightarrow> segments t = segments s"
  by (auto simp: schedule_def call_switch_to_def switch_to_def Let_def bind_outcome_Inr_iff
      dest!: step_segments switch_segments split: if_splits)

lemma int_stack_parts:
  "set (below 18 (int_top s)) \<subseteq> int_stack s" "set (call_words (int_base s - 8)) \<subseteq> int_stack s"
  "set (frame_words (int_base s - 36)) \<subseteq> int_stack s"
  by (auto simp: int_stack_def int_top_def int_base_def below_18 below_25 call_words_def frame_words_def)

lemma timer_suspends:
  fixes s :: "'a irq_scheme"
  assumes gate: "gate_target (idt_entries s) 32 = Some (8, start)" "0 < length (irq_routines s)" "irq_routines s ! 0 = None"
    and stack: "\<forall>a \<in> int_stack s. bytes_mapped 4 s a"
    and q: "queue s ts k" "1 < length ts"
    and frame: "\<forall>a \<in> set (frame_words (task_esp (tasks s (ts ! (Suc k mod length ts))))). a \<notin> int_stack s \<and> bytes_mapped 4 s a"
  shows "\<exists>t. timer_enter ret sret x s = Inr t \<and> queue t ts (Suc k mod length ts) \<and>
    registers t = saved s (ts ! (Suc k mod length ts)) \<and> timer_ticks t = timer_ticks s + 1 \<and>
    task_esp (tasks t (current_task s)) = int_base s - 36 \<and> saved t (current_task s) ! 4 = sret \<and>
    frame_held 0 32 (ucast (seg_ds s)) x s (stack_words t) \<and> heap_same s t \<and> segments t = (8, int_ss s)"
proof -
  let ?ds = "ucast (seg_ds s) :: u32" and ?n = "ts ! (Suc k mod length ts)" and ?p = "current_task s"
  define u where "u = handler_entry ret start 0 32 ?ds x s"
  define v where "v = u\<lparr>timer_ticks := timer_ticks u + 1, io_log := io_log u @ [Out PIC1_COMMAND 0x20]\<rparr>"
  have room: "int_room s"
    using stack int_stack_parts(1) [of s] by (auto simp: int_room_def list_all_iff)
  have held: "frame_held 0 32 ?ds x s (stack_words u)"
    by (simp add: u_def handler_entry_def call_stack_def frame_kept)
  have words: "[] @ irq_words 0 = [0, 32]"
    by (simp add: irq_words_def)
  have "timer_enter ret sret x s = irq_handler sret (frame_at (int_base s) u) u"
    using enter_run [OF _ room words, of 32 start x ?ds] call_enter [OF _ room words, of 32 start x ?ds ret] gate(1)
    by (simp add: timer_enter_def irq_enter_def u_def)
  also have "\<dots> = schedule sret v"
    using frame_regs(10) [OF held] gate(2,3) by (subst irq_handler_timer) (simp_all add: v_def u_def handler_entry_def)
  finally have run: "timer_enter ret sret x s = schedule sret v" .
  have v: "reg_esp v = int_base s - 8" "stack_words v = call_stack ret 0 32 ?ds x s" "tasks v = tasks s"
    "current_task v = ?p" "ready_queue v = ready_queue s" "bytes_mapped m v = bytes_mapped m s" "timer_ticks v = timer_ticks s + 1" for m
    by (simp_all add: v_def u_def handler_entry_def in_stub_def fun_eq_iff bytes_mapped_def)
  have outside: "stack_words v a = stack_words s a" if "a \<notin> int_stack s" for a
    using that int_stack_parts(1) [of s] unfolding v(2) by (intro call_stack_outside) auto
  have "queue v ts k" "stack_room v" "frame_ok v ?n"
    using q(1) stack frame int_stack_parts(2) [of s] v
    by (auto simp: queue_def stack_room_def frame_ok_def list_all_iff)
  then obtain t where t: "schedule sret v = Inr t" "queue t ts (Suc k mod length ts)"
    "registers t = saved v ?n" "tasks t = (tasks v)(?p := (tasks v ?p)\<lparr>task_esp := reg_esp v - 28\<rparr>)"
    "saved t ?p = [reg_edi v, reg_esi v, reg_ebx v, reg_ebp v, sret]"
    "\<And>a. a \<notin> set (call_words (reg_esp v)) \<Longrightarrow> stack_words t a = stack_words v a" "task.more t = task.more v" "heap_same v t"
    using schedule_ok [OF _ q(2), of v k sret] unfolding v(4) by metis
  have "timer_ticks t = timer_ticks v"
    using t(7) by (cases t; cases v) simp
  moreover have "saved v ?n = saved s ?n"
    using frame v(3) outside by (auto simp: saved_def)
  moreover have "frame_held 0 32 ?ds x s (stack_words t)"
    using frame_held_below [OF held] t(6) v(1,2) by (simp add: u_def handler_entry_def)
  moreover have "heap_same s v"
    by (simp add: heap_same_def v_def u_def handler_entry_def in_stub_def)
  then have "heap_same s t"
    using t(8) by (simp add: heap_same_def)
  moreover have "segments t = (8, int_ss s)"
    using schedule_segments [OF t(1)] by (simp add: segments_def v_def u_def handler_entry_def)
  ultimately show ?thesis
    using run t v by (intro exI [of _ t]) simp
qed

lemma suspended_resumes:
  fixes s u :: "'a irq_scheme"
  assumes frame: "task_esp (tasks u p) = int_base s - 36" "saved u p ! 4 = sret"
      "frame_held 0 32 (ucast (seg_ds s)) x s (stack_words u)"
    and stack: "\<forall>a \<in> int_stack s. bytes_mapped 4 u a"
    and q: "queue u ts j" "1 < length ts" "ts ! (Suc j mod length ts) = p"
    and room: "\<forall>a \<in> set (call_words (reg_esp u)). a \<notin> int_stack s \<and> bytes_mapped 4 u a"
    and seg: "seg_cs u AND 3 = 0" "seg_cs s AND 3 = 0 \<Longrightarrow> seg_ss u = seg_ss s" "one_segment x s"
  shows "\<exists>v. schedule ret u = Inr v \<and> reg_eip v = sret \<and> current_task v = p \<and> irq_resume v = Inr (x, restored s v)"
proof -
  have "stack_room u" "frame_ok u p"
    using room stack int_stack_parts(3) [of s] frame(1) by (auto simp: stack_room_def frame_ok_def list_all_iff)
  then obtain v where v: "schedule ret u = Inr v" "current_task v = p" "registers v = saved u p"
    "reg_esp v = task_esp (tasks u p) + 20"
    "\<And>a. a \<notin> set (call_words (reg_esp u)) \<Longrightarrow> stack_words v a = stack_words u a" "heap_same u v"
    using schedule_ok [OF q(1,2), of ret] unfolding q(3) by metis
  have eip: "reg_eip v = sret"
    using v(3) frame(2) by (simp add: registers_def saved_def frame_words_def)
  have "stack_words v a = stack_words u a" if "a \<in> set (below 18 (int_top s))" for a
    using that room int_stack_parts(1) [of s] by (intro v(5)) auto
  from frame_held_cong [OF frame(3) this] have held: "frame_held 0 32 (ucast (seg_ds s)) x s (stack_words v)" .
  have ds: "(ucast (ucast (seg_ds s) :: u32) :: u16) = seg_ds s"
    by (rule bit_word_eqI) (simp add: bit_simps)
  have esp: "reg_esp v + 8 + 8 = int_base s"
    using v(4) frame(1) by simp
  let ?v = "v\<lparr>reg_esp := int_base s\<rparr>"
  have "stub_leave ?v = Inr (x, restored s ?v)"
  proof (rule leave_run)
    show "frame_held 0 32 (ucast (seg_ds s)) x s (stack_words ?v)"
      using held by simp
    show "list_all (bytes_mapped 4 ?v) (below 18 (int_top s))"
      using stack int_stack_parts(1) [of s] heap_same_ok(3) [OF v(6)] by (auto simp: list_all_iff)
  qed (use seg schedule_segments [OF v(1)] ds in \<open>simp_all add: segments_def\<close>)
  moreover have "restored s ?v = restored s v"
    by (simp add: restored_def)
  ultimately have "irq_resume v = Inr (x, restored s v)"
    by (simp only: irq_resume_def esp)
  with v(1,2) eip show ?thesis
    by blast
qed


section \<open>Instances\<close>

text \<open>One page, mapped at its own address, with the text ``Hi'' in it.\<close>

definition hi_memory :: memory where
  "hi_memory = (\<lambda>_. 0)(0x1000 := 1, 0x1001 := 0x20, 0x200C := 1, 0x200D := 0x30, 0x3000 := 72, 0x3001 := 105)"

lemma hi_loads: "load32 hi_memory 0x1000 = 0x2001" "load32 hi_memory 0x200C = 0x3001"
  by (simp_all add: load32_def hi_memory_def)

lemma hi_translate:
  "translate hi_memory 0x1000 0x3000 = Some 0x3000" "translate hi_memory 0x1000 0x3001 = Some 0x3001"
  "translate hi_memory 0x1000 0x3002 = Some 0x3002"
  by (simp_all add: translate_def hi_loads entry_at_def frame_def dir_index_def table_index_def offset_def present_def
      bit_mask_numerals_int)

lemma hi_mapped:
  assumes "0x3000 \<le> unat a" "unat a + 4 \<le> 0x4000" "mem s = hi_memory" "cr3 s = 0x1000"
  shows "bytes_mapped 4 s a"
proof -
  have "translate (mem s) (cr3 s) (a + of_nat k) \<noteq> None" if "k < 4" for k
  proof -
    have "unat (a + of_nat k) = unat a + k"
      using that assms(2) by (subst unat_add_small) (simp_all add: unat_of_nat_small)
    moreover have "(unat a + k) div 4194304 = 0" "(unat a + k) div 4096 = 3"
      using assms(1,2) that by (auto intro!: div_nat_eqI)
    ultimately have "dir_index (a + of_nat k) = 0" "table_index (a + of_nat k) = 3"
      by (simp_all add: dir_index_div table_index_div)
    then show ?thesis
      by (simp add: assms(3,4) translate_def hi_loads entry_at_def frame_def present_def bit_mask_numerals_int)
  qed
  then show ?thesis
    by (simp add: bytes_mapped_def list_all_iff)
qed

text \<open>The kernel running with its stack in that page, every gate present, and the key \<^verbatim>\<open>a\<close> waiting.\<close>

definition stub_irq :: irq where
  "stub_irq = boot_irq\<lparr>mem := hi_memory, cr3 := 0x1000, idt_entries := replicate 256 (idt_make_entry 0xC0102000 8 0xEE),
     seg_cs := 8, seg_ds := 0x10, seg_es := 0x10, seg_fs := 0x10, seg_gs := 0x10, reg_esp := 0x4000, interrupt_flag := True,
     device := (\<lambda>_ _. 0x1E), irq_routines := no_routines[1 := Some Keyboard_handler]\<rparr>"

definition stub_scratch :: scratch where
  "stub_scratch = \<lparr>reg_eax = 7, reg_ecx = 8, reg_edx = 9, reg_eflags = 0x200\<rparr>"

lemma stub_gate: "v < 256 \<Longrightarrow> gate_target (replicate 256 (idt_make_entry 0xC0102000 8 0xEE)) v = Some (8, 0xC0102000)"
  by (simp add: gate_target_def gate_address_make) (simp add: idt_make_entry_def)

lemma stub_ready:
  "v < 256 \<Longrightarrow> gate_target (idt_entries stub_irq) v = Some (8, 0xC0102000)" "length (irq_routines stub_irq) = 16"
  "int_room stub_irq" "one_segment stub_scratch stub_irq"
  by (simp_all add: stub_irq_def stub_gate no_routines_def int_room_def int_top_def below_18 hi_mapped one_segment_def
      stub_scratch_def)




end
