(* ===== verification/Syscall.thy ===== *)
theory Syscall
  imports Stubs
begin

text \<open>
  System calls (\<^verbatim>\<open>kernel/syscall.cpp\<close>) and the user side of them: the task of
  \<^verbatim>\<open>kernel/kernel.cpp\<close> that runs in ring 3, and the way there (\<^verbatim>\<open>jump_to_usermode\<close> in
  \<^verbatim>\<open>cpu/interrupts.S\<close>). A system call takes the whole way through the gate of vector 128 and its stub,
  and back with \<^verbatim>\<open>iret\<close>. A string that the user passes is read through the page tables.
\<close>

section \<open>Strings in virtual memory\<close>

definition vload8 :: "u32 \<Rightarrow> 'a vmm_scheme \<Rightarrow> u8 outcome" where
  "vload8 v s = (case translate (mem s) (cr3 s) v of None \<Rightarrow> Inl Wild | Some p \<Rightarrow> Inr (mem s p))"

text \<open>The characters up to the terminating zero; \<open>None\<close> if there is none.\<close>

partial_function (option) read_string :: "u32 \<Rightarrow> 'a vmm_scheme \<Rightarrow> string outcome option" where
  "read_string p s =
     (case vload8 p s of
        Inl e \<Rightarrow> Some (Inl e)
      | Inr b \<Rightarrow>
          if b = 0 then Some (Inr [])
          else Option.bind (read_string (p + 1) s) (\<lambda>r. Some (bind_outcome r (\<lambda>cs. Inr (char_of (unat b) # cs)))))"

definition finish :: "'b outcome option \<Rightarrow> 'b outcome" where
  "finish r = (case r of None \<Rightarrow> Inl Hang | Some x \<Rightarrow> x)"

fun string_at :: "'a vmm_scheme \<Rightarrow> u32 \<Rightarrow> string \<Rightarrow> bool" where
  "string_at s p [] \<longleftrightarrow> vload8 p s = Inr 0"
| "string_at s p (c # cs) \<longleftrightarrow> vload8 p s = Inr (of_char c) \<and> c \<noteq> nul \<and> string_at s (p + 1) cs"

lemma of_char_zero: "(of_char c :: u8) = 0 \<longleftrightarrow> c = nul"
  by (simp add: of_char_u8_zero nul_def)

lemma read_string_at: "string_at s p cs \<Longrightarrow> read_string p s = Some (Inr cs)"
proof (induction s p cs rule: string_at.induct)
  case (1 s p)
  then show ?case by (subst read_string.simps) simp
next
  case (2 s p c cs)
  then show ?case
    by (subst read_string.simps) (simp add: of_char_zero of_char_u8_unat)
qed

section \<open>The kernel side\<close>

definition syscall_init :: "'a tty_scheme \<Rightarrow> 'a tty_scheme outcome" where
  "syscall_init s = print (''System call interface initialized (int 0x80).'' @ [newline_char]) [] s"

definition NUM_SYSCALLS :: u32 where "NUM_SYSCALLS = 1"

definition sys_printf :: "u32 \<Rightarrow> 'a vmm_scheme \<Rightarrow> 'a vmm_scheme outcome" where
  "sys_printf str s =
     (if str = 0 then print ''%s'' [PStr None] s
      else bind_outcome (finish (read_string str s)) (\<lambda>cs. print ''%s'' [PStr (Some cs)] s))"

definition syscall_handler :: "regs \<Rightarrow> 'a irq_scheme \<Rightarrow> (regs \<times> 'a irq_scheme) outcome" where
  "syscall_handler r s =
     (if NUM_SYSCALLS \<le> r_eax r then Inr (r, s)
      else if r_eax r = 0 then
        bind_outcome (sys_printf (r_ebx r) s) (\<lambda>s. Inr (r\<lparr>r_eax := 0\<rparr>, s))
      else if r_eax r = 1 then Inr (r\<lparr>r_eax := get_timer_ticks s\<rparr>, s)
      else Inr (r\<lparr>r_eax := - 1\<rparr>, s))"

text \<open>
  The stub of vector 128: \<^verbatim>\<open>mov %ds, %ax\<close> keeps the upper half of eax. The handler may assign eax in
  the frame, from where the stub restores it.
\<close>

definition isr128_enter :: "scratch \<Rightarrow> 'a irq_scheme \<Rightarrow> 'a irq_scheme outcome" where
  "isr128_enter x s =
     bind_outcome (gate_enter 128 [] x s) (\<lambda>t.
       stub_save [0, 128] ((reg_eax x AND 0xFFFF0000) OR ucast (seg_ds s)) x (t\<lparr>interrupt_flag := False\<rparr>))"

definition syscall_at :: "u32 \<Rightarrow> 'a irq_scheme \<Rightarrow> 'a irq_scheme outcome" where
  "syscall_at p s = bind_outcome (syscall_handler (frame_at p s) s) (\<lambda>(r, s). set_word (p + 32) (r_eax r) s)"

text \<open>\<^verbatim>\<open>int $0x80\<close>: only a gate that is open to the ring of the caller may be used.\<close>

definition int_0x80 :: "u32 \<Rightarrow> scratch \<Rightarrow> 'a irq_scheme \<Rightarrow> (scratch \<times> 'a irq_scheme) outcome" where
  "int_0x80 ret x s =
     (if software_gate (idt_entries s) 128 (ucast (seg_cs s AND 3))
      then bind_outcome (isr128_enter x s) (\<lambda>t. bind_outcome (stub_call ret syscall_at t) stub_leave)
      else Inl Wild)"

section \<open>The user side\<close>

text \<open>One round of the loop of \<open>test_task\<close>; \<open>msg\<close> is the address of its text.\<close>

definition test_task_round ::
    "u32 \<Rightarrow> u32 \<Rightarrow> u32 \<times> scratch \<times> 'a irq_scheme \<Rightarrow> (u32 \<times> scratch \<times> 'a irq_scheme) outcome" where
  "test_task_round ret msg = (\<lambda>(last_tick, x, s).
     bind_outcome (int_0x80 ret (x\<lparr>reg_eax := 1\<rparr>) s) (\<lambda>(x, s).
       let current_tick = reg_eax x
       in if 200 \<le> current_tick - last_tick
          then bind_outcome (int_0x80 ret (x\<lparr>reg_eax := 0\<rparr>) (s\<lparr>reg_ebx := msg\<rparr>)) (\<lambda>(x, s). Inr (current_tick, x, s))
          else Inr (last_tick, x, s)))"

primrec test_task ::
    "nat \<Rightarrow> u32 \<Rightarrow> u32 \<Rightarrow> u32 \<times> scratch \<times> 'a irq_scheme \<Rightarrow> (u32 \<times> scratch \<times> 'a irq_scheme) outcome" where
  "test_task 0 ret msg y = Inr y"
| "test_task (Suc n) ret msg y = bind_outcome (test_task_round ret msg y) (test_task n ret msg)"

text \<open>
  The data segments, then the frame of \<^verbatim>\<open>iret\<close> on the kernel stack: stack segment and pointer, the
  flags with interrupts on, code segment and entry point.
\<close>

definition jump_to_usermode :: "u32 \<Rightarrow> u32 \<Rightarrow> scratch \<Rightarrow> 'a irq_scheme \<Rightarrow> (scratch \<times> 'a irq_scheme) outcome" where
  "jump_to_usermode entry_point user_stack x s =
     (let x = x\<lparr>reg_ecx := user_stack\<rparr>;
          s = s\<lparr>reg_ebx := entry_point, interrupt_flag := False, seg_ds := 0x23, seg_es := 0x23, seg_fs := 0x23, seg_gs := 0x23\<rparr>
      in bind_outcome (push_all [0x23, reg_ecx x, flags_word x s] s) (\<lambda>s.
         bind_outcome (pop s) (\<lambda>(eax, s).
         let x = x\<lparr>reg_eax := eax OR 0x200\<rparr>
         in bind_outcome (push_all [reg_eax x, 0x1B, reg_ebx s] s) (\<lambda>s.
            bind_outcome (iret s) (\<lambda>(flags, s). Inr (x\<lparr>reg_eflags := flags\<rparr>, s))))))"

definition user_mode_proxy :: "u32 \<Rightarrow> scratch \<Rightarrow> 'a irq_scheme \<Rightarrow> (scratch \<times> 'a irq_scheme) outcome" where
  "user_mode_proxy test_task_addr x s =
     bind_outcome (kmalloc_call 4096 s) (\<lambda>(p, s). jump_to_usermode test_task_addr (p + 4096) x s)"

section \<open>A system call returns\<close>

lemma tty_in_stub [simp]:
  "terminal_row (in_stub W ss esp start s) = terminal_row s" "terminal_column (in_stub W ss esp start s) = terminal_column s"
  "terminal_color (in_stub W ss esp start s) = terminal_color s" "terminal_buffer (in_stub W ss esp start s) = terminal_buffer s"
  "mem (in_stub W ss esp start s) = mem s" "cr3 (in_stub W ss esp start s) = cr3 s"
  "timer_ticks (in_stub W ss esp start s) = timer_ticks s"
  by (simp_all add: in_stub_def)

lemma tty_in_stub_update:
  "(in_stub W ss esp start s)\<lparr>terminal_row := n\<rparr> = in_stub W ss esp start (s\<lparr>terminal_row := n\<rparr>)"
  "(in_stub W ss esp start s)\<lparr>terminal_column := n\<rparr> = in_stub W ss esp start (s\<lparr>terminal_column := n\<rparr>)"
  "(in_stub W ss esp start s)\<lparr>terminal_buffer := b\<rparr> = in_stub W ss esp start (s\<lparr>terminal_buffer := b\<rparr>)"
  by (simp_all add: in_stub_def)

lemma putchar_in_stub:
  "terminal_putchar_unlocked c (in_stub W ss esp start s) = in_stub W ss esp start (terminal_putchar_unlocked c s)"
proof -
  have cursor: "update_cursor (in_stub W ss esp start t) = in_stub W ss esp start (update_cursor t)" for t :: "'a irq_scheme"
    by (simp add: update_cursor_def Let_def outb_def in_stub_update)
  have row: "next_row (in_stub W ss esp start t) = in_stub W ss esp start (next_row t)" for t :: "'a irq_scheme"
    by (simp add: next_row_def terminal_scroll_def Let_def tty_in_stub_update if_distrib [of "in_stub W ss esp start"]
        del: upt_rec_numeral)
  show ?thesis
    by (simp add: terminal_putchar_unlocked_def Let_def tty_in_stub_update cursor row)
qed

lemma show_text_in_stub: "show_text cs (in_stub W ss esp start s) = in_stub W ss esp start (show_text cs s)"
  by (induction cs arbitrary: s) (simp_all add: show_text_def putchar_in_stub)

lemma show_text_restored: "restored s (show_text cs s) = show_text cs s"
  using show_text_changes [of cs s] by (cases s) (auto simp: restored_def)

lemma gate_cli:
  fixes s :: "'a irq_scheme"
  shows "bind_outcome (gate_enter v err x s) (\<lambda>t. f (t\<lparr>interrupt_flag := False\<rparr>)) = bind_outcome (gate_enter v err x s) f"
proof (cases "gate_enter v err x s")
  case (Inr t)
  then have "interrupt_flag t = False"
    by (auto simp: gate_enter_def bind_outcome_Inr_iff split: option.splits)
  then have "t\<lparr>interrupt_flag := False\<rparr> = t"
    by simp
  with Inr show ?thesis
    by simp
qed simp

lemma frame_held_eax:
  "frame_held e n ds x s W \<Longrightarrow> frame_held e n ds (x\<lparr>reg_eax := v\<rparr>) s (W(int_base s + 32 := v))"
  by (simp add: frame_held_def int_frame_def int_base_def int_top_def flags_word_def split: if_splits)

lemma int_0x80_run:
  fixes s :: "'a irq_scheme"
  defines "ds \<equiv> \<lambda>x s :: 'a irq_scheme. (reg_eax x AND 0xFFFF0000) OR ucast (seg_ds s) :: u32"
  defines "u \<equiv> \<lambda>ret start x s. handler_entry ret start 0 128 (ds x s) x s"
  assumes gate: "gate_target (idt_entries s) 128 = Some (8, start)" "software_gate (idt_entries s) 128 (ucast (seg_cs s AND 3))"
    and room: "int_room s" and seg: "one_segment x s"
    and h: "syscall_handler (frame_at (int_base s) (u ret start x s)) (u ret start x s) =
      Inr (r, in_stub (stack_words (u ret start x s)) (int_ss s) (int_base s - 8) start t)"
    and t: "bytes_mapped 4 t = bytes_mapped 4 s" "restored s t = t"
  shows "\<exists>W. int_0x80 ret x s = Inr (x\<lparr>reg_eax := r_eax r\<rparr>, t\<lparr>stack_words := W\<rparr>)"
proof -
  let ?W = "(stack_words (u ret start x s))(int_base s + 32 := r_eax r)"
  have "frame_held 0 128 (ds x s) x s (stack_words (u ret start x s))"
    by (simp add: u_def handler_entry_def call_stack_def frame_kept)
  then have held: "frame_held 0 128 (ds x s) (x\<lparr>reg_eax := r_eax r\<rparr>) s ?W"
    by (rule frame_held_eax)
  have "bytes_mapped 4 s (int_base s + 32)"
    using room by (simp add: int_room_def int_top_def int_base_def below_18 split: if_splits)
  then have "syscall_at (int_base s) (u ret start x s) = Inr (in_stub ?W (int_ss s) (int_base s - 8) start t)"
    using t(1) by (simp add: syscall_at_def h set_word_def) (simp add: in_stub_def)
  moreover have high: "(0xFFFF0000 :: u32) = NOT (mask 16)"
    by (simp add: mask_eq_exp_minus_1)
  have "\<not> bit (0xFFFF0000 :: u32) i" if "i < 16" for i
    unfolding high using that by (simp only: bit_not_iff bit_mask_iff) auto
  then have "ucast (ds x s) = seg_ds s"
    by (intro bit_word_eqI) (simp add: ds_def bit_simps)
  moreover have "one_segment (x\<lparr>reg_eax := r_eax r\<rparr>) s"
    using seg by (simp add: one_segment_def)
  ultimately have "bind_outcome (bind_outcome (gate_enter 128 [] x s) (stub_save [0, 128] (ds x s) x))
      (\<lambda>t. bind_outcome (stub_call ret syscall_at t) stub_leave) = Inr (x\<lparr>reg_eax := r_eax r\<rparr>, t\<lparr>stack_words := ?W\<rparr>)"
    using gate(1) room held t unfolding u_def by (intro interrupt_returns) simp_all
  then show ?thesis
    using gate(2) gate_cli [of 128 "[]" x s "stub_save [0, 128] (ds x s) x"]
    by (auto simp: int_0x80_def isr128_enter_def ds_def)
qed

section \<open>Properties\<close>

lemma syscall_printf_ok:
  assumes "tty_lock s = 0" "r_eax r = 0" "r_ebx r \<noteq> 0" "string_at s (r_ebx r) cs"
  shows "syscall_handler r s = Inr (r, show_text cs s)"
proof -
  have "render ''%s'' [PStr (Some cs)] = Some cs"
    by simp
  with assms(1) have "print ''%s'' [PStr (Some cs)] s = Inr (show_text cs s)"
    by (rule print_shows)
  then show ?thesis
    using assms(2,3) read_string_at [OF assms(4)]
    by (simp add: syscall_handler_def NUM_SYSCALLS_def sys_printf_def finish_def del: render.simps)
qed

lemma syscall_unknown: "r_eax r \<noteq> 0 \<Longrightarrow> syscall_handler r s = Inr (r, s)"
  by (simp add: syscall_handler_def NUM_SYSCALLS_def word_le_nat_alt unat_gt_0 Suc_le_eq)

text \<open>A caller of a ring that may use the gate, with room on the kernel stack.\<close>

definition syscall_ready :: "scratch \<Rightarrow> 'a irq_scheme \<Rightarrow> bool" where
  "syscall_ready x s \<longleftrightarrow> (\<exists>start. gate_target (idt_entries s) 128 = Some (8, start)) \<and>
     software_gate (idt_entries s) 128 (ucast (seg_cs s AND 3)) \<and> int_room s \<and> one_segment x s"


lemma test_task_round_silent:
  assumes "syscall_ready x s"
  shows "\<exists>W. test_task_round ret msg (0, x, s) = Inr (0, x\<lparr>reg_eax := 1\<rparr>, s\<lparr>stack_words := W\<rparr>)"
proof -
  let ?x = "x\<lparr>reg_eax := 1\<rparr>"
  obtain start where gate: "gate_target (idt_entries s) 128 = Some (8, start)"
    "software_gate (idt_entries s) 128 (ucast (seg_cs s AND 3))" "int_room s" "one_segment ?x s"
    using assms by (auto simp: syscall_ready_def one_segment_def)
  let ?ds = "(reg_eax ?x AND 0xFFFF0000) OR ucast (seg_ds s) :: u32"
  let ?u = "handler_entry ret start 0 128 ?ds ?x s"
  have "frame_held 0 128 ?ds ?x s (stack_words ?u)"
    by (simp add: handler_entry_def call_stack_def frame_kept)
  note r = frame_regs [OF this]
  then have "syscall_handler (frame_at (int_base s) ?u) ?u = Inr (frame_at (int_base s) ?u, ?u)"
    by (intro syscall_unknown) simp
  moreover have "?u = in_stub (stack_words ?u) (int_ss s) (int_base s - 8) start s"
    by (simp add: handler_entry_def)
  ultimately have h: "syscall_handler (frame_at (int_base s) ?u) ?u =
      Inr (frame_at (int_base s) ?u, in_stub (stack_words ?u) (int_ss s) (int_base s - 8) start s)"
    by simp
  have "restored s s = s"
    by (simp add: restored_def)
  with int_0x80_run [OF gate h] have "\<exists>W. int_0x80 ret ?x s = Inr (?x\<lparr>reg_eax := r_eax (frame_at (int_base s) ?u)\<rparr>, s\<lparr>stack_words := W\<rparr>)"
    by simp
  then show ?thesis
    using r(9) by (auto simp: test_task_round_def word_le_nat_alt)
qed

lemma syscall_ready_same: "syscall_ready (x\<lparr>reg_eax := v\<rparr>) (s\<lparr>stack_words := W\<rparr>) = syscall_ready x s"
  by (simp add: syscall_ready_def int_room_def int_top_def one_segment_def)

text \<open>
  C36. the system call table has one entry, so the request for the ticks is refused with eax
  unchanged and the user task, which reads the number 1 of its request as the time, never prints
  its heartbeat: any number of its rounds leaves everything but the kernel stack as it was
\<close>

theorem test_task_never_prints:
  assumes "syscall_ready x s"
  shows "\<exists>y W. test_task n ret msg (0, x, s) = Inr (0, y, s\<lparr>stack_words := W\<rparr>)"
  using assms
proof (induction n arbitrary: x s)
  case 0
  have "s\<lparr>stack_words := stack_words s\<rparr> = s"
    by simp
  then show ?case
    by (metis test_task.simps(1))
next
  case (Suc n)
  obtain W where W: "test_task_round ret msg (0, x, s) = Inr (0, x\<lparr>reg_eax := 1\<rparr>, s\<lparr>stack_words := W\<rparr>)"
    using test_task_round_silent [OF Suc.prems] by blast
  have "syscall_ready (x\<lparr>reg_eax := 1\<rparr>) (s\<lparr>stack_words := W\<rparr>)"
    using Suc.prems by (simp add: syscall_ready_same)
  from Suc.IH [OF this] W show ?case
    by simp
qed

lemma jump_run:
  fixes s :: "'a irq_scheme"
  assumes "list_all (bytes_mapped 4 s) (below 5 (reg_esp s))" "seg_cs s AND 3 = 0"
  shows "\<exists>y t. jump_to_usermode start stack x s = Inr (y, t) \<and> seg_cs t = 0x1B \<and> seg_ss t = 0x23 \<and> one_segment y t \<and>
    interrupt_flag t \<and> reg_eip t = start \<and> reg_esp t = stack \<and> heap_same s t"
proof -
  have "below 5 e = [e - 4, e - 8, e - 12, e - 16, e - 20]" for e
    by (simp add: numeral_eq_Suc)
  moreover have "bit (a OR 0x200 :: u32) 9" for a
    by (simp add: bit_simps)
  ultimately show ?thesis
    using assms by (simp add: jump_to_usermode_def push_run pop_run iret_def Let_def one_segment_def heap_same_def)
qed


section \<open>Instances\<close>

text \<open>A task in ring 3, with its kernel stack in the TSS and the address of the text in ebx.\<close>

definition user_irq :: irq where
  "user_irq = stub_irq\<lparr>seg_cs := 0x1B, seg_ds := 0x23, seg_es := 0x23, seg_fs := 0x23, seg_gs := 0x23, seg_ss := 0x23,
     tss := tss_zero\<lparr>tss_ss0 := 0x10, tss_esp0 := 0x4000\<rparr>, reg_ebx := 0x3000\<rparr>"

lemma user_ready: "syscall_ready (stub_scratch\<lparr>reg_eax := v\<rparr>) user_irq"
proof -
  have "gate_target (idt_entries user_irq) 128 = Some (8, 0xC0102000)"
    using stub_ready(1) [of 128] by (simp add: user_irq_def)
  moreover have "software_gate (idt_entries user_irq) 128 (ucast (seg_cs user_irq AND 3))"
    by (simp add: software_gate_def user_irq_def stub_irq_def stub_gate) (simp add: idt_make_entry_def)
  moreover have "int_room user_irq"
    by (simp add: user_irq_def stub_irq_def int_room_def int_top_def below_18 hi_mapped)
  moreover have "one_segment (stub_scratch\<lparr>reg_eax := v\<rparr>) user_irq"
    by (simp add: one_segment_def stub_scratch_def user_irq_def stub_irq_def)
  ultimately show ?thesis
    by (simp add: syscall_ready_def)
qed


text \<open>
  An instance of C36.
\<close>

theorem test_task_never_prints_witness:
  "\<exists>y W. test_task 1000 0xC0103000 0x3000 (0, stub_scratch\<lparr>reg_eax := 5\<rparr>, user_irq) = Inr (0, y, user_irq\<lparr>stack_words := W\<rparr>)"
  by (rule test_task_never_prints [OF user_ready])


end
