(* ===== verification/Initrd.thy ===== *)
theory Initrd
  imports Syscall
begin

text \<open>
  The initial RAM disk (\<^verbatim>\<open>kernel/fs/initrd.cpp\<close>, \<^verbatim>\<open>fs/initrd.h\<close>), the nodes of the file
  system (\<^verbatim>\<open>fs/vfs.h\<close>) and the tool that builds the image (\<^verbatim>\<open>make_initrd.c\<close>). A node is a
  record at an address; the functions it points to are names of driver functions, for \<^verbatim>\<open>write\<close>,
  \<^verbatim>\<open>open\<close> and \<^verbatim>\<open>close\<close>, which no driver of the kernel provides, plain code addresses. The image
  is read byte by byte through the page tables.

  \<open>mounted s files\<close> tells that the nodes and the image in memory present the files \<open>files\<close>.
\<close>

section \<open>Nodes\<close>

datatype read_fn = Initrd_read
datatype readdir_fn = Initrd_readdir
datatype finddir_fn = Initrd_finddir

record fs_node =
  fs_name :: string
  fs_mask :: u32
  fs_uid :: u32
  fs_gid :: u32
  fs_flags :: u32
  fs_inode :: u32
  fs_length :: u32
  fs_impl :: u32
  fs_read :: "read_fn option"
  fs_write :: u32
  fs_open :: u32
  fs_close :: u32
  fs_readdir :: "readdir_fn option"
  fs_finddir :: "finddir_fn option"
  fs_ptr :: u32

record dirent =
  d_name :: string
  d_ino :: u32

record fs = irq +
  fs_nodes :: "u32 \<Rightarrow> fs_node"
  fs_root :: u32
  initrd_header :: u32
  file_headers :: u32
  initrd_root :: u32
  root_nodes :: u32
  nroot_nodes :: u32
  the_dirent :: dirent

definition FS_FILE :: u32 where "FS_FILE = 1"
definition FS_DIRECTORY :: u32 where "FS_DIRECTORY = 2"
definition sizeof_fs_node :: u32 where "sizeof_fs_node = 184"
definition sizeof_file_header :: u32 where "sizeof_file_header = 72"

definition get_fs :: "u32 \<Rightarrow> 'a fs_scheme \<Rightarrow> fs_node outcome" where
  "get_fs p s = (if bytes_mapped 184 s p then Inr (fs_nodes s p) else Inl Wild)"

definition set_fs :: "u32 \<Rightarrow> fs_node \<Rightarrow> 'a fs_scheme \<Rightarrow> 'a fs_scheme outcome" where
  "set_fs p n s = (if bytes_mapped 184 s p then Inr (s\<lparr>fs_nodes := (fs_nodes s)(p := n)\<rparr>) else Inl Wild)"

section \<open>Reading memory\<close>

primrec read_bytes :: "nat \<Rightarrow> u32 \<Rightarrow> 'a vmm_scheme \<Rightarrow> u8 list outcome" where
  "read_bytes 0 p s = Inr []"
| "read_bytes (Suc n) p s =
     bind_outcome (vload8 p s) (\<lambda>b. bind_outcome (read_bytes n (p + 1) s) (\<lambda>bs. Inr (b # bs)))"

text \<open>A 32-bit word, its lowest byte first.\<close>

definition word_of_bytes :: "u8 list \<Rightarrow> u32" where
  "word_of_bytes bs = ucast (bs ! 0) OR push_bit 8 (ucast (bs ! 1)) OR push_bit 16 (ucast (bs ! 2))
     OR push_bit 24 (ucast (bs ! 3))"

definition read_word :: "u32 \<Rightarrow> 'a vmm_scheme \<Rightarrow> u32 outcome" where
  "read_word p s = bind_outcome (read_bytes 4 p s) (\<lambda>bs. Inr (word_of_bytes bs))"

text \<open>\<open>strcpy\<close> of a name into one of the arrays of 128 characters.\<close>

definition copy_name :: "u32 \<Rightarrow> 'a vmm_scheme \<Rightarrow> string outcome" where
  "copy_name p s = bind_outcome (finish (read_string p s)) (\<lambda>cs. if length cs < 128 then Inr cs else Inl Wild)"

section \<open>The driver\<close>

definition file_header_at :: "u32 \<Rightarrow> 'a fs_scheme \<Rightarrow> u32" where
  "file_header_at i s = file_headers s + sizeof_file_header * i"

text \<open>The bytes that \<open>initrd_read\<close> copies to the buffer; their number is its result.\<close>

definition initrd_read :: "u32 \<Rightarrow> u32 \<Rightarrow> u32 \<Rightarrow> 'a fs_scheme \<Rightarrow> u8 list outcome" where
  "initrd_read node offs sz s =
     bind_outcome (get_fs node s) (\<lambda>n.
     bind_outcome (read_word (file_header_at (fs_inode n) s + 64) s) (\<lambda>header_offset.
     bind_outcome (read_word (file_header_at (fs_inode n) s + 68) s) (\<lambda>header_length.
       if header_length < offs then Inr []
       else let sz = (if header_length < offs + sz then header_length - offs else sz);
                data = initrd_header s + header_offset
            in read_bytes (unat sz) (data + offs) s)))"

text \<open>The node of entry \<open>i\<close> of the array \<^verbatim>\<open>root_nodes\<close>.\<close>

definition root_node :: "u32 \<Rightarrow> 'a fs_scheme \<Rightarrow> u32" where
  "root_node i s = root_nodes s + sizeof_fs_node * i"

text \<open>The result of \<open>initrd_readdir\<close>: whether it is \<^verbatim>\<open>&dirent\<close> or null, and the state.\<close>

definition initrd_readdir :: "u32 \<Rightarrow> u32 \<Rightarrow> 'a fs_scheme \<Rightarrow> (bool \<times> 'a fs_scheme) outcome" where
  "initrd_readdir node index s =
     (if node = initrd_root s \<and> index = 0 then
        Inr (True, s\<lparr>the_dirent := \<lparr>d_name = ''.'', d_ino = 0\<rparr>\<rparr>)
      else if node = initrd_root s \<and> index = 1 then
        Inr (True, s\<lparr>the_dirent := \<lparr>d_name = ''..'', d_ino = 0\<rparr>\<rparr>)
      else if index - 2 < nroot_nodes s then
        bind_outcome (get_fs (root_node (index - 2) s) s) (\<lambda>n.
          Inr (True, s\<lparr>the_dirent := \<lparr>d_name = fs_name n, d_ino = fs_inode n\<rparr>\<rparr>))
      else Inr (False, s))"

text \<open>The search among the entries \<open>is\<close> of \<^verbatim>\<open>root_nodes\<close>.\<close>

primrec find_node :: "nat list \<Rightarrow> string \<Rightarrow> 'a fs_scheme \<Rightarrow> u32 outcome" where
  "find_node [] name s = Inr 0"
| "find_node (i # is) name s =
     bind_outcome (get_fs (root_node (of_nat i) s) s) (\<lambda>n.
       if name = fs_name n then Inr (root_node (of_nat i) s) else find_node is name s)"

definition initrd_finddir :: "u32 \<Rightarrow> string \<Rightarrow> 'a fs_scheme \<Rightarrow> u32 outcome" where
  "initrd_finddir node name s =
     (if node = initrd_root s \<and> name = ''.'' then Inr (initrd_root s)
      else if node = initrd_root s \<and> name = ''..'' then Inr (initrd_root s)
      else find_node [0..<nat (sint (nroot_nodes s))] name s)"

text \<open>The two kinds of nodes that \<open>initialise_initrd\<close> writes, over memory it has cleared.\<close>

definition dir_node :: fs_node where
  "dir_node = \<lparr>fs_name = ''initrd'', fs_mask = 0, fs_uid = 0, fs_gid = 0, fs_flags = FS_DIRECTORY, fs_inode = 0,
     fs_length = 0, fs_impl = 0, fs_read = None, fs_write = 0, fs_open = 0, fs_close = 0,
     fs_readdir = Some Initrd_readdir, fs_finddir = Some Initrd_finddir, fs_ptr = 0\<rparr>"

definition file_node :: "string \<Rightarrow> u32 \<Rightarrow> u32 \<Rightarrow> fs_node" where
  "file_node name len i = \<lparr>fs_name = name, fs_mask = 0, fs_uid = 0, fs_gid = 0, fs_flags = FS_FILE, fs_inode = i,
     fs_length = len, fs_impl = 0, fs_read = Some Initrd_read, fs_write = 0, fs_open = 0, fs_close = 0,
     fs_readdir = None, fs_finddir = None, fs_ptr = 0\<rparr>"

primrec make_nodes :: "nat list \<Rightarrow> 'a fs_scheme \<Rightarrow> 'a fs_scheme outcome" where
  "make_nodes [] s = Inr s"
| "make_nodes (i # is) s =
     bind_outcome (copy_name (file_header_at (of_nat i) s) s) (\<lambda>name.
     bind_outcome (read_word (file_header_at (of_nat i) s + 68) s) (\<lambda>len.
     bind_outcome (set_fs (root_node (of_nat i) s) (file_node name len (of_nat i)) s) (make_nodes is)))"

definition initialise_initrd :: "u32 \<Rightarrow> 'a fs_scheme \<Rightarrow> (u32 \<times> 'a fs_scheme) outcome" where
  "initialise_initrd location s =
     bind_outcome (kmalloc_call sizeof_fs_node
         (s\<lparr>initrd_header := location, file_headers := location + 4\<rparr>)) (\<lambda>(root, s).
     bind_outcome (set_fs root dir_node (s\<lparr>initrd_root := root\<rparr>)) (\<lambda>s.
     bind_outcome (read_word (initrd_header s) s) (\<lambda>nfiles.
     bind_outcome (kmalloc_call (sizeof_fs_node * nfiles) (s\<lparr>nroot_nodes := nfiles\<rparr>)) (\<lambda>(nds, s).
     bind_outcome (make_nodes [0..<nat (sint nfiles)] (s\<lparr>root_nodes := nds\<rparr>)) (\<lambda>s.
       Inr (initrd_root s, s))))))"

section \<open>The tool that builds the image\<close>

text \<open>The name behind the last slash, and its field: 63 characters at most, filled up with zeros.\<close>

definition strip_path :: "string \<Rightarrow> string" where
  "strip_path name = rev (takeWhile (\<lambda>c. c \<noteq> CHR ''/'') (rev name))"

definition name_field :: "string \<Rightarrow> u8 list" where
  "name_field name = (let cs = take 63 (strip_path name) in List.map of_char cs @ replicate (64 - length cs) 0)"

fun make_headers :: "u32 \<Rightarrow> (string \<times> u8 list) list \<Rightarrow> u8 list" where
  "make_headers current_offset [] = []"
| "make_headers current_offset ((name, data) # files) =
     name_field name @ le32 current_offset @ le32 (of_nat (length data)) @
     make_headers (current_offset + of_nat (length data)) files"

text \<open>
  The image; without a file nothing is written, and more than 64 overrun the array \<^verbatim>\<open>headers\<close>.
\<close>

definition make_initrd :: "(string \<times> u8 list) list \<Rightarrow> u8 list option outcome" where
  "make_initrd files =
     (if files = [] then Inr None
      else if 64 < length files then Inl Wild
      else Inr (Some (le32 (of_nat (length files)) @
        make_headers (4 + sizeof_file_header * of_nat (length files)) files @ List.concat (List.map snd files))))"


section \<open>Bytes in memory\<close>

primrec bytes_at :: "'a vmm_scheme \<Rightarrow> u32 \<Rightarrow> u8 list \<Rightarrow> bool" where
  "bytes_at s p [] \<longleftrightarrow> True"
| "bytes_at s p (b # bs) \<longleftrightarrow> vload8 p s = Inr b \<and> bytes_at s (p + 1) bs"

lemma bytes_at_append:
  "bytes_at s p (xs @ ys) \<longleftrightarrow> bytes_at s p xs \<and> bytes_at s (p + of_nat (length xs)) ys"
  by (induction xs arbitrary: p) (auto simp: add.assoc)

lemma read_bytes_at: "bytes_at s p bs \<Longrightarrow> read_bytes (length bs) p s = Inr bs"
  by (induction bs arbitrary: p) auto

lemma bytes_at_slice:
  assumes "bytes_at s p bs" "k + n \<le> length bs"
  shows "bytes_at s (p + of_nat k) (take n (drop k bs))"
proof -
  have "bs = take k bs @ take n (drop k bs) @ drop (k + n) bs"
    by (metis append.assoc append_take_drop_id take_add)
  then have "bytes_at s p (take k bs @ take n (drop k bs) @ drop (k + n) bs)"
    using assms(1) by simp
  then show ?thesis
    using assms(2) by (simp add: bytes_at_append)
qed

lemma word_of_le32: "word_of_bytes (le32 v) = v"
proof (rule bit_word_eqI)
  fix n
  assume "n < LENGTH(32)"
  then consider "n < 8" | "8 \<le> n" "n < 16" | "16 \<le> n" "n < 24" | "24 \<le> n" "n < 32"
    by fastforce
  then show "bit (word_of_bytes (le32 v)) n \<longleftrightarrow> bit v n"
    by cases (auto simp: word_of_bytes_def le32_def bit_simps)
qed

lemma length_le32 [simp]: "length (le32 v) = 4"
  by (simp add: le32_def)

lemma read_word_at: "bytes_at s p (le32 v) \<Longrightarrow> read_word p s = Inr v"
  using read_bytes_at [of s p "le32 v"] by (simp add: read_word_def word_of_le32)

lemma string_at_bytes:
  assumes "bytes_at s p (List.map of_char cs @ 0 # bs)" "nul \<notin> set cs"
  shows "string_at s p cs"
  using assms by (induction cs arbitrary: p) auto

lemma bytes_at_cong: "(\<And>p. vload8 p t = vload8 p s) \<Longrightarrow> bytes_at t p bs = bytes_at s p bs"
  by (induction bs arbitrary: p) auto

section \<open>The image\<close>

text \<open>Names that the tool stores whole, and file sizes that fit the 32-bit fields.\<close>

definition good_files :: "(string \<times> u8 list) list \<Rightarrow> bool" where
  "good_files files \<longleftrightarrow> files \<noteq> [] \<and> length files \<le> 64 \<and>
     list_all (\<lambda>(name, data). nul \<notin> set name \<and> CHR ''/'' \<notin> set name \<and> length name \<le> 63) files \<and>
     4 + 72 * length files + length (List.concat (List.map snd files)) < 4294967296"

lemma length_name_field [simp]: "length (name_field name) = 64"
  by (simp add: name_field_def Let_def)

lemma name_field_plain:
  assumes "CHR ''/'' \<notin> set name" "length name \<le> 63"
  shows "\<exists>bs. name_field name = List.map of_char name @ 0 # bs"
proof -
  have tw: "takeWhile (\<lambda>c. c \<noteq> CHR ''/'') (rev name) = rev name"
    using assms(1) by (intro takeWhile_eq_all_conv [THEN iffD2]) auto
  have "name_field name = List.map of_char name @ replicate (64 - length name) 0"
    unfolding name_field_def strip_path_def tw using assms(2) by (simp add: Let_def)
  moreover have "64 - length name = Suc (63 - length name)"
    using assms(2) by simp
  ultimately show ?thesis
    by auto
qed

lemma length_make_headers [simp]: "length (make_headers p files) = 72 * length files"
  by (induction p files rule: make_headers.induct) auto

definition data_offset :: "(string \<times> u8 list) list \<Rightarrow> nat \<Rightarrow> nat" where
  "data_offset files i = length (List.concat (List.map snd (take i files)))"

text \<open>The header and the data of file \<open>i\<close> in the two parts of the image.\<close>

lemma header_bytes:
  assumes "bytes_at s p (make_headers off files)" "i < length files"
  shows "bytes_at s (p + 72 * of_nat i) (name_field (fst (files ! i)) @ le32 (off + of_nat (data_offset files i)) @
    le32 (of_nat (length (snd (files ! i)))))"
  using assms
proof (induction off files arbitrary: p i rule: make_headers.induct)
  case (2 off name data files)
  show ?case
  proof (cases i)
    case 0
    then show ?thesis
      using 2(2) by (simp add: data_offset_def bytes_at_append)
  next
    case (Suc j)
    have "bytes_at s (p + 72) (make_headers (off + of_nat (length data)) files)"
      using 2(2) by (simp add: bytes_at_append add.assoc)
    from 2(1) [OF this] show ?thesis
      using 2(3) by (simp add: Suc data_offset_def algebra_simps)
  qed
qed simp

lemma data_bytes:
  assumes "bytes_at s p (List.concat (List.map snd files))" "i < length files"
  shows "bytes_at s (p + of_nat (data_offset files i)) (snd (files ! i))"
  using assms
proof (induction files arbitrary: p i)
  case (Cons f files)
  show ?case
  proof (cases i)
    case 0
    then show ?thesis
      using Cons.prems by (simp add: data_offset_def bytes_at_append)
  next
    case (Suc j)
    have "bytes_at s (p + of_nat (length (snd f))) (List.concat (List.map snd files))"
      using Cons.prems(1) by (simp add: bytes_at_append)
    from Cons.IH [OF this] show ?thesis
      using Cons.prems(2) by (simp add: Suc data_offset_def algebra_simps)
  qed
qed simp

text \<open>\<open>image_at s loc files\<close>: the image of \<open>files\<close> lies at \<open>loc\<close>.\<close>

definition image_at :: "'a vmm_scheme \<Rightarrow> u32 \<Rightarrow> (string \<times> u8 list) list \<Rightarrow> bool" where
  "image_at s loc files \<longleftrightarrow> good_files files \<and>
     (\<exists>img. make_initrd files = Inr (Some img) \<and> bytes_at s loc img)"

lemma image_parts:
  assumes "image_at s loc files"
  shows "read_word loc s = Inr (of_nat (length files))"
    "i < length files \<Longrightarrow> bytes_at s (loc + 4 + 72 * of_nat i) (name_field (fst (files ! i)) @
       le32 (4 + 72 * of_nat (length files) + of_nat (data_offset files i)) @ le32 (of_nat (length (snd (files ! i)))))"
    "i < length files \<Longrightarrow>
       bytes_at s (loc + (4 + 72 * of_nat (length files) + of_nat (data_offset files i))) (snd (files ! i))"
proof -
  let ?n = "length files"
  have "bytes_at s loc (le32 (of_nat ?n) @ make_headers (4 + 72 * of_nat ?n) files @ List.concat (List.map snd files))"
    using assms by (auto simp: image_at_def make_initrd_def sizeof_file_header_def split: if_splits)
  then have parts: "bytes_at s loc (le32 (of_nat ?n))" "bytes_at s (loc + 4) (make_headers (4 + 72 * of_nat ?n) files)"
    "bytes_at s (loc + (4 + 72 * of_nat ?n)) (List.concat (List.map snd files))"
    by (simp_all add: bytes_at_append add.assoc)
  show "read_word loc s = Inr (of_nat ?n)"
    using parts(1) by (rule read_word_at)
  show "bytes_at s (loc + 4 + 72 * of_nat i) (name_field (fst (files ! i)) @
       le32 (4 + 72 * of_nat ?n + of_nat (data_offset files i)) @ le32 (of_nat (length (snd (files ! i)))))"
    if "i < ?n"
    using header_bytes [OF parts(2) that] .
  show "bytes_at s (loc + (4 + 72 * of_nat ?n + of_nat (data_offset files i))) (snd (files ! i))" if "i < ?n"
    using data_bytes [OF parts(3) that] by (simp add: add.assoc)
qed

lemma image_header:
  assumes img: "image_at s loc files" and i: "i < length files"
  defines "h \<equiv> loc + 4 + 72 * of_nat i"
  shows "string_at s h (fst (files ! i))"
    "read_word (h + 64) s = Inr (4 + 72 * of_nat (length files) + of_nat (data_offset files i))"
    "read_word (h + 68) s = Inr (of_nat (length (snd (files ! i))))"
    "length (fst (files ! i)) < 128"
proof -
  obtain name data where f: "files ! i = (name, data)"
    by (cases "files ! i")
  have "nul \<notin> set name \<and> CHR ''/'' \<notin> set name \<and> length name \<le> 63"
    using img i f by (auto simp: image_at_def good_files_def list_all_length)
  then have n: "nul \<notin> set name" "CHR ''/'' \<notin> set name" "length name \<le> 63"
    by simp_all
  obtain bs where bs: "name_field name = List.map of_char name @ 0 # bs"
    using name_field_plain [OF n(2,3)] by blast
  have b: "bytes_at s h (name_field name)" "bytes_at s (h + 64) (le32 (4 + 72 * of_nat (length files) + of_nat (data_offset files i)))"
    "bytes_at s (h + 68) (le32 (of_nat (length data)))"
    using image_parts(2) [OF img i] by (simp_all add: h_def f bytes_at_append add.assoc)
  show "string_at s h (fst (files ! i))"
    using b(1) n(1) unfolding f bs fst_conv by (rule string_at_bytes)
  show "read_word (h + 64) s = Inr (4 + 72 * of_nat (length files) + of_nat (data_offset files i))"
    "read_word (h + 68) s = Inr (of_nat (length (snd (files ! i))))"
    using b(2,3) by (simp_all add: f read_word_at)
  show "length (fst (files ! i)) < 128"
    using n(3) by (simp add: f)
qed


section \<open>A mounted image\<close>

definition mounted :: "'a fs_scheme \<Rightarrow> (string \<times> u8 list) list \<Rightarrow> bool" where
  "mounted s files \<longleftrightarrow> image_at s (initrd_header s) files \<and> file_headers s = initrd_header s + 4 \<and>
     nroot_nodes s = of_nat (length files) \<and> initrd_root s \<noteq> 0 \<and> bytes_mapped 184 s (initrd_root s) \<and>
     fs_nodes s (initrd_root s) = dir_node \<and>
     (\<forall>i<length files. root_node (of_nat i) s \<noteq> 0 \<and> root_node (of_nat i) s \<noteq> initrd_root s \<and>
        bytes_mapped 184 s (root_node (of_nat i) s) \<and>
        fs_nodes s (root_node (of_nat i) s) = file_node (fst (files ! i)) (of_nat (length (snd (files ! i)))) (of_nat i))"

lemma image_small: "image_at s loc files \<Longrightarrow> length files \<le> 64"
  by (simp add: image_at_def good_files_def)

lemma sint_count: "n \<le> 64 \<Longrightarrow> nat (sint (of_nat n :: u32)) = n"
proof -
  assume "n \<le> 64"
  then have "unat (of_nat n :: u32) = n"
    by (intro unat_address) simp
  then have "uint (of_nat n :: u32) = int n"
    by (metis uint_nat)
  with \<open>n \<le> 64\<close> show ?thesis
    by (simp add: sint_u32)
qed

lemma copy_name_at: "string_at s p cs \<Longrightarrow> length cs < 128 \<Longrightarrow> copy_name p s = Inr cs"
  by (simp add: copy_name_def read_string_at finish_def)

definition node_of :: "(string \<times> u8 list) list \<Rightarrow> nat \<Rightarrow> fs_node" where
  "node_of files i = file_node (fst (files ! i)) (of_nat (length (snd (files ! i)))) (of_nat i)"

lemma vload8_frame [simp]: "vload8 v (s\<lparr>fs_nodes := x\<rparr>) = vload8 v s"
  by (auto simp: vload8_def split: option.splits)

lemma image_frame:
  assumes "\<And>v. vload8 v t = vload8 v s"
  shows "image_at t loc files = image_at s loc files"
  unfolding image_at_def by (simp add: bytes_at_cong [OF assms])

lemma fs_frame [simp]:
  "bytes_mapped n (s\<lparr>fs_nodes := x\<rparr>) = bytes_mapped n s" "root_node i (s\<lparr>fs_nodes := x\<rparr>) = root_node i s"
  "file_header_at i (s\<lparr>fs_nodes := x\<rparr>) = file_header_at i s"
  by (simp_all add: bytes_mapped_def root_node_def file_header_at_def fun_eq_iff)

definition upd_at :: "('i \<Rightarrow> 'k) \<Rightarrow> ('i \<Rightarrow> 'v) \<Rightarrow> 'i \<Rightarrow> ('k \<Rightarrow> 'v) \<Rightarrow> 'k \<Rightarrow> 'v" where
  "upd_at g h i f = f(g i := h i)"

lemma fold_upd_other: "x \<notin> g ` set is \<Longrightarrow> fold (upd_at g h) is f x = f x"
  by (induction "is" arbitrary: f) (auto simp: upd_at_def)

lemma fold_upd_same:
  assumes "inj_on g (set is)" "distinct is" "i \<in> set is"
  shows "fold (upd_at g h) is f (g i) = h i"
  using assms
proof (induction "is" arbitrary: f)
  case (Cons j "is")
  show ?case
  proof (cases "i = j")
    case True
    then have "g i \<notin> g ` set is"
      using Cons.prems by (auto simp: inj_on_def)
    then show ?thesis
      using True by (simp add: fold_upd_other) (simp add: upd_at_def)
  next
    case False
    then show ?thesis
      using Cons by simp
  qed
qed simp

lemma make_nodes_run:
  assumes "image_at s loc files" "file_headers s = loc + 4" "set is \<subseteq> {..<length files}"
    and "\<forall>i<length files. bytes_mapped 184 s (root_node (of_nat i) s)"
  shows "make_nodes is s = Inr (s\<lparr>fs_nodes := fold (upd_at (\<lambda>i. root_node (of_nat i) s) (node_of files)) is (fs_nodes s)\<rparr>)"
  using assms
proof (induction "is" arbitrary: s)
  case (Cons i "is")
  let ?t = "s\<lparr>fs_nodes := upd_at (\<lambda>i. root_node (of_nat i) s) (node_of files) i (fs_nodes s)\<rparr>"
  have i: "i < length files"
    using Cons.prems(3) by simp
  have h: "file_header_at (of_nat i) s = loc + 4 + 72 * of_nat i"
    using Cons.prems(2) by (simp add: file_header_at_def sizeof_file_header_def)
  note header = image_header [OF Cons.prems(1) i]
  have "make_nodes (i # is) s = make_nodes is ?t"
    using Cons.prems(4) i copy_name_at [OF header(1,4)] header(3)
    by (simp add: h set_fs_def node_of_def upd_at_def)
  moreover have "image_at ?t loc files"
    using Cons.prems(1) image_frame [of ?t s] by simp
  ultimately show ?case
    using Cons.IH [of ?t] Cons.prems(2-4) by simp
qed simp

text \<open>The call of \<open>kmalloc\<close> within a free block.\<close>

lemma kmalloc_call_within:
  assumes "heap_free s A (rounded (unat n) + 24 + r)" "0 < unat n"
  obtains p m N where "kmalloc_call n s = Inr (p, s\<lparr>nodes := N\<rparr>)" "unat n \<le> m" "(unat p, m) \<notin> A"
    "heap_free (s\<lparr>nodes := N\<rparr>) (insert (unat p, m) A) r" "heap_start + 16 \<le> unat p" "unat p + m \<le> heap_limit"
proof -
  obtain x m N where x: "kmalloc n s = Some (Inr (of_nat x, s\<lparr>nodes := N\<rparr>))" "unat n \<le> m" "(x, m) \<notin> A"
    "heap_free (s\<lparr>nodes := N\<rparr>) (insert (x, m) A) r"
    using kmalloc_within [OF assms] by metis
  have b: "heap_start + 16 \<le> x" "x + m \<le> heap_limit"
    using heap_ok_range [OF heap_free_ok [OF x(4)], of x m] by simp_all
  then have "unat (of_nat x :: u32) = x"
    by (intro unat_address) (simp add: heap_bounds)
  with x b show thesis
    by (intro that [of "of_nat x" N m]) (simp_all add: kmalloc_call_def)
qed


lemma fs_same [simp]:
  "heap_same s (s\<lparr>fs_nodes := x1\<rparr>)" "heap_same s (s\<lparr>fs_root := v\<rparr>)" "heap_same s (s\<lparr>initrd_header := v\<rparr>)"
  "heap_same s (s\<lparr>file_headers := v\<rparr>)" "heap_same s (s\<lparr>initrd_root := v\<rparr>)" "heap_same s (s\<lparr>root_nodes := v\<rparr>)"
  "heap_same s (s\<lparr>nroot_nodes := v\<rparr>)" "heap_same s (s\<lparr>the_dirent := x2\<rparr>)"
  by (simp_all add: heap_same_def)

lemmas fs_same_ok [simp] = fs_same [THEN heap_same_ok(1)] fs_same [THEN heap_same_ok(2)] fs_same [THEN heap_same_ok(3)]
  fs_same [THEN heap_same_ok(4)]

lemma vload8_same:
  assumes "mem t = mem s" "cr3 t = cr3 s"
  shows "vload8 v t = vload8 v s"
  using assms by (auto simp: vload8_def split: option.splits)

lemma rounded_multiple: "n mod 8 = 0 \<Longrightarrow> rounded n = n"
proof -
  assume "n mod 8 = 0"
  then obtain q where "n = 8 * q"
    by (auto simp: mod_eq_0_iff_dvd)
  then show ?thesis
    by (simp add: rounded_def div_add1_eq)
qed

lemma array_address:
  assumes "unat p + 184 * n < 4294967296" "i < n"
  shows "unat (p + 184 * of_nat i :: u32) = unat p + 184 * i"
proof -
  have "unat (184 * of_nat i :: u32) = 184 * i"
    using assms by (subst unat_mult_small) (simp_all add: unat_of_nat_small)
  with assms show ?thesis
    by (subst unat_add_small) simp_all
qed

lemma fs_shape:
  fixes s :: "'a fs_scheme"
  shows "s\<lparr>initrd_header := a, file_headers := b, nodes := N, initrd_root := p, fs_nodes := F, nroot_nodes := c, nodes := M,
      root_nodes := q, fs_nodes := G\<rparr> =
    s\<lparr>nodes := M, fs_nodes := G, initrd_header := a, file_headers := b, initrd_root := p, root_nodes := q, nroot_nodes := c\<rparr>"
  by (cases s) simp

text \<open>The nodes lie below the end of the heap.\<close>

definition nodes_below :: "'a fs_scheme \<Rightarrow> nat \<Rightarrow> bool" where
  "nodes_below s n \<longleftrightarrow> heap_start \<le> unat (initrd_root s) \<and> unat (initrd_root s) + 184 \<le> unat (heap_current_end s) \<and>
     (\<forall>i<n. heap_start \<le> unat (root_node (of_nat i) s) \<and> unat (root_node (of_nat i) s) + 184 \<le> unat (heap_current_end s))"

lemma initialise_initrd_ok:
  fixes s :: "'a fs_scheme"
  assumes img: "image_at s loc files" and free: "heap_free s A (184 * length files + (r + 232))"
  shows "\<exists>t p B. initialise_initrd loc s = Inr (p, t) \<and> mounted t files \<and> initrd_root t = p \<and> heap_free t B r \<and>
    mem t = mem s \<and> cr3 t = cr3 s \<and> tty_lock t = tty_lock s \<and> initrd_header t = loc \<and> nodes_below t (length files) \<and>
    (\<exists>N M q. t = s\<lparr>nodes := N, fs_nodes := M, initrd_header := loc, file_headers := loc + 4, initrd_root := p,
       root_nodes := q, nroot_nodes := of_nat (length files)\<rparr>)"
proof -
  let ?n = "length files"
  have n: "?n \<le> 64" "0 < ?n"
    using img by (auto simp: image_at_def good_files_def)
  let ?s0 = "s\<lparr>initrd_header := loc, file_headers := loc + 4\<rparr>"
  have "unat sizeof_fs_node = 184"
    by (simp add: sizeof_fs_node_def)
  then have sz: "rounded (unat sizeof_fs_node) + 24 + (184 * ?n + 24 + r) = 184 * ?n + (r + 232)"
    by (simp add: rounded_multiple)
  have "heap_free ?s0 A (rounded (unat sizeof_fs_node) + 24 + (184 * ?n + 24 + r))"
    unfolding sz using free by simp
  moreover have "0 < unat sizeof_fs_node"
    by (simp add: sizeof_fs_node_def)
  ultimately obtain p m N where p: "kmalloc_call sizeof_fs_node ?s0 = Inr (p, ?s0\<lparr>nodes := N\<rparr>)" "unat sizeof_fs_node \<le> m"
    "(unat p, m) \<notin> A" "heap_free (?s0\<lparr>nodes := N\<rparr>) (insert (unat p, m) A) (184 * ?n + 24 + r)"
    "heap_start + 16 \<le> unat p" "unat p + m \<le> heap_limit"
    by (rule kmalloc_call_within)
  have m: "184 \<le> m"
    using p(2) by (simp add: sizeof_fs_node_def)
  let ?A = "insert (unat p, m) A"
  let ?s1 = "?s0\<lparr>nodes := N, initrd_root := p\<rparr>"
  let ?s2 = "?s1\<lparr>fs_nodes := (fs_nodes s)(p := dir_node)\<rparr>"
  have ok1: "heap_ok (?s0\<lparr>nodes := N\<rparr>) ?A"
    using p(4) by (rule heap_free_ok)
  have map_p: "bytes_mapped 184 (?s0\<lparr>nodes := N\<rparr>) p"
    using m by (intro block_mapped [OF ok1]) auto
  then have set_p: "set_fs p dir_node ?s1 = Inr ?s2"
    by (simp add: set_fs_def)
  have count: "unat (of_nat ?n :: u32) = ?n" "unat (sizeof_fs_node * of_nat ?n) = 184 * ?n"
    "nat (sint (of_nat ?n :: u32)) = ?n"
    using n by (simp_all add: unat_address sint_count sizeof_fs_node_def unat_mult_small)
  have word: "read_word (initrd_header ?s2) ?s2 = Inr (of_nat ?n)"
  proof -
    have "image_at ?s2 loc files"
      using img image_frame [of ?s2 s] vload8_same [of ?s2 s] by simp
    then show ?thesis
      using image_parts(1) by simp
  qed
  let ?s3 = "?s2\<lparr>nroot_nodes := of_nat ?n\<rparr>"
  have "heap_free ?s3 ?A (rounded (unat (sizeof_fs_node * of_nat ?n)) + 24 + r)"
    using p(4) by (simp add: count rounded_multiple)
  moreover have "0 < unat (sizeof_fs_node * of_nat ?n)"
    using n by (simp add: count)
  ultimately obtain q k M where q: "kmalloc_call (sizeof_fs_node * of_nat ?n) ?s3 = Inr (q, ?s3\<lparr>nodes := M\<rparr>)"
    "unat (sizeof_fs_node * of_nat ?n) \<le> k" "(unat q, k) \<notin> ?A"
    "heap_free (?s3\<lparr>nodes := M\<rparr>) (insert (unat q, k) ?A) r" "heap_start + 16 \<le> unat q" "unat q + k \<le> heap_limit"
    by (rule kmalloc_call_within)
  have k: "184 * ?n \<le> k"
    using q(2) by (simp add: count)
  let ?B = "insert (unat q, k) ?A"
  let ?s4 = "?s3\<lparr>nodes := M, root_nodes := q\<rparr>"
  have ok4: "heap_ok (?s3\<lparr>nodes := M\<rparr>) ?B"
    using q(4) by (rule heap_free_ok)
  have addr: "root_node (of_nat i) ?s4 = q + 184 * of_nat i" "unat (q + 184 * of_nat i) = unat q + 184 * i" if "i < ?n" for i
    using that q(6) k by (simp_all add: root_node_def sizeof_fs_node_def array_address [of q ?n] heap_bounds)
  have map_i: "bytes_mapped 184 (?s3\<lparr>nodes := M\<rparr>) (q + 184 * of_nat i)" if "i < ?n" for i
    using that k by (intro block_mapped [OF ok4, of "unat q" k]) (simp_all add: addr)
  have map_p4: "bytes_mapped 184 (?s3\<lparr>nodes := M\<rparr>) p"
    using m by (intro block_mapped [OF ok4, of "unat p" m]) auto
  have fresh: "q + 184 * of_nat i \<noteq> p" "q + 184 * of_nat i \<noteq> 0" if i: "i < ?n" for i
  proof -
    have "unat p + m \<le> unat q \<or> unat q + k \<le> unat p"
      using heap_ok_disjoint [OF ok4] q(3) by (auto simp: ranges_disjoint_def)
    then show "q + 184 * of_nat i \<noteq> p"
      using addr(2) [OF i] m k i by auto
    show "q + 184 * of_nat i \<noteq> 0"
      using addr(2) [OF i] q(5) by (auto simp: heap_bounds)
  qed
  have img4: "image_at ?s4 loc files"
    using img image_frame [of ?s4 s] vload8_same [of ?s4 s] by simp
  let ?t = "?s4\<lparr>fs_nodes := fold (upd_at (\<lambda>i. root_node (of_nat i) ?s4) (node_of files)) [0..<?n] (fs_nodes ?s4)\<rparr>"
  have "make_nodes [0..<?n] ?s4 = Inr ?t"
    using map_i by (intro make_nodes_run [OF img4]) (auto simp: root_node_def sizeof_fs_node_def)
  then have run: "initialise_initrd loc s = Inr (p, ?t)"
    using p(1) set_p word q(1) by (simp add: initialise_initrd_def count)
  have inj: "inj_on (\<lambda>i. root_node (of_nat i) ?s4) (set [0..<?n])"
  proof (rule inj_onI)
    fix i j
    assume "i \<in> set [0..<?n]" "j \<in> set [0..<?n]" "root_node (of_nat i) ?s4 = root_node (of_nat j) ?s4"
    then show "i = j"
      using addr [of i] addr [of j] by simp
  qed
  have "image_at ?t loc files"
    using img image_frame [of ?t s] vload8_same [of ?t s] by simp
  moreover have "fs_nodes ?t p = dir_node"
  proof -
    have "p \<notin> (\<lambda>i. root_node (of_nat i) ?s4) ` set [0..<?n]"
    proof
      assume "p \<in> (\<lambda>i. root_node (of_nat i) ?s4) ` set [0..<?n]"
      then obtain i where "i < ?n" "root_node (of_nat i) ?s4 = p"
        by auto
      then show False
        using fresh(1) [of i] addr(1) [of i] by metis
    qed
    from fold_upd_other [OF this, of "node_of files" "fs_nodes ?s4"] show ?thesis
      by simp
  qed
  moreover have "fs_nodes ?t (root_node (of_nat i) ?t) = node_of files i" if "i < ?n" for i
    using fold_upd_same [OF inj, of i "node_of files" "fs_nodes ?s4"] that by (simp add: root_node_def)
  moreover have same: "heap_same (?s3\<lparr>nodes := M\<rparr>) ?t"
    by (simp add: heap_same_def)
  then have "bytes_mapped 184 ?t = bytes_mapped 184 (?s3\<lparr>nodes := M\<rparr>)"
    by (rule heap_same_ok)
  then have "bytes_mapped 184 ?t p" "\<And>i. i < ?n \<Longrightarrow> bytes_mapped 184 ?t (q + 184 * of_nat i)"
    using map_i map_p4 by simp_all
  ultimately have "mounted ?t files"
    using fresh p(5) by (auto simp: mounted_def node_of_def heap_bounds root_node_def sizeof_fs_node_def)
  moreover have "nodes_below ?t ?n"
  proof -
    have "unat p + m \<le> unat (heap_current_end s)" "unat q + k \<le> unat (heap_current_end s)"
      using heap_ok_range(3) [OF ok4, of "unat p" m] heap_ok_range(3) [OF ok4, of "unat q" k] by simp_all
    then show ?thesis
      using addr m k p(5) q(5) by (auto simp: nodes_below_def root_node_def sizeof_fs_node_def)
  qed
  moreover have "heap_free ?t ?B r"
    unfolding heap_same_ok(4) [OF same] by (rule q(4))
  ultimately show ?thesis
    using run by (intro exI [of _ ?t] exI [of _ p] exI [of _ ?B] conjI exI [of _ M] exI [of _ "fs_nodes ?t"] exI [of _ q])
      (simp_all add: fs_shape)
qed

end
