(* ===== verification/Machine.thy ===== *)
theory Machine
  imports Initrd
begin

text \<open>
  A small machine on which the statements about mounted files are evaluated: eight pages of
  memory. Page 1 is the page directory, page 2 the table of the first 4 MB, page 3 the table of
  the heap, page 4 the only page of the heap, page 5 the bitmap and page 6 holds the image of a
  RAM disk. Nothing in this theory models further code.
\<close>

definition tiny_tables :: memory where
  "tiny_tables =
     store32 (store32 (store32 (store32 (store32 (\<lambda>_. 0)
       (entry_at 0x1000 0) 0x2007) (entry_at 0x1000 832) 0x3007) (entry_at 0x1000 1023) 0x1003)
       (entry_at 0x2000 6) 0x6007) (entry_at 0x3000 0) 0x4007"

definition tiny_memory :: "u8 list \<Rightarrow> memory" where
  "tiny_memory img = (\<lambda>a. if 0x6000 \<le> unat a \<and> unat a < 0x6000 + length img then img ! (unat a - 0x6000)
     else if a = 0x5000 then 0x7F else tiny_tables a)"

definition tiny :: "u8 list \<Rightarrow> fs" where
  "tiny img = (irq.extend boot_irq (fs.fields (\<lambda>_. dir_node) 0 0 0 0 0 0 \<lparr>d_name = [], d_ino = 0\<rparr>))
     \<lparr>mem := tiny_memory img, cr3 := 0x1000, pmm_bitmap := 0x5000, pmm_max_blocks := 8, pmm_used_blocks := 7,
      heap_head := KHEAP_START, heap_current_end := KHEAP_START + 4096,
      nodes := (\<lambda>_. \<lparr>node_size = 4080, node_free = True, node_next = 0, node_prev = 0\<rparr>)\<rparr>"

lemma tiny_simps [simp]:
  "mem (tiny img) = tiny_memory img" "cr3 (tiny img) = 0x1000" "pmm_bitmap (tiny img) = 0x5000"
  "pmm_max_blocks (tiny img) = 8" "pmm_used_blocks (tiny img) = 7" "heap_head (tiny img) = KHEAP_START"
  "heap_current_end (tiny img) = KHEAP_START + 4096" "tty_lock (tiny img) = 0"
  "terminal_row (tiny img) = 0" "terminal_column (tiny img) = 0"
  "nodes (tiny img) p = \<lparr>node_size = 4080, node_free = True, node_next = 0, node_prev = 0\<rparr>"
  by (simp_all add: tiny_def irq.defs fs.defs)

lemma tiny_bases: "page_base 0x1000" "page_base 0x2000" "page_base 0x3000"
  by (simp_all add: page_base_def)

lemma tiny_entries:
  assumes "length img \<le> 4096" "i < 1024"
  shows "entry (tiny_memory img) 0x1000 i =
      (if i = 0 then 0x2007 else if i = 832 then 0x3007 else if i = 1023 then 0x1003 else 0)"
    "entry (tiny_memory img) 0x2000 i = (if i = 6 then 0x6007 else 0)"
    "entry (tiny_memory img) 0x3000 i = (if i = 0 then 0x4007 else 0)"
proof -
  have same: "entry (tiny_memory img) f i = entry tiny_tables f i" if "page_base f" "unat f < 0x4000" for f
  proof (rule entry_cong [OF that(1) assms(2)])
    fix n :: nat
    assume n: "n < 4096"
    then have "unat (f + of_nat n) = unat f + n"
      using that by (subst unat_add_small) (simp_all add: unat_of_nat_small)
    then have u: "unat (f + of_nat n) < 0x5000"
      using that(2) n by simp
    then have "f + of_nat n \<noteq> 0x5000"
      by auto
    with u show "tiny_memory img (f + of_nat n) = tiny_tables (f + of_nat n)"
      by (simp add: tiny_memory_def)
  qed
  have zero: "entry (\<lambda>_. 0) f i = 0" for f
    by (simp add: entry_def load32_def)
  show "entry (tiny_memory img) 0x1000 i =
      (if i = 0 then 0x2007 else if i = 832 then 0x3007 else if i = 1023 then 0x1003 else 0)"
    "entry (tiny_memory img) 0x2000 i = (if i = 6 then 0x6007 else 0)"
    "entry (tiny_memory img) 0x3000 i = (if i = 0 then 0x4007 else 0)"
    using assms(2) tiny_bases by (simp_all add: same tiny_tables_def entry_store zero)
qed

lemma tiny_frames:
  "present 0x2007" "present 0x3007" "present 0x1003" "present 0x6007" "present 0x4007" "\<not> present 0"
  "frame 0x2007 = 0x2000" "frame 0x3007 = 0x3000" "frame 0x1003 = 0x1000" "frame 0x6007 = 0x6000" "frame 0x4007 = 0x4000"
  "frame 0x1000 = 0x1000"
  by (simp_all add: present_def frame_def)

lemma tiny_used:
  assumes "length img \<le> 4096"
  shows "used_pages (tiny img) = {..<7}"
proof -
  have seven: "bit (0x7F :: int) i \<longleftrightarrow> i < 7" for i
  proof -
    have "(0x7F :: int) = mask 7"
      by (simp add: mask_eq_exp_minus_1)
    then show ?thesis
      by (simp only: bit_mask_iff) auto
  qed
  have "mmap_test (of_nat i) (tiny img) \<longleftrightarrow> i < 7" if i: "i < 8" for i
  proof -
    have u: "unat (of_nat i :: u32) = i"
      using i by (simp add: unat_of_nat_small)
    then have "unat ((of_nat i :: u32) div 8) = 0"
      using i by (simp add: unat_div)
    then have "(of_nat i :: u32) div 8 = 0"
      by (simp only: unat_eq_zero)
    with i show ?thesis
      by (simp add: mmap_test_bit tiny_memory_def u seven)
  qed
  then have "i < 8 \<and> mmap_test (of_nat i) (tiny img) \<longleftrightarrow> i < 7" for i
    by (cases "i < 8") auto
  then show ?thesis
    unfolding used_pages_def by (simp add: lessThan_def)
qed

lemma tiny_in_bitmap: "in_bitmap (tiny img) a \<longleftrightarrow> a = 0x5000"
  by (simp add: in_bitmap_def in_range_iff range_ok_def)

lemma tiny_vmm_ok:
  assumes "length img \<le> 4096"
  shows "vmm_ok (tiny img)"
proof -
  note ent = tiny_entries [OF assms]
  have tabs: "tables (tiny_memory img) 0x1000 = {0x1000, 0x2000, 0x3000}"
  proof -
    have "(\<exists>i<1023. f = frame (entry (tiny_memory img) 0x1000 i) \<and> present (entry (tiny_memory img) 0x1000 i)) \<longleftrightarrow>
        f = 0x2000 \<or> f = 0x3000" for f
    proof -
      have "f = frame (entry (tiny_memory img) 0x1000 i) \<and> present (entry (tiny_memory img) 0x1000 i) \<longleftrightarrow>
          i = 0 \<and> f = 0x2000 \<or> i = 832 \<and> f = 0x3000" if "i < 1023" for i
        using that by (auto simp: ent(1) tiny_frames)
      then have "(\<exists>i<1023. f = frame (entry (tiny_memory img) 0x1000 i) \<and> present (entry (tiny_memory img) 0x1000 i)) \<longleftrightarrow>
          (\<exists>i<1023 :: nat. i = 0 \<and> f = 0x2000 \<or> i = 832 \<and> f = 0x3000)"
        by blast
      moreover have "(0 :: nat) < 1023" "(832 :: nat) < 1023"
        by simp_all
      ultimately show ?thesis
        by blast
    qed
    then show ?thesis
      by (auto simp: tables_def)
  qed
  have "pmm_ok (tiny img)"
    using tiny_used [OF assms] by (simp add: pmm_ok_def bitmap_ok_def range_ok_def)
  moreover have "recursive (tiny_memory img) 0x1000"
    by (simp add: recursive_def tiny_bases ent tiny_frames)
  moreover have "f + of_nat n \<noteq> 0x5000" if "f \<in> {0x1000, 0x2000, 0x3000}" "n < 4096" for f :: u32 and n :: nat
  proof -
    have "unat (f + of_nat n) = unat f + n"
      using that by (subst unat_add_small) (auto simp: unat_of_nat_small)
    then have "unat (f + of_nat n) < 0x5000"
      using that by auto
    then show ?thesis
      by auto
  qed
  moreover have "private_tables (tiny_memory img) 0x1000"
    by (auto simp: private_tables_def ent tiny_frames split: if_splits)
  ultimately show ?thesis
    by (auto simp: vmm_ok_def tabs tiny_in_bitmap tiny_used [OF assms] page_no_def ent tiny_frames split: if_splits)
qed

lemma tiny_page:
  assumes "length img \<le> 4096" "i < 4096"
  shows "translate (tiny_memory img) 0x1000 (0x6000 + of_nat i) = Some (0x6000 + of_nat i)"
    "translate (tiny_memory img) 0x1000 (KHEAP_START + of_nat i) = Some (0x4000 + of_nat i)"
proof -
  have v: "unat (0x6000 + of_nat i :: u32) = 0x6000 + i" "unat (KHEAP_START + of_nat i :: u32) = 0xD0000000 + i"
    using assms(2) by (simp_all add: unat_add_small unat_of_nat_small KHEAP_START_def)
  have page: "(0xD0000000 + i) div 4096 = 851968" "(0xD0000000 + i) div 4194304 = 832"
    using assms(2) by (intro div_nat_eqI; simp)+
  have "dir_index (0x6000 + of_nat i) = 0" "table_index (0x6000 + of_nat i) = 6"
    "dir_index (KHEAP_START + of_nat i) = 832" "table_index (KHEAP_START + of_nat i) = 0"
    using assms(2) page by (simp_all only: dir_index_div table_index_div v) simp_all
  moreover have "(0x6000 + i) mod 4096 = i" "(0xD0000000 + i) mod 4096 = i"
    using assms(2) mod_mult_self2 [of i 4096 6] mod_mult_self2 [of i 4096 851968] by (simp_all add: add.commute)
  then have "offset (0x6000 + of_nat i) = of_nat i" "offset (KHEAP_START + of_nat i) = of_nat i"
    using assms(2) by (simp_all add: word_unat_eq_iff unat_offset v unat_of_nat_small)
  ultimately show "translate (tiny_memory img) 0x1000 (0x6000 + of_nat i) = Some (0x6000 + of_nat i)"
    "translate (tiny_memory img) 0x1000 (KHEAP_START + of_nat i) = Some (0x4000 + of_nat i)"
    using tiny_entries [OF assms(1)] by (simp_all add: translate_slot tiny_bases tiny_frames Let_def)
qed

lemma tiny_heap:
  assumes "length img \<le> 4096"
  shows "heap_free (tiny img) {} 4080"
proof -
  have mapped: "translate (tiny_memory img) 0x1000 v \<noteq> None" if "heap_start \<le> unat v" "unat v < heap_start + 4096" for v
  proof -
    have "unat (KHEAP_START + of_nat (unat v - heap_start) :: u32) = unat v"
      using that by (simp add: heap_bounds KHEAP_START_def unat_add_small unat_of_nat_small)
    then have "v = KHEAP_START + of_nat (unat v - heap_start)"
      by (simp only: word_unat_eq_iff)
    moreover have "unat v - heap_start < 4096"
      using that by linarith
    ultimately show ?thesis
      using tiny_page(2) [OF assms] by (metis option.distinct(1))
  qed
  have "{..<8 :: nat} - {..<7} = {7}"
    by auto
  then have "free_pages (tiny img) = {7}"
    unfolding free_pages_eq tiny_used [OF assms] by simp
  moreover have "page_base (KHEAP_START + 4096)" "unat (KHEAP_START + 4096) = heap_start + 4096"
    by (simp_all add: page_base_def KHEAP_START_def heap_bounds)
  moreover have "mapped_below (tiny img) (KHEAP_START + 4096)"
    unfolding mapped_below_def calculation(3) using mapped by auto
  ultimately have "heap_space (tiny img)"
    using tiny_vmm_ok [OF assms] by (simp add: heap_space_def heap_bounds)
  then have "heap_wf (tiny img) [(4080, True)]"
    by (simp add: heap_wf_def heap_bounds KHEAP_START_def)
  then show ?thesis
    unfolding heap_free_def by (intro exI [of _ "[(4080, True)]"]) (simp add: fits_def)
qed

lemma tiny_image:
  assumes "good_files files" "make_initrd files = Inr (Some img)" "length img \<le> 4096"
  shows "image_at (tiny img) 0x6000 files"
proof -
  have load: "vload8 (0x6000 + of_nat i) (tiny img) = Inr (img ! i)" if i: "i < length img" for i
  proof -
    have "i < 4096"
      using i assms(3) by simp
    moreover have "unat (0x6000 + of_nat i :: u32) = 0x6000 + i"
      using calculation by (simp add: unat_add_small unat_of_nat_small)
    ultimately show ?thesis
      using tiny_page(1) [OF assms(3)] i by (simp add: vload8_def tiny_memory_def)
  qed
  have "bytes_at (tiny img) (0x6000 + of_nat k) (drop k img)" if "k \<le> length img" for k
    using that
  proof (induction k rule: inc_induct)
    case (step k)
    then have "drop k img = img ! k # drop (Suc k) img"
      by (simp add: Cons_nth_drop_Suc)
    with step load [of k] show ?case
      by (simp add: add.assoc add.commute)
  qed simp
  from this [of 0] assms show ?thesis
    by (simp add: image_at_def)
qed

section \<open>A RAM disk with one file\<close>

definition disk :: "(string \<times> u8 list) list" where
  "disk = [(''a'', [75, 10, 75])]"

definition disk_image :: "u8 list" where
  "disk_image = le32 1 @ name_field ''a'' @ le32 76 @ le32 3 @ [75, 10, 75]"

lemma disk_image: "make_initrd disk = Inr (Some disk_image)" "good_files disk" "length disk_image = 79"
  by (simp_all add: make_initrd_def disk_def disk_image_def sizeof_file_header_def good_files_def nul_def)

definition disk_machine :: fs where
  "disk_machine = tiny disk_image"

lemma disk_machine_ok:
  "image_at disk_machine 0x6000 disk" "heap_free disk_machine {} 4080" "tty_lock disk_machine = 0" "tty_inv disk_machine"
  using tiny_image [OF disk_image(2,1)] tiny_heap [of disk_image] disk_image(3)
  by (simp_all add: disk_machine_def tty_inv_def vga_size)

end
