(* ===== verification/Vfs.thy ===== *)
theory Vfs
  imports Machine
begin

text \<open>
  The virtual file system (\<^verbatim>\<open>kernel/fs/vfs.cpp\<close>): every operation looks at the node and calls
  the function it points to. The functions of the RAM disk are called by name; \<^verbatim>\<open>write\<close>,
  \<^verbatim>\<open>open\<close> and \<^verbatim>\<open>close\<close>, which no driver of the kernel provides, are code addresses, and
  the call of such an address is a parameter.

  The locale \<open>file_store\<close> is what a client of the file system may rely on; the mounted RAM disk
  provides it. The last section is the way of a file through the tool, the boot and the reader.
\<close>

section \<open>The operations\<close>

definition vfs_read :: "u32 \<Rightarrow> u32 \<Rightarrow> u32 \<Rightarrow> 'a fs_scheme \<Rightarrow> u8 list outcome" where
  "vfs_read node offs sz s =
     bind_outcome (get_fs node s) (\<lambda>n.
       case fs_read n of Some Initrd_read \<Rightarrow> initrd_read node offs sz s | None \<Rightarrow> Inr [])"

definition vfs_write ::
    "(u32 \<Rightarrow> u32 \<Rightarrow> u32 \<Rightarrow> u32 \<Rightarrow> u32 \<Rightarrow> 'a fs_scheme \<Rightarrow> (u32 \<times> 'a fs_scheme) outcome) \<Rightarrow>
     u32 \<Rightarrow> u32 \<Rightarrow> u32 \<Rightarrow> u32 \<Rightarrow> 'a fs_scheme \<Rightarrow> (u32 \<times> 'a fs_scheme) outcome" where
  "vfs_write call node offs sz buffer s =
     bind_outcome (get_fs node s) (\<lambda>n.
       if fs_write n \<noteq> 0 then call (fs_write n) node offs sz buffer s else Inr (0, s))"

definition vfs_open ::
    "(u32 \<Rightarrow> u32 \<Rightarrow> 'a fs_scheme \<Rightarrow> 'a fs_scheme outcome) \<Rightarrow> u32 \<Rightarrow> u8 \<Rightarrow> u8 \<Rightarrow> 'a fs_scheme \<Rightarrow> 'a fs_scheme outcome" where
  "vfs_open call node rd wr s =
     bind_outcome (get_fs node s) (\<lambda>n. if fs_open n \<noteq> 0 then call (fs_open n) node s else Inr s)"

definition vfs_close ::
    "(u32 \<Rightarrow> u32 \<Rightarrow> 'a fs_scheme \<Rightarrow> 'a fs_scheme outcome) \<Rightarrow> u32 \<Rightarrow> 'a fs_scheme \<Rightarrow> 'a fs_scheme outcome" where
  "vfs_close call node s =
     bind_outcome (get_fs node s) (\<lambda>n. if fs_close n \<noteq> 0 then call (fs_close n) node s else Inr s)"

definition vfs_readdir :: "u32 \<Rightarrow> u32 \<Rightarrow> 'a fs_scheme \<Rightarrow> (bool \<times> 'a fs_scheme) outcome" where
  "vfs_readdir node index s =
     bind_outcome (get_fs node s) (\<lambda>n.
       if fs_flags n AND 0x07 = FS_DIRECTORY
       then (case fs_readdir n of Some Initrd_readdir \<Rightarrow> initrd_readdir node index s | None \<Rightarrow> Inr (False, s))
       else Inr (False, s))"

definition vfs_finddir :: "u32 \<Rightarrow> string \<Rightarrow> 'a fs_scheme \<Rightarrow> u32 outcome" where
  "vfs_finddir node name s =
     bind_outcome (get_fs node s) (\<lambda>n.
       if fs_flags n AND 0x07 = FS_DIRECTORY
       then (case fs_finddir n of Some Initrd_finddir \<Rightarrow> initrd_finddir node name s | None \<Rightarrow> Inr 0)
       else Inr 0)"

section \<open>The nodes of a mounted image\<close>

lemma mounted_root:
  assumes "mounted s files"
  shows "get_fs (initrd_root s) s = Inr dir_node" "initrd_root s \<noteq> 0"
  using assms by (simp_all add: mounted_def get_fs_def)

lemma mounted_node:
  assumes "mounted s files" "i < length files"
  shows "get_fs (root_node (of_nat i) s) s = Inr (node_of files i)" "root_node (of_nat i) s \<noteq> 0"
    "root_node (of_nat i) s \<noteq> initrd_root s"
  using assms by (simp_all add: mounted_def get_fs_def node_of_def)

lemma mounted_small:
  assumes "mounted s files"
  shows "length files \<le> 64" "image_at s (initrd_header s) files" "nroot_nodes s = of_nat (length files)"
    "file_headers s = initrd_header s + 4"
  using assms image_small by (auto simp: mounted_def)

lemma file_size:
  assumes "mounted s files" "i < length files"
  shows "4 + 72 * length files + data_offset files i + length (snd (files ! i)) < 4294967296"
proof -
  have "List.concat (List.map snd files) =
      List.concat (List.map snd (take i files)) @ snd (files ! i) @ List.concat (List.map snd (drop (Suc i) files))"
    using assms(2) by (metis append.assoc concat.simps(2) concat_append id_take_nth_drop list.simps(9) map_append)
  then have "data_offset files i + length (snd (files ! i)) \<le> length (List.concat (List.map snd files))"
    by (simp add: data_offset_def)
  moreover have "4 + 72 * length files + length (List.concat (List.map snd files)) < 4294967296"
    using mounted_small(2) [OF assms(1)] by (simp add: image_at_def good_files_def)
  ultimately show ?thesis
    by linarith
qed

text \<open>What \<open>initrd_read\<close> does with the two words of the header.\<close>

lemma initrd_read_file:
  fixes s :: "'a fs_scheme"
  assumes "mounted s files" "i < length files"
  defines "n \<equiv> length (snd (files ! i))"
    and "data \<equiv> initrd_header s + (4 + 72 * of_nat (length files) + of_nat (data_offset files i))"
  shows "initrd_read (root_node (of_nat i) s) offs sz s =
    (if of_nat n < offs then Inr []
     else read_bytes (unat (if of_nat n < offs + sz then of_nat n - offs else sz)) (data + offs) s)"
proof -
  have "file_header_at (fs_inode (node_of files i)) s = initrd_header s + 4 + 72 * of_nat i"
    using mounted_small(4) [OF assms(1)] by (simp add: file_header_at_def sizeof_file_header_def node_of_def file_node_def)
  then show ?thesis
    using mounted_node(1) [OF assms(1,2)] image_header(2,3) [OF mounted_small(2) [OF assms(1)] assms(2)]
    by (simp add: initrd_read_def n_def data_def Let_def)
qed

lemma vfs_read_initrd:
  assumes "mounted s files" "i < length files"
  shows "vfs_read (root_node (of_nat i) s) offs sz s = initrd_read (root_node (of_nat i) s) offs sz s"
  using mounted_node(1) [OF assms] by (simp add: vfs_read_def node_of_def file_node_def)

lemma vfs_read_ok:
  assumes m: "mounted s files" and i: "i < length files" and fit: "unat offs + unat sz < 4294967296"
  shows "vfs_read (root_node (of_nat i) s) offs sz s = Inr (take (unat sz) (drop (unat offs) (snd (files ! i))))"
proof -
  let ?d = "snd (files ! i)" and ?a = "initrd_header s + (4 + 72 * of_nat (length files) + of_nat (data_offset files i))"
  have n: "unat (of_nat (length ?d) :: u32) = length ?d"
    using file_size [OF m i] by (intro unat_address) linarith
  have sum: "unat (offs + sz) = unat offs + unat sz"
    using fit by (intro unat_add_small) simp
  have bytes: "bytes_at s ?a ?d"
    using image_parts(3) [OF mounted_small(2) [OF m] i] by (simp add: add.assoc)
  show ?thesis
  proof (cases "length ?d < unat offs")
    case True
    then show ?thesis
      using vfs_read_initrd [OF m i] initrd_read_file [OF m i] n by (simp add: word_less_nat_alt)
  next
    case False
    let ?k = "min (unat sz) (length ?d - unat offs)"
    have "unat (if of_nat (length ?d) < offs + sz then of_nat (length ?d) - offs else sz) = ?k"
    proof (cases "length ?d < unat offs + unat sz")
      case True
      then have "unat (of_nat (length ?d) - offs) = length ?d - unat offs"
        using False n by (simp add: unat_sub word_le_nat_alt)
      with True show ?thesis
        by (simp add: word_less_nat_alt n sum)
    qed (simp add: word_less_nat_alt n sum)
    then have "vfs_read (root_node (of_nat i) s) offs sz s = read_bytes ?k (?a + offs) s"
      using False vfs_read_initrd [OF m i] initrd_read_file [OF m i] n by (simp add: word_less_nat_alt)
    moreover have "bytes_at s (?a + of_nat (unat offs)) (take ?k (drop (unat offs) ?d))"
      using False by (intro bytes_at_slice [OF bytes]) simp
    from read_bytes_at [OF this] have "read_bytes ?k (?a + offs) s = Inr (take ?k (drop (unat offs) ?d))"
      using False by simp
    moreover have "take ?k (drop (unat offs) ?d) = take (unat sz) (drop (unat offs) ?d)"
      by (cases "unat sz \<le> length ?d - unat offs") simp_all
    ultimately show ?thesis
      by simp
  qed
qed

text \<open>When the end of the request wraps around, the size is not clipped to the file.\<close>

lemma read_bytes_unmapped:
  assumes "k < n" "translate (mem s) (cr3 s) (p + of_nat k) = None"
  shows "read_bytes n p s = Inl Wild"
  using assms
proof (induction n arbitrary: k p)
  case (Suc n)
  show ?case
  proof (cases "vload8 p s")
    case (Inl e)
    then have "e = Wild"
      by (auto simp: vload8_def split: option.splits)
    with Inl show ?thesis
      by simp
  next
    case (Inr b)
    then obtain j where j: "k = Suc j"
      using Suc.prems(2) by (cases k) (auto simp: vload8_def)
    then have "read_bytes n (p + 1) s = Inl Wild"
      using Suc.prems by (intro Suc.IH [of j]) (simp_all add: add.assoc)
    with Inr show ?thesis
      by simp
  qed
qed simp

definition file_address :: "'a fs_scheme \<Rightarrow> (string \<times> u8 list) list \<Rightarrow> nat \<Rightarrow> u32" where
  "file_address s files i = initrd_header s + (4 + 72 * of_nat (length files) + of_nat (data_offset files i))"

lemma vfs_read_wrap:
  assumes m: "mounted s files" and i: "i < length files"
    and wrap: "4294967296 \<le> unat offs + unat sz" "unat offs \<le> length (snd (files ! i))"
  shows "vfs_read (root_node (of_nat i) s) offs sz s = read_bytes (unat sz) (file_address s files i + offs) s"
proof -
  let ?d = "snd (files ! i)"
  have n: "unat (of_nat (length ?d) :: u32) = length ?d"
    using file_size [OF m i] by (intro unat_address) linarith
  have "unat (offs + sz) = unat offs + unat sz - 4294967296"
    using wrap(1) unat_u32_bound [of offs] unat_u32_bound [of sz] by (simp add: unat_plus_if')
  moreover have "unat offs + unat sz - 4294967296 \<le> length ?d"
    using wrap(2) unat_u32_bound [of sz] by linarith
  ultimately have "\<not> of_nat (length ?d) < offs + sz" "\<not> of_nat (length ?d) < offs"
    using wrap(2) by (simp_all add: word_less_nat_alt n)
  then show ?thesis
    using vfs_read_initrd [OF m i] initrd_read_file [OF m i] by (simp add: file_address_def)
qed

section \<open>The directory\<close>

lemma find_node_run:
  assumes "mounted s files" "set is \<subseteq> {..<length files}"
  shows "find_node is name s = Inr (case List.find (\<lambda>i. fst (files ! i) = name) is of
    None \<Rightarrow> 0 | Some i \<Rightarrow> root_node (of_nat i) s)"
  using assms(2)
proof (induction "is")
  case (Cons i "is")
  then show ?case
    using mounted_node(1) [OF assms(1), of i] by (auto simp: node_of_def file_node_def)
qed simp

definition find_file :: "string \<Rightarrow> (string \<times> u8 list) list \<Rightarrow> nat option" where
  "find_file name files = List.find (\<lambda>i. fst (files ! i) = name) [0..<length files]"

lemma vfs_finddir_root:
  assumes "mounted s files"
  shows "vfs_finddir (initrd_root s) name s = initrd_finddir (initrd_root s) name s"
  using mounted_root [OF assms] by (simp add: vfs_finddir_def dir_node_def FS_DIRECTORY_def)

lemma vfs_finddir_ok:
  assumes m: "mounted s files"
  shows "vfs_finddir (initrd_root s) name s = Inr (if name = ''.'' \<or> name = ''..'' then initrd_root s
    else case find_file name files of None \<Rightarrow> 0 | Some i \<Rightarrow> root_node (of_nat i) s)"
proof -
  have "nat (sint (nroot_nodes s)) = length files"
    using mounted_small(1,3) [OF m] by (simp add: sint_count)
  moreover have "set [0..<length files] \<subseteq> {..<length files}"
    by auto
  note find_node_run [OF m this, of name]
  ultimately show ?thesis
    using vfs_finddir_root [OF m] by (simp add: initrd_finddir_def find_file_def)
qed

definition dir_entries :: "(string \<times> u8 list) list \<Rightarrow> dirent list" where
  "dir_entries files = [\<lparr>d_name = ''.'', d_ino = 0\<rparr>, \<lparr>d_name = ''..'', d_ino = 0\<rparr>] @
     List.map (\<lambda>i. \<lparr>d_name = fst (files ! i), d_ino = of_nat i\<rparr>) [0..<length files]"

lemma length_dir_entries [simp]: "length (dir_entries files) = length files + 2"
  by (simp add: dir_entries_def)

lemma vfs_readdir_ok:
  assumes m: "mounted s files"
  shows "vfs_readdir (initrd_root s) k s = Inr (if unat k < length files + 2
    then (True, s\<lparr>the_dirent := dir_entries files ! unat k\<rparr>) else (False, s))"
proof -
  have root: "vfs_readdir (initrd_root s) k s = initrd_readdir (initrd_root s) k s"
    using mounted_root [OF m] by (simp add: vfs_readdir_def dir_node_def FS_DIRECTORY_def)
  consider "k = 0" | "k = 1" | "2 \<le> unat k"
    by (metis One_nat_def leI less_2_cases unat_0 unat_1 word_unat_eq_iff)
  then show ?thesis
  proof cases
    case 3
    let ?i = "unat k - 2"
    have "unat (k - 2) = ?i"
      using 3 by (simp add: unat_sub word_le_nat_alt)
    then have k: "k - 2 = of_nat ?i"
      by (metis of_nat_unat_inverse)
    have ne: "k \<noteq> 0" "k \<noteq> 1"
      using 3 by auto
    have "unat (of_nat (length files) :: u32) = length files"
      using mounted_small(1) [OF m] by (intro unat_address) simp
    then have less: "k - 2 < nroot_nodes s \<longleftrightarrow> unat k < length files + 2"
      using mounted_small(3) [OF m] \<open>unat (k - 2) = ?i\<close> 3 by (simp add: word_less_nat_alt) linarith
    show ?thesis
    proof (cases "unat k < length files + 2")
      case True
      then have i: "?i < length files"
        using 3 by linarith
      then have "dir_entries files ! unat k = \<lparr>d_name = fst (files ! ?i), d_ino = of_nat ?i\<rparr>"
        using 3 by (simp add: dir_entries_def nth_append nth_Cons' numeral_2_eq_2)
      with True less show ?thesis
        using mounted_node(1) [OF m i] by (simp add: root initrd_readdir_def ne k node_of_def file_node_def)
    qed (simp add: root initrd_readdir_def ne less)
  qed (use root in \<open>simp_all add: initrd_readdir_def dir_entries_def\<close>)
qed

lemma mounted_dirent: "mounted (s\<lparr>the_dirent := d\<rparr>) files = mounted s files"
proof -
  have "vload8 v (s\<lparr>the_dirent := d\<rparr>) = vload8 v s" for v
    by (rule vload8_same) simp_all
  then have "image_at (s\<lparr>the_dirent := d\<rparr>) loc files = image_at s loc files" for loc
    by (rule image_frame)
  then show ?thesis
    by (simp add: mounted_def root_node_def)
qed

section \<open>What a client relies on\<close>

definition special_name :: "string \<Rightarrow> bool" where
  "special_name name \<longleftrightarrow> name = ''.'' \<or> name = ''..''"

locale file_store =
  fixes ok :: "'s \<Rightarrow> (string \<times> u8 list) list \<Rightarrow> bool"
    and lookup :: "string \<Rightarrow> 's \<Rightarrow> u32 outcome"
    and read_at :: "u32 \<Rightarrow> u32 \<Rightarrow> u32 \<Rightarrow> 's \<Rightarrow> u8 list outcome"
  assumes lookup_found: "ok s files \<Longrightarrow> \<not> special_name name \<Longrightarrow> map_of files name = Some data \<Longrightarrow>
      \<exists>p. lookup name s = Inr p \<and> p \<noteq> 0 \<and> length data < 4294967296 \<and>
        (\<forall>offs sz. unat offs + unat sz < 4294967296 \<longrightarrow> read_at p offs sz s = Inr (take (unat sz) (drop (unat offs) data)))"
    and lookup_missing: "ok s files \<Longrightarrow> \<not> special_name name \<Longrightarrow> map_of files name = None \<Longrightarrow> lookup name s = Inr 0"
begin

lemma read_start:
  assumes "ok s files" "\<not> special_name name" "map_of files name = Some data"
  shows "\<exists>p. lookup name s = Inr p \<and> p \<noteq> 0 \<and> read_at p 0 n s = Inr (take (unat n) data)"
  using lookup_found [OF assms] by force

lemma read_whole:
  assumes "ok s files" "\<not> special_name name" "map_of files name = Some data"
  shows "\<exists>p. lookup name s = Inr p \<and> p \<noteq> 0 \<and> read_at p 0 (of_nat (length data)) s = Inr data"
proof -
  obtain p where p: "lookup name s = Inr p" "p \<noteq> 0" "length data < 4294967296"
    "\<forall>offs sz. unat offs + unat sz < 4294967296 \<longrightarrow> read_at p offs sz s = Inr (take (unat sz) (drop (unat offs) data))"
    using lookup_found [OF assms] by blast
  have "unat (of_nat (length data) :: u32) = length data"
    using p(3) by (rule unat_address)
  with p show ?thesis
    by (intro exI [of _ p]) simp
qed

text \<open>Two reads in a row are one read.\<close>

lemma read_pieces:
  assumes "ok s files" "\<not> special_name name" "map_of files name = Some data" "unat a + unat b < 4294967296"
  shows "\<exists>p xs ys. lookup name s = Inr p \<and> read_at p 0 a s = Inr xs \<and> read_at p a b s = Inr ys \<and>
    read_at p 0 (a + b) s = Inr (xs @ ys)"
proof -
  have "unat (a + b) = unat a + unat b"
    using assms(4) by (intro unat_add_small) simp
  then show ?thesis
    using lookup_found [OF assms(1-3)] assms(4) by (auto simp: take_add)
qed

end

lemma find_file_Cons:
  "find_file name (f # files) = (if fst f = name then Some 0 else map_option Suc (find_file name files))"
proof -
  have "List.find P (List.map Suc xs) = map_option Suc (List.find (P \<circ> Suc) xs)" for P xs
    by (induction xs) auto
  from this [of "\<lambda>i. fst ((f # files) ! i) = name" "[0..<length files]"] show ?thesis
    by (simp add: find_file_def upt_conv_Cons map_Suc_upt comp_def del: upt_Suc)
qed

lemma find_file_map_of:
  "map_of files name = map_option (\<lambda>i. snd (files ! i)) (find_file name files)"
  "find_file name files = Some i \<Longrightarrow> i < length files"
proof (induction files arbitrary: i)
  case (Cons f files)
  {
    case 1
    show ?case
      using Cons.IH(1) by (cases f) (auto simp: find_file_Cons option.map_comp comp_def)
  next
    case 2
    then show ?case
      using Cons.IH(2) by (auto simp: find_file_Cons split: if_splits)
  }
qed (simp_all add: find_file_def)

lemma vfs_lookup_ok:
  assumes m: "mounted s files" and name: "\<not> special_name name" and d: "map_of files name = Some data"
  shows "\<exists>p. vfs_finddir (initrd_root s) name s = Inr p \<and> p \<noteq> 0 \<and> length data < 4294967296 \<and>
    (\<forall>offs sz. unat offs + unat sz < 4294967296 \<longrightarrow> vfs_read p offs sz s = Inr (take (unat sz) (drop (unat offs) data)))"
proof -
  obtain i where i: "find_file name files = Some i" "snd (files ! i) = data"
    using d by (auto simp: find_file_map_of(1))
  have l: "i < length files"
    using i(1) by (rule find_file_map_of(2))
  then have "length data < 4294967296"
    using file_size [OF m l] i(2) by simp
  with l i show ?thesis
    using vfs_finddir_ok [OF m, of name] name mounted_node(2) [OF m l] vfs_read_ok [OF m l]
    by (intro exI [of _ "root_node (of_nat i) s"]) (simp add: special_name_def)
qed

lemma vfs_missing_ok:
  assumes "mounted s files" "\<not> special_name name" "map_of files name = None"
  shows "vfs_finddir (initrd_root s) name s = Inr 0"
  using vfs_finddir_ok [OF assms(1), of name] assms(2,3) by (simp add: special_name_def find_file_map_of(1))

interpretation ram_disk: file_store mounted "\<lambda>name s. vfs_finddir (initrd_root s) name s" vfs_read
  by unfold_locales (use vfs_lookup_ok vfs_missing_ok in blast)+

section \<open>Properties\<close>

text \<open>
  With room on the heap initialise_initrd returns the root of a tree of nodes that presents the
  files of the image.
\<close>

theorem initrd_mounts:
  assumes "image_at s loc files" "heap_free s A (184 * length files + (r + 232))"
  shows "\<exists>t p B. initialise_initrd loc s = Inr (p, t) \<and> p = initrd_root t \<and> mounted t files \<and> heap_free t B r"
  using initialise_initrd_ok [OF assms] by blast


text \<open>
  C39. a read whose end does not pass 2^32 returns the bytes of the file from the offset, clipped
  to its length
\<close>

theorem vfs_read_clips:
  assumes "mounted s files" "i < length files" "unat offs + unat sz < 4294967296"
  shows "vfs_read (root_node (of_nat i) s) offs sz s = Inr (take (unat sz) (drop (unat offs) (snd (files ! i))))"
  using assms by (rule vfs_read_ok)


text \<open>
  Readdir of the root enumerates the two dot entries and the names of the files in order, and then
  returns null.
\<close>

theorem vfs_readdir_lists:
  assumes "mounted s files"
  shows "vfs_readdir (initrd_root s) k s = Inr (if unat k < length files + 2
    then (True, s\<lparr>the_dirent := dir_entries files ! unat k\<rparr>) else (False, s))"
  using assms by (rule vfs_readdir_ok)

section \<open>Instances\<close>

lemma disk_mounted:
  obtains t A where "initialise_initrd 0x6000 disk_machine = Inr (initrd_root t, t)" "mounted t disk" "heap_free t A 3664"
    "mem t = mem disk_machine" "cr3 t = cr3 disk_machine" "tty_lock t = 0" "initrd_header t = 0x6000" "tty_inv t"
proof -
  have "heap_free disk_machine {} (184 * length disk + (3664 + 232))"
    using disk_machine_ok(2) by (simp add: disk_def)
  from initialise_initrd_ok [OF disk_machine_ok(1) this]
  obtain t p B N M q where t: "initialise_initrd 0x6000 disk_machine = Inr (p, t)" "mounted t disk" "initrd_root t = p"
    "heap_free t B 3664" "mem t = mem disk_machine" "cr3 t = cr3 disk_machine" "tty_lock t = tty_lock disk_machine"
    "initrd_header t = 0x6000"
    "t = disk_machine\<lparr>nodes := N, fs_nodes := M, initrd_header := 0x6000, file_headers := 0x6000 + 4, initrd_root := p,
       root_nodes := q, nroot_nodes := of_nat (length disk)\<rparr>"
    by (elim exE conjE)
  have "tty_inv t"
    unfolding t(9) using disk_machine_ok(4) by (simp add: tty_inv_def)
  with t(1-8) show thesis
    using that [of t B] disk_machine_ok(3) by simp
qed

text \<open>
  An instance of the statement above.
\<close>

theorem initrd_mounts_witness:
  "\<exists>t p. initialise_initrd 0x6000 disk_machine = Inr (p, t) \<and> p = initrd_root t \<and> mounted t disk"
proof -
  have "heap_free disk_machine {} (184 * length disk + (3664 + 232))"
    using disk_machine_ok(2) by (simp add: disk_def)
  from initrd_mounts [OF disk_machine_ok(1) this] show ?thesis
    by blast
qed


text \<open>
  An instance of C39.
\<close>

theorem vfs_read_clips_witness:
  "\<exists>t. mounted (t :: fs) disk \<and> vfs_read (root_node 0 t) 1 100 t = Inr [10, 75]"
proof -
  obtain t A where "initialise_initrd 0x6000 disk_machine = Inr (initrd_root t, t)" and t: "mounted t disk"
    and "heap_free t A 3664" and same: "mem t = mem disk_machine" "cr3 t = cr3 disk_machine" and "tty_lock t = 0"
    and loc: "initrd_header t = 0x6000" and "tty_inv t"
    by (rule disk_mounted)
  have "0 < length disk" "unat (1 :: u32) + unat (100 :: u32) < 4294967296"
    by (simp_all add: disk_def)
  from vfs_read_clips [OF t this] t show ?thesis
    by (intro exI [of _ t]) (simp add: disk_def)
qed


text \<open>
  An instance of the statement above.
\<close>

theorem vfs_readdir_lists_witness:
  "\<exists>t u. mounted (t :: fs) disk \<and> vfs_readdir (initrd_root t) 2 t = Inr (True, u) \<and> d_name (the_dirent u) = ''a''"
proof -
  obtain t A where "initialise_initrd 0x6000 disk_machine = Inr (initrd_root t, t)" and t: "mounted t disk"
    and "heap_free t A 3664" and same: "mem t = mem disk_machine" "cr3 t = cr3 disk_machine" and "tty_lock t = 0"
    and loc: "initrd_header t = 0x6000" and "tty_inv t"
    by (rule disk_mounted)
  from vfs_readdir_lists [OF t, of 2] t show ?thesis
    by (intro exI [of _ t] exI [of _ "t\<lparr>the_dirent := dir_entries disk ! 2\<rparr>"]) (simp add: disk_def dir_entries_def)
qed

end
