(* ===== verification/Shell.thy ===== *)
theory Shell
  imports Vfs
begin

text \<open>
  The shell (\<^verbatim>\<open>drivers/shell.cpp\<close>). A line that has been read is the string in the buffer, and
  a command is a function of the state. The loops that need not end (the reader that waits for
  a key, the reboot that waits for the controller, the listing of a directory) are partial;
  a command that halts the machine has the outcome \<open>Hang\<close>. \<open>shell_main\<close> never returns, so it is
  given by the number of rounds that have been run.

  The line editor is proved equal to a reference editor on the characters typed ahead, and the
  commands are proved to show what they promise.
\<close>

section \<open>The line editor\<close>

text \<open>\<open>buf\<close> is \<^verbatim>\<open>buffer[0], \<dots>, buffer[i - 1]\<close>.\<close>

partial_function (option) readline_loop ::
    "u32 \<Rightarrow> u32 \<Rightarrow> string \<Rightarrow> regs list \<Rightarrow> 'a irq_scheme \<Rightarrow> (string \<times> regs list \<times> 'a irq_scheme) outcome option" where
  "readline_loop ret max_len buf rs s =
     (if of_nat (length buf) < max_len - 1 then
        (case getchar_wait ret rs s of
           Inl e \<Rightarrow> Some (Inl e)
         | Inr (c, rs, s) \<Rightarrow>
             if c = newline_char then
               Some (bind_outcome (terminal_putchar newline_char s) (\<lambda>s. Inr (buf, rs, s)))
             else if c = backspace_char then
               (if buf = [] then readline_loop ret max_len buf rs s
                else (case terminal_putchar backspace_char s of
                  Inl e \<Rightarrow> Some (Inl e)
                | Inr s \<Rightarrow> readline_loop ret max_len (butlast buf) rs s))
             else
               (case terminal_putchar c s of
                  Inl e \<Rightarrow> Some (Inl e)
                | Inr s \<Rightarrow> readline_loop ret max_len (buf @ [c]) rs s))
      else Some (Inr (buf, rs, s)))"

text \<open>The line is the string that the buffer holds once the zero is behind it.\<close>

definition shell_readline ::
    "u32 \<Rightarrow> u32 \<Rightarrow> regs list \<Rightarrow> 'a irq_scheme \<Rightarrow> (string \<times> regs list \<times> 'a irq_scheme) outcome" where
  "shell_readline ret max_len rs s =
     bind_outcome (finish (readline_loop ret max_len [] rs s)) (\<lambda>(buf, rs, s).
       Inr (takeWhile (\<lambda>c. c \<noteq> nul) buf, rs, s))"

section \<open>The commands\<close>

definition parse_color_name :: "string \<Rightarrow> vga_color" where
  "parse_color_name color_name =
     (if color_name = ''black'' then VGA_COLOR_BLACK
      else if color_name = ''blue'' then VGA_COLOR_BLUE
      else if color_name = ''green'' then VGA_COLOR_GREEN
      else if color_name = ''cyan'' then VGA_COLOR_CYAN
      else if color_name = ''red'' then VGA_COLOR_RED
      else if color_name = ''magenta'' then VGA_COLOR_MAGENTA
      else if color_name = ''brown'' then VGA_COLOR_BROWN
      else if color_name = ''lightgrey'' then VGA_COLOR_LIGHT_GREY
      else if color_name = ''darkgrey'' then VGA_COLOR_DARK_GREY
      else if color_name = ''lightblue'' then VGA_COLOR_LIGHT_BLUE
      else if color_name = ''lightgreen'' then VGA_COLOR_LIGHT_GREEN
      else if color_name = ''lightcyan'' then VGA_COLOR_LIGHT_CYAN
      else if color_name = ''lightred'' then VGA_COLOR_LIGHT_RED
      else if color_name = ''lightmagenta'' then VGA_COLOR_LIGHT_MAGENTA
      else if color_name = ''lightbrown'' then VGA_COLOR_LIGHT_BROWN
      else if color_name = ''white'' then VGA_COLOR_WHITE
      else VGA_COLOR_BLACK)"

text \<open>
  The reboot: the wait until bit 1 of the status is clear (\<open>None\<close> if it never is), then the reset
  command. After it the processor halts for ever, unless the controller resets it.
\<close>

partial_function (option) controller_wait :: "'a hw_scheme \<Rightarrow> 'a hw_scheme option" where
  "controller_wait s = (let (good, s) = inb 0x64 s in if good AND 0x02 \<noteq> 0 then controller_wait s else Some s)"

definition reboot_request :: "'a hw_scheme \<Rightarrow> 'a hw_scheme option" where
  "reboot_request s = map_option (outb 0x64 0xFE) (controller_wait s)"

definition reboot_system :: "'a hw_scheme \<Rightarrow> 'a hw_scheme outcome" where
  "reboot_system s = bind_outcome (finish (map_option Inr (reboot_request s))) (\<lambda>_. Inl Hang)"

text \<open>The stores of a byte sequence, one byte after the other.\<close>

primrec store_bytes :: "u32 \<Rightarrow> u8 list \<Rightarrow> 'a vmm_scheme \<Rightarrow> 'a vmm_scheme outcome" where
  "store_bytes p [] s = Inr s"
| "store_bytes p (b # bs) s = bind_outcome (vstore8 p b s) (store_bytes (p + 1) bs)"

definition test_data :: "u8 list" where
  "test_data = List.map (\<lambda>i. 75 + of_nat i) [0..<10] @ [0]"

definition test_heap :: "'a heap_scheme \<Rightarrow> 'a heap_scheme outcome" where
  "test_heap s =
     bind_outcome (print (''--- Heap Test Started ---'' @ [newline_char]) [] s) (\<lambda>s.
     bind_outcome (kmalloc_call 1024 s) (\<lambda>(a, s).
     bind_outcome (kmalloc_call 1024 s) (\<lambda>(b, s).
     bind_outcome (print (''Allocated A (1KB) at 0x%x'' @ [newline_char]) [PInt a] s) (\<lambda>s.
     bind_outcome (print (''Allocated B (1KB) at 0x%x'' @ [newline_char]) [PInt b] s) (\<lambda>s.
     bind_outcome (store_bytes a test_data s) (\<lambda>s.
     bind_outcome (finish (read_string a s)) (\<lambda>cs.
     bind_outcome (print (''Data verification in A: %s'' @ [newline_char]) [PStr (Some cs)] s) (\<lambda>s.
     bind_outcome (print (''Freeing A and B...'' @ [newline_char]) [] s) (\<lambda>s.
     bind_outcome (kfree a s) (\<lambda>s.
     bind_outcome (kfree b s) (\<lambda>s.
     bind_outcome (print (''Requesting 4MB to trigger heap expansion...'' @ [newline_char]) [] s) (\<lambda>s.
     bind_outcome (kmalloc_call (4 * 1024 * 1024) s) (\<lambda>(c, s).
     bind_outcome
       (if c \<noteq> 0 then
          bind_outcome (print (''Allocated C (4MB) at 0x%x (Success!)'' @ [newline_char]) [PInt c] s) (kfree c)
        else print (''Failed to allocate 4MB block!'' @ [newline_char]) [] s) (\<lambda>s.
     print (''--- Heap Test Completed Successfully ---'' @ [newline_char]) [] s))))))))))))))"

text \<open>The command name up to the first space and, behind it, the arguments.\<close>

fun split_space :: "string \<Rightarrow> string \<times> string option" where
  "split_space [] = ([], None)"
| "split_space (c # cs) =
     (if c = CHR '' '' then ([], Some cs) else let (name, args) = split_space cs in (c # name, args))"

definition help_lines :: "string list" where
  "help_lines = List.map (\<lambda>l. l @ [newline_char])
    [''Available commands:'',
     ''  help        - Show this help message'',
     ''  clear       - Clear the screen'',
     ''  whatisthis  - Explain this project'',
     ''  exit        - Close the shell and halt project'',
     ''  quit        - Close the shell and halt project'',
     ''  echo <text> - Prints the given text'',
     ''  version     - Displays KevOS version'',
     ''  setcolor <fg> <bg> - Sets terminal foreground and background colors'',
     ''  reboot      - Reboots the system'',
     ''  testheap    - Run a suite of tests on the kernel heap'',
     ''  uptime      - Displays the system uptime'',
     ''  gdtinfo     - Displays GDT and TSS CPU state'',
     ''  meminfo     - Displays physical memory usage'',
     ''  ps          - List all running tasks'',
     ''  ls          - List files in root directory'',
     ''  cat <file>  - Read and print file contents'']"

definition shell_echo :: "string option \<Rightarrow> 'a tty_scheme \<Rightarrow> 'a tty_scheme outcome" where
  "shell_echo args s =
     (case args of Some text \<Rightarrow> print (''%s'' @ [newline_char]) [PStr (Some text)] s
      | None \<Rightarrow> print [newline_char] [] s)"

definition shell_setcolor :: "string option \<Rightarrow> 'a tty_scheme \<Rightarrow> 'a tty_scheme outcome" where
  "shell_setcolor args s =
     (case args of None \<Rightarrow> print (''Usage: setcolor <fg> <bg>'' @ [newline_char]) [] s
      | Some fg_str \<Rightarrow>
          (case split_space fg_str of
             (fg_str, None) \<Rightarrow> print (''Usage: setcolor <fg> <bg>'' @ [newline_char]) [] s
           | (fg_str, Some bg_str) \<Rightarrow>
               Inr (terminal_setcolor_colors (parse_color_name fg_str) (parse_color_name bg_str) s)))"

definition shell_uptime :: "'a irq_scheme \<Rightarrow> 'a irq_scheme outcome" where
  "shell_uptime s =
     (let ticks = get_timer_ticks s; seconds = ticks div 100
      in print (''System uptime: %u seconds'' @ [newline_char]) [PInt seconds] s)"

definition shell_gdtinfo :: "'a cpu_scheme \<Rightarrow> 'a cpu_scheme outcome" where
  "shell_gdtinfo s =
     (let tr = task_register s; (limit, base) = gdtr s; cs = seg_cs s; ds = seg_ds s; ss = seg_ss s
      in bind_outcome (print_all
            [(''--- CPU GDT/TSS State ---'' @ [newline_char], []),
             (''GDT Pointer: Base=0x%x, Limit=0x%x'' @ [newline_char], [PInt base, PInt (ucast limit)]),
             (''CS Selector: 0x%x (Expected: 0x08)'' @ [newline_char], [PInt (ucast cs)]),
             (''DS Selector: 0x%x (Expected: 0x10)'' @ [newline_char], [PInt (ucast ds)]),
             (''SS Selector: 0x%x (Expected: 0x10)'' @ [newline_char], [PInt (ucast ss)]),
             (''Task Reg:    0x%x (Expected: 0x28)'' @ [newline_char], [PInt (ucast tr)])] s) (\<lambda>s.
         bind_outcome
           (if ucast ss \<noteq> GDT_KERNEL_DATA_SEGMENT then
              bind_outcome (print (''WARNING: SS selector mismatch! Check gdt_flush assembly.'' @ [newline_char]) []
                  (terminal_setcolor_colors VGA_COLOR_RED VGA_COLOR_BLACK s)) (\<lambda>s.
                Inr (terminal_setcolor_colors VGA_COLOR_MAGENTA VGA_COLOR_BLACK s))
            else Inr s) (\<lambda>s.
         if ucast tr = GDT_TSS_SEGMENT
         then print (''Status: TSS is active and correctly loaded.'' @ [newline_char]) [] s
         else Inr s)))"

definition shell_meminfo :: "'a pmm_scheme \<Rightarrow> 'a pmm_scheme outcome" where
  "shell_meminfo s =
     (let free_mem = pmm_get_free_memory s;
          total_mem = pmm_get_total_memory s;
          used_mem = total_mem - free_mem
      in print_all
           [(''--- Physical Memory Info ---'' @ [newline_char], []),
            (''Free Memory: %u KB'' @ [newline_char], [PInt (free_mem div 1024)]),
            (''Used Memory: %u KB'' @ [newline_char], [PInt (used_mem div 1024)])] s)"

definition whatisthis_lines :: "string list" where
  "whatisthis_lines = List.map (\<lambda>l. l @ [newline_char])
    [''KevOS is a custom-built, 32-bit x86 operating system.'',
     ''It currently features a protected-mode kernel, VGA drivers,'',
     ''and an interrupt-driven keyboard subsystem.'',
     ''Next phase: Multitasking and Processes.'']"

text \<open>One line of \<open>ls\<close>, and the loop over the entries.\<close>

definition list_entry :: "'a fs_scheme \<Rightarrow> 'a fs_scheme outcome" where
  "list_entry s =
     bind_outcome (vfs_finddir (fs_root s) (d_name (the_dirent s)) s) (\<lambda>fsnode.
       if fsnode = 0 then Inr s
       else bind_outcome (get_fs fsnode s) (\<lambda>n.
         bind_outcome (print (if fs_flags n AND 0x7 = FS_DIRECTORY then ''(dir) '' else ''(file) '') [] s)
           (print (''%s'' @ [newline_char]) [PStr (Some (d_name (the_dirent s)))])))"

partial_function (option) list_entries :: "u32 \<Rightarrow> 'a fs_scheme \<Rightarrow> 'a fs_scheme outcome option" where
  "list_entries i s =
     (case vfs_readdir (fs_root s) i s of
        Inl e \<Rightarrow> Some (Inl e)
      | Inr (found, s) \<Rightarrow>
          if \<not> found then Some (Inr s)
          else (case list_entry s of Inl e \<Rightarrow> Some (Inl e) | Inr s \<Rightarrow> list_entries (i + 1) s))"

definition shell_ls :: "'a fs_scheme \<Rightarrow> 'a fs_scheme outcome" where
  "shell_ls s =
     (if fs_root s = 0 then print (''No root filesystem mounted.'' @ [newline_char]) [] s
      else finish (list_entries 0 s))"

definition shell_cat :: "string option \<Rightarrow> 'a fs_scheme \<Rightarrow> 'a fs_scheme outcome" where
  "shell_cat args s =
     (case args of None \<Rightarrow> print (''Usage: cat <filename>'' @ [newline_char]) [] s
      | Some name \<Rightarrow>
          if fs_root s = 0 then print (''No root filesystem mounted.'' @ [newline_char]) [] s
          else bind_outcome (vfs_finddir (fs_root s) name s) (\<lambda>fsnode.
            if fsnode = 0 then print (''File not found: %s'' @ [newline_char]) [PStr (Some name)] s
            else bind_outcome (get_fs fsnode s) (\<lambda>n.
              if fs_flags n AND 0x7 = FS_DIRECTORY then print (''Cannot cat a directory.'' @ [newline_char]) [] s
              else bind_outcome (vfs_read fsnode 0 255 s) (\<lambda>bs.
                print (''%s'' @ [newline_char])
                  [PStr (Some (takeWhile (\<lambda>c. c \<noteq> nul) (List.map (\<lambda>b. char_of (unat b)) bs)))] s))))"

definition shell_execute :: "string \<Rightarrow> 'a fs_scheme \<Rightarrow> 'a fs_scheme outcome" where
  "shell_execute cmd s =
     (if cmd = [] then Inr s
      else let (name, args) = split_space cmd
      in if name = ''help'' then print_lines help_lines s
      else if name = ''exit'' \<or> name = ''quit'' then
        bind_outcome (print (''System halting... Safe to power off.'' @ [newline_char]) [] s) (\<lambda>_. Inl Hang)
      else if name = ''clear'' then Inr (terminal_initialize s)
      else if name = ''echo'' then shell_echo args s
      else if name = ''version'' then print (''KevOS Version 0.1 (i386 Protected Mode)'' @ [newline_char]) [] s
      else if name = ''setcolor'' then shell_setcolor args s
      else if name = ''reboot'' then
        bind_outcome (print (''Rebooting system...'' @ [newline_char]) [] s) reboot_system
      else if name = ''testheap'' then test_heap s
      else if name = ''uptime'' then shell_uptime s
      else if name = ''gdtinfo'' then shell_gdtinfo s
      else if name = ''meminfo'' then shell_meminfo s
      else if name = ''ps'' then finish (task_print_list s)
      else if name = ''whatisthis'' then print_lines whatisthis_lines s
      else if name = ''ls'' then shell_ls s
      else if name = ''cat'' then shell_cat args s
      else print (''Unknown command: %s'' @ [newline_char]) [PStr (Some name)] s)"

section \<open>The loop\<close>

definition shell_round :: "u32 \<Rightarrow> regs list \<times> 'a fs_scheme \<Rightarrow> (regs list \<times> 'a fs_scheme) outcome" where
  "shell_round ret = (\<lambda>(rs, s).
     bind_outcome (print ''kevos> '' [] s) (\<lambda>s.
     bind_outcome (shell_readline ret 128 rs s) (\<lambda>(buffer, rs, s).
     bind_outcome (shell_execute buffer s) (\<lambda>s.
     bind_outcome (print [newline_char] [] s) (\<lambda>s. Inr (rs, s))))))"

primrec shell_rounds :: "nat \<Rightarrow> u32 \<Rightarrow> regs list \<times> 'a fs_scheme \<Rightarrow> (regs list \<times> 'a fs_scheme) outcome" where
  "shell_rounds 0 ret x = Inr x"
| "shell_rounds (Suc n) ret x = bind_outcome (shell_round ret x) (shell_rounds n ret)"

definition shell_main :: "nat \<Rightarrow> u32 \<Rightarrow> regs list \<times> 'a fs_scheme \<Rightarrow> (regs list \<times> 'a fs_scheme) outcome" where
  "shell_main n ret = (\<lambda>(rs, s).
     bind_outcome (print_lines
         [[newline_char] @ ''--- KevOS Shell v0.1 ---'' @ [newline_char],
          ''Type 'help' for a list of commands.'' @ [newline_char, newline_char]] s) (\<lambda>s.
       shell_rounds n ret (rs, s)))"

section \<open>What the line editor should do\<close>

fun edit_line :: "nat \<Rightarrow> string \<Rightarrow> string \<Rightarrow> (string \<times> string \<times> string) option" where
  "edit_line n buf [] = (if length buf < n then None else Some (buf, [], []))"
| "edit_line n buf (c # cs) =
     (if n \<le> length buf then Some (buf, [], c # cs)
      else if c = newline_char then Some (buf, [newline_char], cs)
      else if c = backspace_char then
        (if buf = [] then edit_line n buf cs
         else map_option (\<lambda>(line, echo, rest). (line, backspace_char # echo, rest)) (edit_line n (butlast buf) cs))
      else map_option (\<lambda>(line, echo, rest). (line, c # echo, rest)) (edit_line n (buf @ [c]) cs))"

lemma putchar_shows: "tty_lock s = 0 \<Longrightarrow> terminal_putchar c s = Inr (show_text [c] s)"
  by (simp add: terminal_putchar_eq_write terminal_write_eq show_text_def)

lemma show_text_kbd_ok [simp]: "kbd_ok (show_text cs s) = kbd_ok s"
  by (rule show_text_keeps) (simp add: kbd_ok_def)

lemma show_text_contents [simp]: "kbd_contents (show_text cs s) = kbd_contents s"
  by (rule show_text_keeps) (simp add: kbd_contents_def)

lemma show_text_screen:
  "tty_inv s \<Longrightarrow> tty_screen (show_text cs s) = fold (screen_put (terminal_color s)) cs (tty_screen s)"
  unfolding show_text_def by (rule screen_put_all)

lemma show_text_inv [simp]: "tty_inv s \<Longrightarrow> tty_inv (show_text cs s)"
  unfolding show_text_def by (rule terminal_put_all_inv)

lemma kbd_advance_tty [simp]:
  "tty_screen (kbd_advance s) = tty_screen s" "tty_inv (kbd_advance s) = tty_inv s"
  "terminal_color (kbd_advance s) = terminal_color s"
  by (simp_all add: kbd_advance_def tty_screen_def tty_inv_def)

text \<open>The state after a line: what was typed is consumed, and the echo is on the screen.\<close>

definition line_read :: "'a irq_scheme \<Rightarrow> string \<Rightarrow> string \<Rightarrow> 'a irq_scheme \<Rightarrow> bool" where
  "line_read s echo rest t \<longleftrightarrow> kbd_ok t \<and> kbd_contents t = rest \<and> tty_lock t = 0 \<and> tty_inv t \<and>
     terminal_color t = terminal_color s \<and>
     tty_screen t = fold (screen_put (terminal_color s)) echo (tty_screen s)"

lemma line_read_refl: "kbd_ok s \<Longrightarrow> tty_lock s = 0 \<Longrightarrow> tty_inv s \<Longrightarrow> line_read s [] (kbd_contents s) s"
  by (simp add: line_read_def)

lemma line_read_echo:
  assumes "line_read (show_text [c] u) echo rest t" "tty_inv u" "terminal_color u = terminal_color s"
    "tty_screen u = tty_screen s"
  shows "line_read s (c # echo) rest t"
  using assms show_text_screen [OF assms(2), of "[c]"] by (simp add: line_read_def)

lemma line_read_skip:
  assumes "line_read u echo rest t" "terminal_color u = terminal_color s" "tty_screen u = tty_screen s"
  shows "line_read s echo rest t"
  using assms by (simp add: line_read_def)

lemma readline_loop_edits:
  fixes s :: "'a irq_scheme"
  assumes "edit_line (unat (max_len - 1)) buf (kbd_contents s) = Some (line, echo, rest)"
    and "kbd_ok s" "tty_lock s = 0" "tty_inv s" "length buf \<le> unat (max_len - 1)"
  shows "\<exists>t. readline_loop ret max_len buf rs s = Some (Inr (line, rs, t)) \<and> line_read s echo rest t"
  using assms
proof (induction "unat (max_len - 1)" buf "kbd_contents s" arbitrary: s line echo rest rule: edit_line.induct)
  case (1 buf)
  then have "\<not> length buf < unat (max_len - 1)" "length buf = unat (max_len - 1)"
    by (simp_all split: if_splits)
  moreover have "unat (of_nat (length buf) :: u32) = length buf"
    using calculation unat_u32_bound [of "max_len - 1"] by (intro unat_address) linarith
  ultimately show ?case
    using 1 line_read_refl [of s] by (subst readline_loop.simps) (simp add: word_less_nat_alt)
next
  case (2 buf c cs)
  have contents: "kbd_contents s = c # cs"
    using 2(4) by simp
  have len: "unat (of_nat (length buf) :: u32) = length buf"
    using 2(9) unat_u32_bound [of "max_len - 1"] by (intro unat_address) linarith
  show ?case
  proof (cases "unat (max_len - 1) \<le> length buf")
    case True
    then show ?thesis
      using 2(5-8) len line_read_refl [of s]
      by (subst readline_loop.simps) (auto simp: word_less_nat_alt contents)
  next
    case False
    let ?u = "kbd_advance s"
    have get: "getchar_wait ret rs s = Inr (c, rs, ?u)" "kbd_contents ?u = cs" "kbd_ok ?u"
      using getchar_ready [OF 2(6) contents, of ret rs] by auto
    have u: "tty_lock ?u = 0" "tty_inv ?u" "terminal_color ?u = terminal_color s" "tty_screen ?u = tty_screen s"
      using 2(7,8) by simp_all
    note step = readline_loop.simps [of ret max_len buf rs s]
    have less: "of_nat (length buf) < max_len - 1"
      using False len by (simp add: word_less_nat_alt)
    show ?thesis
    proof (cases "c = newline_char")
      case True
      have "line_read (show_text [c] ?u) [] cs (show_text [c] ?u)"
        using line_read_refl [of "show_text [c] ?u"] get u by simp
      from line_read_echo [OF this u(2-4)] show ?thesis
        unfolding step using 2(5) False True contents get(1) less putchar_shows [OF u(1), of c] by auto
    next
      case nl: False
      show ?thesis
      proof (cases "c = backspace_char")
        case bs: True
        show ?thesis
        proof (cases "buf = []")
          case True
          have "edit_line (unat (max_len - 1)) buf (kbd_contents ?u) = Some (line, echo, rest)"
            using 2(5) False nl bs True contents get(2) by simp
          then obtain t where "readline_loop ret max_len buf rs ?u = Some (Inr (line, rs, t))" "line_read ?u echo rest t"
            using 2(1) [OF False nl bs True, of ?u line echo rest] get u 2(9) by auto
          then show ?thesis
            unfolding step using line_read_skip [OF _ u(3,4)] bs nl True get(1) less by auto
        next
          case ne: False
          obtain echo' where e: "edit_line (unat (max_len - 1)) (butlast buf) cs = Some (line, echo', rest)" "echo = c # echo'"
            using 2(5) False nl bs ne contents by auto
          let ?v = "show_text [c] ?u"
          have "edit_line (unat (max_len - 1)) (butlast buf) (kbd_contents ?v) = Some (line, echo', rest)"
            using e(1) get(2) by simp
          then obtain t where "readline_loop ret max_len (butlast buf) rs ?v = Some (Inr (line, rs, t))" "line_read ?v echo' rest t"
            using 2(2) [OF False nl bs ne, of ?v line echo' rest] get u le_diff_conv [of "length buf" 1] 2(9)
            by (auto simp: le_SucI)
          then show ?thesis
            unfolding step using line_read_echo [OF _ u(2-4)] e(2) bs nl ne get(1) less putchar_shows [OF u(1), of c] by auto
        qed
      next
        case bs: False
        obtain echo' where e: "edit_line (unat (max_len - 1)) (buf @ [c]) cs = Some (line, echo', rest)" "echo = c # echo'"
          using 2(5) False nl bs contents by auto
        let ?v = "show_text [c] ?u"
        have "edit_line (unat (max_len - 1)) (buf @ [c]) (kbd_contents ?v) = Some (line, echo', rest)"
          using e(1) get(2) by simp
        then obtain t where "readline_loop ret max_len (buf @ [c]) rs ?v = Some (Inr (line, rs, t))" "line_read ?v echo' rest t"
          using 2(3) [OF False nl bs, of ?v line echo' rest] get u False by auto
        then show ?thesis
          unfolding step using line_read_echo [OF _ u(2-4)] e(2) bs nl get(1) less putchar_shows [OF u(1), of c] by auto
      qed
    qed
  qed
qed

text \<open>A line that is short enough: backspaces take back what is there, and are not echoed when nothing is.\<close>

definition edit_char :: "char \<Rightarrow> string \<Rightarrow> string" where
  "edit_char c line = (if c = backspace_char then butlast line else line @ [c])"

definition edited :: "string \<Rightarrow> string" where
  "edited cs = fold edit_char cs []"

fun echoed :: "string \<Rightarrow> string \<Rightarrow> string" where
  "echoed line [] = []"
| "echoed line (c # cs) =
     (if c = backspace_char \<and> line = [] then [] else [c]) @ echoed (edit_char c line) cs"

lemma edit_line_short:
  assumes "length buf + length cs < n" "newline_char \<notin> set cs"
  shows "edit_line n buf (cs @ newline_char # rest) = Some (fold edit_char cs buf, echoed buf cs @ [newline_char], rest)"
  using assms
proof (induction cs arbitrary: buf)
  case (Cons c cs)
  have "length (edit_char c buf) + length cs < n"
    using Cons.prems(1) by (auto simp: edit_char_def)
  with Cons show ?case
    by (auto simp: edit_char_def)
qed simp

lemma edited_no_nul: "nul \<notin> set cs \<Longrightarrow> nul \<notin> set line \<Longrightarrow> nul \<notin> set (fold edit_char cs line)"
  by (induction cs arbitrary: line) (auto simp: edit_char_def dest: in_set_butlastD)

lemma edited_plain: "backspace_char \<notin> set cs \<Longrightarrow> edited cs = cs"
proof -
  assume "backspace_char \<notin> set cs"
  then have "fold edit_char cs line = line @ cs" for line
    by (induction cs arbitrary: line) (auto simp: edit_char_def)
  then show ?thesis
    by (simp add: edited_def)
qed

lemma shell_readline_ok:
  assumes "kbd_ok s" "tty_lock s = 0" "tty_inv s" "kbd_contents s = cs @ newline_char # rest"
    and "newline_char \<notin> set cs" "nul \<notin> set cs" "length cs + 1 < unat max_len"
  shows "\<exists>t. shell_readline ret max_len rs s = Inr (edited cs, rs, t) \<and> line_read s (echoed [] cs @ [newline_char]) rest t"
proof -
  have m: "unat (max_len - 1) = unat max_len - 1"
    using assms(7) by (intro unat_pred) (auto simp: word_less_nat_alt)
  have "edit_line (unat (max_len - 1)) [] (kbd_contents s) = Some (edited cs, echoed [] cs @ [newline_char], rest)"
    unfolding assms(4) edited_def using assms(5,7) by (intro edit_line_short) (simp_all add: m)
  then obtain t where "readline_loop ret max_len [] rs s = Some (Inr (edited cs, rs, t))"
    "line_read s (echoed [] cs @ [newline_char]) rest t"
    using readline_loop_edits [of max_len "[]" s _ _ _ ret rs] assms(1-3) by auto
  moreover have "takeWhile (\<lambda>c. c \<noteq> nul) (edited cs) = edited cs"
    using edited_no_nul [OF assms(6), of "[]"] by (intro takeWhile_eq_all_conv [THEN iffD2]) (auto simp: edited_def)
  ultimately show ?thesis
    by (simp add: shell_readline_def finish_def)
qed

text \<open>A line without an end fills the buffer and leaves the rest in the ring.\<close>

lemma edit_line_full:
  assumes "length buf + length cs = n" "newline_char \<notin> set cs" "backspace_char \<notin> set cs"
  shows "edit_line n buf (cs @ rest) = Some (buf @ cs, cs, rest)"
  using assms
proof (induction cs arbitrary: buf)
  case Nil
  then show ?case
    by (cases rest) auto
qed auto

section \<open>Names and arguments\<close>

lemma split_space_args: "CHR '' '' \<notin> set name \<Longrightarrow> split_space (name @ CHR '' '' # args) = (name, Some args)"
  by (induction name) auto

lemma split_space_name: "CHR '' '' \<notin> set name \<Longrightarrow> split_space name = (name, None)"
  by (induction name) auto

primrec color_name :: "vga_color \<Rightarrow> string" where
  "color_name VGA_COLOR_BLACK = ''black''"
| "color_name VGA_COLOR_BLUE = ''blue''"
| "color_name VGA_COLOR_GREEN = ''green''"
| "color_name VGA_COLOR_CYAN = ''cyan''"
| "color_name VGA_COLOR_RED = ''red''"
| "color_name VGA_COLOR_MAGENTA = ''magenta''"
| "color_name VGA_COLOR_BROWN = ''brown''"
| "color_name VGA_COLOR_LIGHT_GREY = ''lightgrey''"
| "color_name VGA_COLOR_DARK_GREY = ''darkgrey''"
| "color_name VGA_COLOR_LIGHT_BLUE = ''lightblue''"
| "color_name VGA_COLOR_LIGHT_GREEN = ''lightgreen''"
| "color_name VGA_COLOR_LIGHT_CYAN = ''lightcyan''"
| "color_name VGA_COLOR_LIGHT_RED = ''lightred''"
| "color_name VGA_COLOR_LIGHT_MAGENTA = ''lightmagenta''"
| "color_name VGA_COLOR_LIGHT_BROWN = ''lightbrown''"
| "color_name VGA_COLOR_WHITE = ''white''"

lemma parse_color_name_inverse: "parse_color_name (color_name c) = c"
  by (cases c) (simp_all add: parse_color_name_def)

lemma color_name_no_space: "CHR '' '' \<notin> set (color_name c)"
  by (cases c) simp_all

definition command_names :: "string list" where
  "command_names = [''help'', ''exit'', ''quit'', ''clear'', ''echo'', ''version'', ''setcolor'', ''reboot'', ''testheap'',
     ''uptime'', ''gdtinfo'', ''meminfo'', ''ps'', ''whatisthis'', ''ls'', ''cat'']"

section \<open>What a command shows\<close>

text \<open>\<open>displays s text t\<close>: the screen of \<open>t\<close> is that of \<open>s\<close> after \<open>text\<close>.\<close>

definition displays :: "'a tty_scheme \<Rightarrow> string \<Rightarrow> 'a tty_scheme \<Rightarrow> bool" where
  "displays s text t \<longleftrightarrow> tty_inv t \<and> tty_lock t = tty_lock s \<and> terminal_color t = terminal_color s \<and>
     tty_screen t = fold (screen_put (terminal_color s)) text (tty_screen s)"

lemma displays_text: "tty_inv s \<Longrightarrow> displays s text (show_text text s)"
  by (simp add: displays_def show_text_screen)

lemma displays_trans: "displays s a t \<Longrightarrow> displays t b u \<Longrightarrow> displays s (a @ b) u"
  by (simp add: displays_def)

lemma displays_dirent: "displays (s\<lparr>the_dirent := d\<rparr>) text t = displays s text t"
  by (simp add: displays_def tty_screen_def)

lemma mounted_show_text [simp]: "mounted (show_text text s) files = mounted s files"
proof -
  have "vload8 v (show_text text s) = vload8 v s" for v
    by (rule show_text_keeps) (rule vload8_same, simp_all)
  then have "image_at (show_text text s) loc files = image_at s loc files" for loc
    by (rule image_frame)
  moreover have "initrd_header (show_text text s) = initrd_header s" "file_headers (show_text text s) = file_headers s"
    "nroot_nodes (show_text text s) = nroot_nodes s" "initrd_root (show_text text s) = initrd_root s"
    "root_nodes (show_text text s) = root_nodes s" "fs_nodes (show_text text s) = fs_nodes s"
    by (rule show_text_keeps, simp)+
  moreover have "bytes_mapped n (show_text text s) = bytes_mapped n s" for n
    by (rule show_text_keeps) (simp add: bytes_mapped_def fun_eq_iff)
  ultimately show ?thesis
    by (simp add: mounted_def root_node_def)
qed

lemma show_text_fs [simp]:
  "fs_root (show_text text s) = fs_root s" "initrd_root (show_text text s) = initrd_root s"
  "the_dirent (show_text text s) = the_dirent s"
  by (rule show_text_keeps, simp)+

text \<open>The line of an entry: what the name finds tells what it is.\<close>

definition ls_line :: "string \<Rightarrow> string" where
  "ls_line name = (if special_name name then ''(dir) '' else ''(file) '') @ name @ [newline_char]"

lemma file_node_kind: "fs_flags (node_of files i) AND 0x7 \<noteq> FS_DIRECTORY" "fs_flags dir_node AND 0x7 = FS_DIRECTORY"
  by (simp_all add: node_of_def file_node_def dir_node_def FS_FILE_def FS_DIRECTORY_def)

lemma print_name: "tty_lock s = 0 \<Longrightarrow> print (''%s'' @ [newline_char]) [PStr (Some text)] s = Inr (show_text (text @ [newline_char]) s)"
  by (rule print_shows) simp_all

lemma list_entry_ok:
  assumes m: "mounted s files" and root: "fs_root s = initrd_root s" and lock: "tty_lock s = 0" and inv: "tty_inv s"
    and name: "d_name (the_dirent s) = name" "special_name name \<or> (\<exists>i. find_file name files = Some i)"
  shows "list_entry s = Inr (show_text (ls_line name) s)"
proof -
  obtain p n where p: "vfs_finddir (fs_root s) name s = Inr p" "p \<noteq> 0" "get_fs p s = Inr n"
    "(fs_flags n AND 0x7 = FS_DIRECTORY) = special_name name"
  proof (cases "special_name name")
    case True
    then show thesis
      using that [of "initrd_root s" dir_node] vfs_finddir_ok [OF m, of name] mounted_root [OF m] root file_node_kind(2)
      by (simp add: special_name_def)
  next
    case False
    then obtain i where i: "find_file name files = Some i"
      using name(2) by blast
    then have l: "i < length files"
      by (rule find_file_map_of(2))
    show thesis
      using that [of "root_node (of_nat i) s" "node_of files i"] vfs_finddir_ok [OF m, of name] mounted_node(1,2) [OF m l]
        root i False file_node_kind(1) by (simp add: special_name_def)
  qed
  have pl: "print (if special_name name then ''(dir) '' else ''(file) '') [] s =
      Inr (show_text (if special_name name then ''(dir) '' else ''(file) '') s)"
    using lock by (intro print_shows render_plain) (simp_all add: plain_def)
  show ?thesis
    using p pl print_name [of "show_text (if special_name name then ''(dir) '' else ''(file) '') s" name] lock name(1)
    by (simp add: list_entry_def ls_line_def)
qed

definition ls_names :: "(string \<times> u8 list) list \<Rightarrow> string list" where
  "ls_names files = List.map d_name (dir_entries files)"

lemma ls_names_eq: "ls_names files = [''.'', ''..''] @ List.map fst files"
proof -
  have "List.map (\<lambda>i. fst (files ! i)) [0..<length files] = List.map fst files"
    by (rule nth_equalityI) simp_all
  then show ?thesis
    by (simp add: ls_names_def dir_entries_def comp_def)
qed

lemma ls_name_found:
  assumes "k < length files + 2"
  shows "special_name (d_name (dir_entries files ! k)) \<or> (\<exists>i. find_file (d_name (dir_entries files ! k)) files = Some i)"
proof -
  have "d_name (dir_entries files ! k) \<in> set (ls_names files)"
    using assms by (simp add: ls_names_def)
  then consider "special_name (d_name (dir_entries files ! k))" | "d_name (dir_entries files ! k) \<in> fst ` set files"
    by (auto simp: ls_names_eq special_name_def)
  then show ?thesis
  proof cases
    case 2
    then have "map_of files (d_name (dir_entries files ! k)) \<noteq> None"
      by (simp add: map_of_eq_None_iff)
    then show ?thesis
      by (simp add: find_file_map_of(1))
  qed simp
qed

text \<open>\<open>ui_change s t\<close>: only the terminal, the ports and the directory entry that was read last have changed.\<close>

definition ui_change :: "'a fs_scheme \<Rightarrow> 'a fs_scheme \<Rightarrow> bool" where
  "ui_change s t \<longleftrightarrow> (\<exists>l r c k b d. t = s\<lparr>io_log := l, terminal_row := r, terminal_column := c, terminal_color := k,
     terminal_buffer := b, the_dirent := d\<rparr>)"

lemma ui_change_refl: "ui_change s s"
  unfolding ui_change_def
  by (intro exI [of _ "io_log s"] exI [of _ "terminal_row s"] exI [of _ "terminal_column s"] exI [of _ "terminal_color s"]
      exI [of _ "terminal_buffer s"] exI [of _ "the_dirent s"]) simp

lemma ui_change_trans: "ui_change s t \<Longrightarrow> ui_change t u \<Longrightarrow> ui_change s u"
  unfolding ui_change_def by (cases s) auto

lemma ui_change_show: "ui_change s (show_text text s)"
proof -
  obtain l r c b where "show_text text s = s\<lparr>io_log := l, terminal_row := r, terminal_column := c, terminal_buffer := b\<rparr>"
    using show_text_changes by blast
  then show ?thesis
    unfolding ui_change_def
    by (intro exI [of _ l] exI [of _ r] exI [of _ c] exI [of _ "terminal_color s"] exI [of _ b] exI [of _ "the_dirent s"]) simp
qed

lemma ui_change_dirent: "ui_change s (s\<lparr>the_dirent := d\<rparr>)"
  unfolding ui_change_def
  by (intro exI [of _ "io_log s"] exI [of _ "terminal_row s"] exI [of _ "terminal_column s"] exI [of _ "terminal_color s"]
      exI [of _ "terminal_buffer s"] exI [of _ d]) simp

lemma list_entries_ok:
  assumes "mounted s files" "fs_root s = initrd_root s" "tty_lock s = 0" "tty_inv s" "k \<le> length files + 2"
  shows "\<exists>t. list_entries (of_nat k) s = Some (Inr t) \<and> mounted t files \<and> fs_root t = initrd_root t \<and>
    displays s (List.concat (List.map ls_line (drop k (ls_names files)))) t \<and> ui_change s t"
  using assms
proof (induction "length files + 2 - k" arbitrary: k s)
  case 0
  then have k: "k = length files + 2"
    by simp
  then have "unat (of_nat k :: u32) = k"
    using mounted_small(1) [OF 0(2)] by (intro unat_address) simp
  then have "list_entries (of_nat k) s = Some (Inr s)"
    using vfs_readdir_ok [OF 0(2), of "of_nat k"] 0(3) k by (subst list_entries.simps) simp
  then show ?case
    using 0(2-5) k by (intro exI [of _ s]) (simp add: displays_def ls_names_def ui_change_refl)
next
  case (Suc d)
  let ?e = "dir_entries files ! k" and ?u = "s\<lparr>the_dirent := dir_entries files ! k\<rparr>"
  let ?v = "show_text (ls_line (d_name ?e)) ?u"
  have k: "k < length files + 2"
    using Suc(2) by simp
  then have "unat (of_nat k :: u32) = k"
    using mounted_small(1) [OF Suc(3)] by (intro unat_address) simp
  then have "vfs_readdir (fs_root s) (of_nat k) s = Inr (True, ?u)"
    using vfs_readdir_ok [OF Suc(3), of "of_nat k"] Suc(4) k by simp
  moreover have inv: "tty_inv ?u"
    using Suc(6) by (simp add: tty_inv_def)
  then have "list_entry ?u = Inr ?v"
    using Suc(3-5) ls_name_found [OF k] by (intro list_entry_ok [of _ files]) (simp_all add: mounted_dirent)
  ultimately have step: "list_entries (of_nat k) s = list_entries (of_nat (Suc k)) ?v"
    by (subst list_entries.simps) (simp add: add.commute)
  have "\<exists>t. list_entries (of_nat (Suc k)) ?v = Some (Inr t) \<and> mounted t files \<and> fs_root t = initrd_root t \<and>
      displays ?v (List.concat (List.map ls_line (drop (Suc k) (ls_names files)))) t \<and> ui_change ?v t"
    using Suc(2-5) inv by (intro Suc(1)) (simp_all add: mounted_dirent)
  then obtain t where t: "list_entries (of_nat (Suc k)) ?v = Some (Inr t)" "mounted t files" "fs_root t = initrd_root t"
    "displays ?v (List.concat (List.map ls_line (drop (Suc k) (ls_names files)))) t" "ui_change ?v t"
    by blast
  have "ui_change s t"
    using ui_change_dirent ui_change_show t(5) ui_change_trans by blast
  have "drop k (ls_names files) = d_name ?e # drop (Suc k) (ls_names files)"
    using k by (simp add: ls_names_def Cons_nth_drop_Suc [symmetric])
  then have "displays s (List.concat (List.map ls_line (drop k (ls_names files)))) t"
    using displays_trans [OF displays_text [OF inv] t(4)] displays_dirent [where s = s] by simp
  with t(1-3) step \<open>ui_change s t\<close> show ?case
    by (intro exI [of _ t]) simp
qed

lemma shell_ls_ok:
  assumes "mounted s files" "fs_root s = initrd_root s" "tty_lock s = 0" "tty_inv s"
  shows "\<exists>t. shell_ls s = Inr t \<and> mounted t files \<and> ui_change s t \<and>
    displays s (List.concat (List.map ls_line (ls_names files))) t"
proof -
  have "fs_root s \<noteq> 0"
    using mounted_root(2) [OF assms(1)] assms(2) by simp
  then show ?thesis
    using list_entries_ok [OF assms, of 0] by (auto simp: shell_ls_def finish_def)
qed

lemma shell_command:
  assumes "CHR '' '' \<notin> set name" "name \<noteq> []"
  shows "split_space name = (name, None)" "split_space (name @ CHR '' '' # args) = (name, Some args)" "name @ CHR '' '' # args \<noteq> []"
  using assms by (simp_all add: split_space_name split_space_args)

lemma cat_text:
  assumes "tty_lock s = 0"
  shows "print (''%s'' @ [newline_char]) [PStr (Some text)] s = Inr (show_text (text @ [newline_char]) s)"
    "print (''File not found: %s'' @ [newline_char]) [PStr (Some text)] s =
      Inr (show_text (''File not found: '' @ text @ [newline_char]) s)"
    "print (''Unknown command: %s'' @ [newline_char]) [PStr (Some text)] s =
      Inr (show_text (''Unknown command: '' @ text @ [newline_char]) s)"
  by (intro print_shows assms, simp)+

text \<open>The part of a file that \<open>cat\<close> shows: at most 255 bytes, up to a zero byte.\<close>

definition file_text :: "u8 list \<Rightarrow> string" where
  "file_text data = takeWhile (\<lambda>c. c \<noteq> nul) (List.map (\<lambda>b. char_of (unat b)) (take 255 data))"

lemma shell_cat_ok:
  assumes m: "mounted s files" and root: "fs_root s = initrd_root s" and lock: "tty_lock s = 0" and name: "\<not> special_name name"
  shows "shell_execute (''cat '' @ name) s = Inr (show_text
    ((case map_of files name of None \<Rightarrow> ''File not found: '' @ name | Some data \<Rightarrow> file_text data) @ [newline_char]) s)"
proof -
  have "split_space (''cat'' @ CHR '' '' # name) = (''cat'', Some name)"
    by (rule split_space_args) simp
  then have cmd: "shell_execute (''cat '' @ name) s = shell_cat (Some name) s"
    by (simp add: shell_execute_def del: split_space.simps)
  show ?thesis
  proof (cases "find_file name files")
    case None
    then show ?thesis
      using cmd vfs_finddir_ok [OF m, of name] mounted_root(2) [OF m] root name cat_text(2) [OF lock, of name]
      by (simp add: shell_cat_def special_name_def find_file_map_of(1))
  next
    case (Some i)
    then have i: "i < length files"
      by (rule find_file_map_of(2))
    have "vfs_read (root_node (of_nat i) s) 0 255 s = Inr (take 255 (snd (files ! i)))"
      using vfs_read_ok [OF m i, of 0 255] by simp
    with Some show ?thesis
      using cmd vfs_finddir_ok [OF m, of name] mounted_root(2) [OF m] mounted_node(1,2) [OF m i] root name
        file_node_kind(1) [of files i] cat_text(1) [OF lock, of "file_text (snd (files ! i))"]
      by (simp add: shell_cat_def special_name_def find_file_map_of(1) file_text_def)
  qed
qed

section \<open>Properties\<close>


text \<open>
  Setcolor with the names of two colours sets the attribute that has these colours as its nibbles.
\<close>

theorem shell_setcolor_sets:
  "shell_execute (''setcolor '' @ color_name fg @ '' '' @ color_name bg) s =
     Inr (s\<lparr>terminal_color := vga_code fg OR push_bit 4 (vga_code bg)\<rparr>)"
proof -
  have "split_space (''setcolor'' @ CHR '' '' # color_name fg @ '' '' @ color_name bg) =
      (''setcolor'', Some (color_name fg @ '' '' @ color_name bg))"
    by (rule split_space_args) simp
  moreover have "split_space (color_name fg @ CHR '' '' # color_name bg) = (color_name fg, Some (color_name bg))"
    using color_name_no_space by (rule split_space_args)
  ultimately show ?thesis
    by (simp add: shell_execute_def shell_setcolor_def parse_color_name_inverse terminal_setcolor_colors_def
        vga_entry_color_def del: split_space.simps)
qed

text \<open>
  C29. cat shows the first 255 bytes of a file of the RAM disk, up to a zero byte, and reports a
  name that no file has
\<close>

theorem shell_cat_shows:
  assumes m: "mounted s files" and root: "fs_root s = initrd_root s" and lock: "tty_lock s = 0" and name: "\<not> special_name name"
  shows "shell_execute (''cat '' @ name) s = Inr (show_text
    ((case map_of files name of None \<Rightarrow> ''File not found: '' @ name | Some data \<Rightarrow> file_text data) @ [newline_char]) s)"
  using assms by (rule shell_cat_ok)

text \<open>
  C30. ls returns and shows one line for each entry of the root, the two dot entries and the files
  in order, and leaves the files mounted
\<close>

theorem shell_ls_lists:
  assumes "mounted s files" "fs_root s = initrd_root s" "tty_lock s = 0" "tty_inv s"
  shows "\<exists>t. shell_execute ''ls'' s = Inr t \<and> mounted t files \<and>
    tty_screen t = fold (screen_put (terminal_color s))
      (List.concat (List.map ls_line ([''.'', ''..''] @ List.map fst files))) (tty_screen s)"
  using shell_ls_ok [OF assms] by (auto simp: shell_execute_def displays_def ls_names_eq)

text \<open>
  Every command whose name is not one of the sixteen known ones is reported by its name and
  changes nothing but the screen.
\<close>

theorem shell_unknown_command:
  assumes "tty_lock s = 0" "name \<noteq> []" "CHR '' '' \<notin> set name" "name \<notin> set command_names"
    and "cmd = name \<or> (\<exists>args. cmd = name @ '' '' @ args)"
  shows "shell_execute cmd s = Inr (show_text (''Unknown command: '' @ name @ [newline_char]) s)"
proof -
  have "cmd \<noteq> []" and "fst (split_space cmd) = name"
    using assms(2,3,5) split_space_name split_space_args by auto
  moreover obtain args where "split_space cmd = (name, args)"
    using calculation(2) by (metis prod.collapse)
  ultimately show ?thesis
    using assms(4) cat_text(3) [OF assms(1), of name] by (simp add: shell_execute_def command_names_def)
qed

section \<open>Instances\<close>

definition typed_ls :: irq where
  "typed_ls = boot_irq\<lparr>kbd_buffer := (\<lambda>i. [CHR ''x'', backspace_char, CHR ''l'', CHR ''s'', newline_char] ! i), kbd_buffer_head := 5\<rparr>"

lemma typed_ls_contents: "kbd_contents typed_ls = [CHR ''x'', backspace_char, CHR ''l'', CHR ''s''] @ newline_char # []"
  by (simp add: typed_ls_def kbd_contents_def ring_count_def upt_rec)


text \<open>The machine with its RAM disk mounted as the root of the file system.\<close>

lemma disk_root:
  obtains t :: fs where "mounted t disk" "fs_root t = initrd_root t" "tty_lock t = 0" "tty_inv t"
proof -
  obtain t A where "initialise_initrd 0x6000 disk_machine = Inr (initrd_root t, t)" and t: "mounted t disk"
    and "heap_free t A 3664" and "mem t = mem disk_machine" "cr3 t = cr3 disk_machine" and lock: "tty_lock t = 0"
    and "initrd_header t = 0x6000" and inv: "tty_inv t"
    by (rule disk_mounted)
  let ?t = "t\<lparr>fs_root := initrd_root t\<rparr>"
  have "vload8 v ?t = vload8 v t" for v
    by (rule vload8_same) simp_all
  then have "image_at ?t loc disk = image_at t loc disk" for loc
    by (rule image_frame)
  then have "mounted ?t disk"
    using t by (simp add: mounted_def root_node_def)
  with lock inv show thesis
    by (intro that [of ?t]) (simp_all add: tty_inv_def)
qed

text \<open>
  An instance of C29.
\<close>

theorem shell_cat_shows_witness:
  "\<exists>t :: fs. mounted t disk \<and>
     shell_execute ''cat a'' t = Inr (show_text ([CHR ''K'', newline_char, CHR ''K'', newline_char]) t) \<and>
     shell_execute ''cat b'' t = Inr (show_text (''File not found: b'' @ [newline_char]) t)"
proof -
  obtain t :: fs where t: "mounted t disk" "fs_root t = initrd_root t" "tty_lock t = 0" "tty_inv t"
    by (rule disk_root)
  have "\<not> special_name ''a''" "\<not> special_name ''b''"
    by (simp_all add: special_name_def)
  note cat = this [THEN shell_cat_shows [OF t(1-3)]]
  have "(char_of (75 :: nat) :: char) = CHR ''K''" "(char_of (10 :: nat) :: char) = newline_char"
    by code_simp+
  with cat t(1) show ?thesis
    by (intro exI [of _ t]) (simp add: disk_def file_text_def nul_def)
qed

text \<open>
  An instance of C30.
\<close>

theorem shell_ls_lists_witness:
  "\<exists>s t :: fs. shell_execute ''ls'' s = Inr t \<and> tty_screen t = fold (screen_put (terminal_color s))
     (''(dir) .'' @ [newline_char] @ ''(dir) ..'' @ [newline_char] @ ''(file) a'' @ [newline_char]) (tty_screen s)"
proof -
  obtain s :: fs where s: "mounted s disk" "fs_root s = initrd_root s" "tty_lock s = 0" "tty_inv s"
    by (rule disk_root)
  from shell_ls_lists [OF s] obtain t where t: "shell_execute ''ls'' s = Inr t"
    "tty_screen t = fold (screen_put (terminal_color s))
      (List.concat (List.map ls_line ([''.'', ''..''] @ List.map fst disk))) (tty_screen s)"
    by blast
  then show ?thesis
    by (intro exI [of _ s] exI [of _ t]) (simp add: disk_def ls_line_def special_name_def)
qed

text \<open>
  An instance of the statement above.
\<close>

theorem shell_unknown_command_witness:
  "shell_execute ''panic now'' disk_machine = Inr (show_text (''Unknown command: panic'' @ [newline_char]) disk_machine)"
  using shell_unknown_command [of disk_machine "''panic''" "''panic now''"] disk_machine_ok(3)
  by (simp add: command_names_def)

end
