(* ===== verification/Pit.thy ===== *)
theory Pit
  imports Printf
begin

text \<open>
  The programmable interval timer (\<^verbatim>\<open>cpu/pit.cpp\<close>, \<^verbatim>\<open>cpu/include/pit.h\<close>). A frequency of zero
  divides by zero. The chip keeps sixteen bits of the divisor and reads zero as 65536.
\<close>

definition PIT_BASE_FREQUENCY :: u32 where "PIT_BASE_FREQUENCY = 1193180"
definition PIT_CHANNEL0_DATA :: u16 where "PIT_CHANNEL0_DATA = 0x40"
definition PIT_COMMAND_PORT :: u16 where "PIT_COMMAND_PORT = 0x43"

definition pit_init :: "u32 \<Rightarrow> 'a tty_scheme \<Rightarrow> 'a tty_scheme outcome" where
  "pit_init frequency s =
     (if frequency = 0 then Inl Wild
      else let divisor = PIT_BASE_FREQUENCY div frequency;
               s = outb PIT_COMMAND_PORT 0x36 s;
               s = outb PIT_CHANNEL0_DATA (ucast (divisor AND 0xFF)) s;
               s = outb PIT_CHANNEL0_DATA (ucast (drop_bit 8 divisor AND 0xFF)) s
           in print (''PIT initialized to %d Hz.'' @ [newline_char]) [PInt frequency] s)"

section \<open>What the chip is told\<close>

text \<open>
  The chip: mode byte \<open>0x36\<close> on the command port selects channel 0, low byte then high byte, and
  the two bytes that follow on the data port are the reload value of the counter, with zero
  standing for 65536.
\<close>

definition pit_reload :: "u8 list \<Rightarrow> u8 list \<Rightarrow> nat option" where
  "pit_reload command data0 =
     (if command = [0x36] \<and> length data0 = 2
      then (let n = unat (data0 ! 0) + 256 * unat (data0 ! 1)
            in Some (if n = 0 then 65536 else n))
      else None)"

lemma divisor_bytes:
  "unat (ucast (d AND 0xFF) :: u8) + 256 * unat (ucast (drop_bit 8 d AND 0xFF) :: u8) =
     unat (d :: u32) mod 65536"
proof -
  have lo: "unat (ucast (e AND 0xFF) :: u8) = unat e mod 256" for e :: u32
  proof -
    have "e AND 0xFF = take_bit 8 e"
      by (simp add: take_bit_eq_mask mask_eq_exp_minus_1)
    then show ?thesis
      by (simp add: unsigned_ucast_eq unsigned_take_bit_eq unat_mod take_bit_eq_mod)
  qed
  have "unat (drop_bit 8 d) = unat d div 256"
    by (simp add: drop_bit_eq_div unat_div)
  then show ?thesis
    using mod_mult2_eq [of "unat d" 256 256] by (simp only: lo) simp
qed

text \<open>
  For a nonzero frequency pit_init loads channel 0 with the quotient of the base frequency reduced
  to sixteen bits, zero standing for 65536.
\<close>

theorem pit_init_reload:
  assumes "frequency \<noteq> 0" "tty_lock s = 0"
  shows "\<exists>s' new. pit_init frequency s = Inr s' \<and> io_log s' = io_log s @ new \<and>
    pit_reload (port_writes PIT_COMMAND_PORT new) (port_writes PIT_CHANNEL0_DATA new) =
      Some (let d = 1193180 div unat frequency mod 65536 in if d = 0 then 65536 else d)"
proof -
  let ?d = "PIT_BASE_FREQUENCY div frequency"
  let ?c = "[Out PIT_COMMAND_PORT 0x36, Out PIT_CHANNEL0_DATA (ucast (?d AND 0xFF)),
    Out PIT_CHANNEL0_DATA (ucast (drop_bit 8 ?d AND 0xFF))]"
  define t where "t = outb PIT_CHANNEL0_DATA (ucast (drop_bit 8 ?d AND 0xFF))
    (outb PIT_CHANNEL0_DATA (ucast (?d AND 0xFF)) (outb PIT_COMMAND_PORT 0x36 s))"
  have lock: "tty_lock t = 0" and log: "io_log t = io_log s @ ?c"
    using assms by (simp_all add: t_def outb_def)
  have "render (''PIT initialized to %d Hz.'' @ [newline_char]) [PInt frequency] \<noteq> None"
    by simp
  then obtain u l where u: "print (''PIT initialized to %d Hz.'' @ [newline_char]) [PInt frequency] t = Inr u"
    "io_log u = io_log t @ l" "cursor_log l"
    using print_log [OF lock] by blast
  have "port_writes PIT_COMMAND_PORT l = []" "port_writes PIT_CHANNEL0_DATA l = []"
    using u(3) by (simp_all add: cursor_log_def PIT_COMMAND_PORT_def PIT_CHANNEL0_DATA_def)
  moreover have "pit_init frequency s = Inr u"
    using assms u(1) by (simp add: pit_init_def Let_def t_def)
  moreover have "unat ?d = 1193180 div unat frequency"
    by (simp add: unat_div PIT_BASE_FREQUENCY_def)
  ultimately show ?thesis
    using u(2) log divisor_bytes [of ?d]
    by (intro exI [of _ u] exI [of _ "?c @ l"])
      (simp add: pit_reload_def Let_def PIT_COMMAND_PORT_def PIT_CHANNEL0_DATA_def)
qed

text \<open>
  An instance of the statement above.
\<close>

theorem pit_init_reload_witness:
  "\<exists>s new. pit_init 100 boot_tty = Inr s \<and> io_log s = new \<and>
     pit_reload (port_writes PIT_COMMAND_PORT new) (port_writes PIT_CHANNEL0_DATA new) = Some 11931"
  using pit_init_reload [of 100 boot_tty] by simp

end
