(* ===== verification/Stdlib.thy ===== *)
theory Stdlib
  imports Console
begin

text \<open>
  Abnormal termination (\<^verbatim>\<open>libc/stdlib/abort.cpp\<close>, \<^verbatim>\<open>libc/stdlib/raise.cpp\<close>) in the two builds
  of the library: for the kernel (\<^verbatim>\<open>__is_libk\<close>) and for user programs, where the two functions
  call each other for ever. \<open>None\<close> is a call that never comes to an end.
\<close>

definition SIGABRT :: u32 where "SIGABRT = 6"

text \<open>The build for the kernel: \<open>abort\<close> prints, masks the interrupts and halts.\<close>

definition kernel_abort :: "'a tty_scheme \<Rightarrow> 'a tty_scheme outcome" where
  "kernel_abort s = bind_outcome (print (''Kernel: panic: abort()'' @ [newline_char]) [] s) (\<lambda>_. Inl Hang)"

definition kernel_raise :: "u32 \<Rightarrow> 'a tty_scheme \<Rightarrow> (u32 \<times> 'a tty_scheme) outcome" where
  "kernel_raise sig s =
     (if sig = SIGABRT then bind_outcome (kernel_abort s) (\<lambda>s. Inr (0, s))
      else bind_outcome (print (''Kernel: Unhandled signal %d'' @ [newline_char]) [PInt sig] s) (\<lambda>s. Inr (1, s)))"

text \<open>The build for user programs: \<open>abort\<close> prints and raises, and \<open>raise\<close> prints and aborts.\<close>

definition raise_line :: "u32 \<Rightarrow> 'a tty_scheme \<Rightarrow> 'a tty_scheme outcome" where
  "raise_line sig s = print (''raise(%d)'' @ [newline_char]) [PInt sig] s"

partial_function (option) user_abort :: "'a tty_scheme \<Rightarrow> 'a tty_scheme outcome option" where
  "user_abort s =
     (case bind_outcome (print (''abort()'' @ [newline_char]) [] s) (raise_line SIGABRT) of
        Inl e \<Rightarrow> Some (Inl e)
      | Inr s \<Rightarrow> user_abort s)"

definition user_raise :: "u32 \<Rightarrow> 'a tty_scheme \<Rightarrow> 'a tty_scheme outcome option" where
  "user_raise sig s = (case raise_line sig s of Inl e \<Rightarrow> Some (Inl e) | Inr s \<Rightarrow> user_abort s)"

section \<open>The kernel's build\<close>

lemma kernel_raise_other:
  assumes "tty_lock s = 0" "sig \<noteq> SIGABRT"
  shows "kernel_raise sig s =
    Inr (1, show_text (''Kernel: Unhandled signal '' @ decimal (sint sig) @ [newline_char]) s)"
proof -
  have "print (''Kernel: Unhandled signal %d'' @ [newline_char]) [PInt sig] s =
      Inr (show_text (''Kernel: Unhandled signal '' @ decimal (sint sig) @ [newline_char]) s)"
    using assms(1) by (rule print_shows) simp
  then show ?thesis
    using assms(2) by (simp add: kernel_raise_def)
qed

lemma kernel_abort_halts: "kernel_abort s = Inl Hang \<or> kernel_abort s = Inl Wild"
proof (cases "print (''Kernel: panic: abort()'' @ [newline_char]) [] s")
  case (Inl e)
  then show ?thesis
    by (cases e) (simp_all add: kernel_abort_def)
qed (simp add: kernel_abort_def)

section \<open>The user's build never ends\<close>

lemma abort_round: "tty_lock s = 0 \<Longrightarrow> \<exists>t. bind_outcome (print (''abort()'' @ [newline_char]) [] s) (raise_line SIGABRT) = Inr t \<and> tty_lock t = 0"
proof -
  assume lock: "tty_lock s = 0"
  let ?u = "show_text (''abort()'' @ [newline_char]) s"
  have "print (''abort()'' @ [newline_char]) [] s = Inr ?u"
    using lock by (rule print_shows) simp
  moreover have "raise_line SIGABRT ?u = Inr (show_text (''raise(6)'' @ [newline_char]) ?u)"
    unfolding raise_line_def
    by (rule print_shows) (simp_all add: lock SIGABRT_def decimal_def base_numeral.simps digit_chars_def)
  ultimately show ?thesis
    using lock by simp
qed

lemma user_abort_locked:
  assumes "user_abort s = Some r"
  shows "tty_lock s \<noteq> 0"
proof (rule user_abort.raw_induct [OF _ assms])
  fix f :: "'a tty_scheme \<Rightarrow> 'a tty_scheme outcome option" and s :: "'a tty_scheme" and r
  assume ih: "\<And>s r. f s = Some r \<Longrightarrow> tty_lock s \<noteq> 0"
    and step: "(case bind_outcome (print (''abort()'' @ [newline_char]) [] s) (raise_line SIGABRT) of
      Inl e \<Rightarrow> Some (Inl e) | Inr s \<Rightarrow> f s) = Some r"
  show "tty_lock s \<noteq> 0"
  proof
    assume "tty_lock s = 0"
    then obtain t where "bind_outcome (print (''abort()'' @ [newline_char]) [] s) (raise_line SIGABRT) = Inr t" "tty_lock t = 0"
      using abort_round by blast
    then show False
      using ih step by simp
  qed
qed

text \<open>
  In the build for user programs abort and raise call each other and never return.
\<close>

theorem user_abort_never_ends:
  assumes "tty_lock s = 0"
  shows "user_abort s = None \<and> user_raise sig s = None"
proof -
  have "render (''raise(%d)'' @ [newline_char]) [PInt sig] = Some (''raise('' @ decimal (sint sig) @ '')'' @ [newline_char])"
    by simp
  with assms obtain t where "raise_line sig s = Inr t" "tty_lock t = 0"
    unfolding raise_line_def using print_shows [of s] by fastforce
  then show ?thesis
    using user_abort_locked [of s] user_abort_locked [of t] assms by (auto simp: user_raise_def) (metis not_Some_eq)+
qed

text \<open>
  An instance of the statement above.
\<close>

theorem user_abort_never_ends_witness: "user_abort boot_tty = None"
  using user_abort_never_ends [of boot_tty 6] by simp

end
