(* ===== verification/Kernel.thy ===== *)
theory Kernel
  imports Shell Pit Stdlib
begin

text \<open>
  The entry of the kernel (\<^verbatim>\<open>kernel/kernel.cpp\<close>). \<open>kernel_boot\<close> is \<^verbatim>\<open>kernel_main\<close> up to the call
  of the shell, in the order of the code: the devices, the memory, the RAM disk, the tasks. The
  addresses that the linker and the assembler give to symbols of the kernel are the fields of
  \<open>symbols\<close>. The information that the boot loader passes is read from memory: at its physical
  address until \<open>vmm_init\<close> has run, and through the page tables afterwards.
\<close>

record symbols =
  sym_gdt :: u32
  sym_tss :: u32
  sym_isr :: "nat \<Rightarrow> u32"
  sym_irq :: "nat \<Rightarrow> u32"
  sym_isr128 :: u32
  sym_idt :: u32
  sym_stack_top :: u32
  sym_kernel_start :: u32
  sym_kernel_end :: u32
  sym_user_mode_proxy :: u32

definition MULTIBOOT_MAGIC :: u32 where "MULTIBOOT_MAGIC = 0x2BADB002"

text \<open>A word of the boot information, and the offsets of the words that the kernel reads.\<close>

definition boot_word :: "bool \<Rightarrow> u32 \<Rightarrow> 'a vmm_scheme \<Rightarrow> u32 outcome" where
  "boot_word paging p s = (if paging then vload32 p s else Inr (load32 (mem s) p))"

definition mbi_flags :: u32 where "mbi_flags = 0"
definition mbi_mods_addr :: u32 where "mbi_mods_addr = 24"
definition mbi_mmap_length :: u32 where "mbi_mmap_length = 44"
definition mbi_mmap_addr :: u32 where "mbi_mmap_addr = 48"

definition boot_devices :: "symbols \<Rightarrow> u32 \<Rightarrow> 'a irq_scheme \<Rightarrow> 'a irq_scheme outcome" where
  "boot_devices ks magic s =
     bind_outcome (gdt_install (sym_gdt ks) (sym_tss ks) (terminal_initialize s)) (\<lambda>s.
     bind_outcome (tss_install (sym_stack_top ks) s) (\<lambda>s.
     bind_outcome (keyboard_install
         (idt_install (sym_isr ks) (sym_irq ks) (sym_isr128 ks) (sym_idt ks) (pic_remap 0x20 0x28 s))) (\<lambda>s.
     bind_outcome (print [newline_char] [] (s\<lparr>interrupt_flag := True\<rparr>)) (\<lambda>s.
       if magic \<noteq> MULTIBOOT_MAGIC
       then print (''Warning: Invalid Multiboot magic number: 0x%x'' @ [newline_char]) [PInt magic] s
       else Inr s))))"

definition boot_memory :: "symbols \<Rightarrow> u32 \<Rightarrow> u32 \<Rightarrow> 'a heap_scheme \<Rightarrow> 'a heap_scheme outcome" where
  "boot_memory ks mmap_addr mmap_length s =
     bind_outcome (pmm_init (sym_kernel_start ks) (sym_kernel_end ks) mmap_addr mmap_length s) (\<lambda>s.
     bind_outcome (vmm_init s) (\<lambda>s.
     bind_outcome (kheap_init s) (\<lambda>s.
     bind_outcome (pit_init 100 s) syscall_init)))"

definition boot_files :: "bool \<Rightarrow> u32 \<Rightarrow> 'a fs_scheme \<Rightarrow> 'a fs_scheme outcome" where
  "boot_files paging mods_addr s =
     bind_outcome (boot_word paging mods_addr s) (\<lambda>mod_start.
     bind_outcome (initialise_initrd mod_start s) (\<lambda>(root, s).
     bind_outcome (boot_word paging mods_addr s) (\<lambda>mod_start.
       print (''Initrd loaded at 0x%x'' @ [newline_char]) [PInt mod_start] (s\<lparr>fs_root := root\<rparr>))))"

definition kernel_boot :: "symbols \<Rightarrow> u32 \<Rightarrow> u32 \<Rightarrow> 'a fs_scheme \<Rightarrow> 'a fs_scheme outcome" where
  "kernel_boot ks magic mbi s =
     bind_outcome (boot_devices ks magic s) (\<lambda>s.
     let flags = load32 (mem s) (mbi + mbi_flags);
         paging = bit flags 6
     in bind_outcome
          (if paging then boot_memory ks (load32 (mem s) (mbi + mbi_mmap_addr)) (load32 (mem s) (mbi + mbi_mmap_length)) s
           else Inr s) (\<lambda>s.
        bind_outcome (boot_word paging (mbi + mbi_flags) s) (\<lambda>flags.
        bind_outcome
          (if bit flags 3
           then bind_outcome (boot_word paging (mbi + mbi_mods_addr) s) (\<lambda>mods_addr. boot_files paging mods_addr s)
           else Inr s) (\<lambda>s.
        bind_outcome (tasking_init s) (\<lambda>s.
        bind_outcome (task_create (sym_user_mode_proxy ks) s)
          (print_lines [[newline_char], ''Hello, welcome to KevOS!'' @ [newline_char]]))))))"

definition kernel_main ::
    "nat \<Rightarrow> u32 \<Rightarrow> symbols \<Rightarrow> u32 \<Rightarrow> u32 \<Rightarrow> regs list \<times> 'a fs_scheme \<Rightarrow> (regs list \<times> 'a fs_scheme) outcome" where
  "kernel_main n ret ks magic mbi = (\<lambda>(rs, s).
     bind_outcome (kernel_boot ks magic mbi s) (\<lambda>s. shell_main n ret (rs, s)))"

end
