(* ===== verification/Kept.thy ===== *)
theory Kept
  imports Vfs
begin

text \<open>
  What the growth of the heap leaves alone: \<open>kept_low\<close> is a byte below 4 MB, mapped at its own
  address in a page that belongs to no table and to no part of the bitmap; \<open>image_kept\<close> says it of
  the whole image of the RAM disk, so that \<open>mounted\<close> survives every \<open>maps_kept\<close>. Nothing in this
  theory models further code.
\<close>

section \<open>Bytes that stay\<close>

definition kept_low :: "'a heap_scheme \<Rightarrow> u32 \<Rightarrow> bool" where
  "kept_low s a \<longleftrightarrow> unat a < 4194304 \<and> translate (mem s) (cr3 s) a = Some a \<and> foreign_page s (page_no a)"

lemma kept_low_trans:
  assumes low: "kept_low s a" and kept: "maps_kept s t" and end_: "heap_start \<le> unat (heap_current_end s)"
  shows "kept_low t a" "mem t a = mem s a"
proof -
  have "dir_index a \<noteq> 1023"
    using low by (simp add: kept_low_def dir_index_div)
  then have "translate (mem t) (cr3 t) a = Some a"
    using low kept end_ by (auto simp: kept_low_def maps_kept_def heap_bounds)
  then show "kept_low t a" "mem t a = mem s a"
    using low kept by (auto simp: kept_low_def maps_kept_def keeps_def)
qed

lemma kept_low_same:
  assumes "mem t = mem s" "cr3 t = cr3 s" "pmm_bitmap t = pmm_bitmap s" "pmm_max_blocks t = pmm_max_blocks s"
  shows "kept_low t a = kept_low s a"
proof -
  have "used_pages t = used_pages s" "in_bitmap t = in_bitmap s"
    using assms by (simp_all add: used_pages_def mmap_test_def in_bitmap_def fun_eq_iff)
  then show ?thesis
    using assms by (simp add: kept_low_def foreign_page_def)
qed

lemma kept_low_load:
  assumes "kept_low s a"
  shows "vload8 a s = Inr (mem s a)" "vload32 a s = Inr (load32 (mem s) a)"
  using assms by (simp_all add: kept_low_def vload8_def vload32_def)

lemma bytes_at_low:
  "list_all (\<lambda>k. kept_low s (p + of_nat k) \<and> mem s (p + of_nat k) = bs ! k) [0..<length bs] \<Longrightarrow> bytes_at s p bs"
proof (induction bs arbitrary: p)
  case (Cons b bs)
  have k: "kept_low s (p + of_nat k) \<and> mem s (p + of_nat k) = (b # bs) ! k" if "k < Suc (length bs)" for k
    using Cons.prems that by (simp add: list_all_iff del: upt_Suc)
  have "kept_low s (p + 1 + of_nat k) \<and> mem s (p + 1 + of_nat k) = bs ! k" if "k < length bs" for k
    using k [of "Suc k"] that by (simp add: add.assoc)
  then have "bytes_at s (p + 1) bs"
    by (intro Cons.IH) (simp add: list_all_iff)
  with k [of 0] show ?case
    by (simp add: kept_low_load)
qed simp

lemma load32_same:
  assumes "list_all (\<lambda>k. m' (p + of_nat k) = m (p + of_nat k)) [0..<4]"
  shows "load32 m' p = load32 m p"
  using assms by (simp add: load32_def list_all_iff numeral_eq_Suc)

text \<open>A mounted RAM disk stays mounted.\<close>

definition image_kept :: "'a fs_scheme \<Rightarrow> u32 \<Rightarrow> (string \<times> u8 list) list \<Rightarrow> bool" where
  "image_kept s loc files \<longleftrightarrow> good_files files \<and> (\<exists>img. make_initrd files = Inr (Some img) \<and>
     list_all (\<lambda>k. kept_low s (loc + of_nat k) \<and> mem s (loc + of_nat k) = img ! k) [0..<length img])"

lemma image_kept_at: "image_kept s loc files \<Longrightarrow> image_at s loc files"
  using bytes_at_low by (auto simp: image_kept_def image_at_def)

lemma image_kept_trans:
  assumes "image_kept s loc files" "maps_kept s t" "heap_start \<le> unat (heap_current_end s)"
  shows "image_kept t loc files"
  using assms(1) kept_low_trans [OF _ assms(2,3)] by (fastforce simp: image_kept_def list_all_iff)

lemma node_kept:
  assumes "maps_kept s t" "heap_start \<le> unat p" "unat p + 184 \<le> unat (heap_current_end s)" "unat (heap_current_end s) \<le> heap_limit"
  shows "bytes_mapped 184 t p = bytes_mapped 184 s p"
proof (rule maps_kept_bytes [OF assms(1)])
  have "unat (p + of_nat k) = unat p + k" if "k < 184" for k
    using that assms(3,4) by (simp add: unat_add_small unat_of_nat_small heap_bounds)
  moreover have "(unat p + k) div 4194304 \<noteq> 1023" if "k < 184" for k
  proof -
    have "unat p + k < heap_limit"
      using that assms(3,4) by simp
    then have "(unat p + k) div 4194304 < 1023"
      by (simp add: heap_bounds div_less_iff_less_mult)
    then show ?thesis
      by simp
  qed
  ultimately show "list_all (\<lambda>k. dir_index (p + of_nat k) \<noteq> 1023 \<and> unat (p + of_nat k) < unat (heap_current_end s)) [0..<184]"
    using assms(3) by (simp add: list_all_iff dir_index_div)
qed

definition same_disk :: "'a fs_scheme \<Rightarrow> 'a fs_scheme \<Rightarrow> bool" where
  "same_disk s t \<longleftrightarrow> fs_nodes t = fs_nodes s \<and> initrd_header t = initrd_header s \<and> file_headers t = file_headers s \<and>
     initrd_root t = initrd_root s \<and> root_nodes t = root_nodes s \<and> nroot_nodes t = nroot_nodes s"

lemma same_disk_more:
  fixes s t :: "'a fs_scheme"
  assumes "task.more t = task.more s"
  shows "same_disk s t" "fs_root t = fs_root s"
  using assms by (cases s; cases t; simp add: same_disk_def)+

lemma mounted_kept:
  fixes s t :: "'a fs_scheme"
  assumes m: "mounted s files" and below: "nodes_below s (length files)" and img: "image_kept s (initrd_header s) files"
    and kept: "maps_kept s t" and disk: "same_disk s t"
    and end_: "heap_start \<le> unat (heap_current_end s)" "unat (heap_current_end s) \<le> heap_limit"
  shows "mounted t files"
proof -
  note f = disk [unfolded same_disk_def]
  then have r: "root_node i t = root_node i s" for i
    by (simp add: root_node_def)
  note node = node_kept [OF kept _ _ end_(2)]
  have "image_at t (initrd_header s) files"
    using image_kept_trans [OF img kept end_(1)] by (rule image_kept_at)
  with m below show ?thesis
    by (auto simp: mounted_def nodes_below_def f r node)
qed

lemma owns_frames_less: "owns_frames s U n \<Longrightarrow> V \<subseteq> U \<Longrightarrow> owns_frames s V n"
  unfolding owns_frames_def by blast

lemma heap_ok_bounds: "heap_ok s A \<Longrightarrow> heap_start \<le> unat (heap_current_end s) \<and> unat (heap_current_end s) \<le> heap_limit"
  by (auto simp: heap_ok_def heap_wf_def heap_space_def)

end
