(* ===== verification/Gap.thy ===== *)
theory Gap
  imports Task
begin

text \<open>
  The free places of the heap in terms of the blocks that are handed out: in a heap without
  adjacent free blocks, a free block of \<open>r\<close> bytes is a gap between the allocated ones. So a request
  that was served from such a gap can be served again once its block is given back, however often,
  and the heap does not grow. Nothing in this theory models further code.
\<close>

definition gap :: "nat \<Rightarrow> (nat \<times> nat) set \<Rightarrow> nat \<Rightarrow> bool" where
  "gap e A r \<longleftrightarrow>
     (\<exists>x. heap_start \<le> x \<and> x + 16 + r \<le> e \<and> (\<forall>(y, m)\<in>A. y + m \<le> x \<or> x + 32 + r \<le> y))"

lemma gap_mono:
  assumes gap: "gap e A r" and le: "e \<le> f" "B \<subseteq> A" "k \<le> r"
  shows "gap f B k"
proof -
  obtain x where "heap_start \<le> x" "x + 16 + r \<le> e" and out: "\<And>y m. (y, m) \<in> A \<Longrightarrow> y + m \<le> x \<or> x + 32 + r \<le> y"
    using gap by (auto simp: gap_def)
  moreover have "y + m \<le> x \<or> x + 32 + k \<le> y" if "(y, m) \<in> B" for y m
    using out [of y m] that le by auto
  ultimately show ?thesis
    using le unfolding gap_def by (intro exI [of _ x]) auto
qed

lemma fits_gap:
  assumes "b \<in> set bs" "fits r b"
  shows "\<exists>x. a \<le> x \<and> x + 16 + r \<le> a + extent bs \<and> (\<forall>(y, m)\<in>allocated a bs. y + m \<le> x \<or> x + 32 + r \<le> y)"
  using assms
proof (induction a bs rule: allocated.induct)
  case (2 a n f bs)
  show ?case
  proof (cases "b = (n, f)")
    case True
    then have "f" "r \<le> n"
      using 2(3) by (simp_all add: fits_def)
    then show ?thesis
      using allocated_range [of _ _ "a + 16 + n" bs] by (intro exI [of _ a]) fastforce
  next
    case False
    then obtain x where "a + 16 + n \<le> x" "x + 16 + r \<le> a + 16 + n + extent bs"
      "\<forall>(y, m)\<in>allocated (a + 16 + n) bs. y + m \<le> x \<or> x + 32 + r \<le> y"
      using 2 by auto
    then show ?thesis
      by (intro exI [of _ x]) auto
  qed
qed simp

lemma gap_fits:
  assumes "separated bs" "a \<le> x" "x + 16 + r \<le> a + extent bs"
    and "\<forall>(y, m)\<in>allocated a bs. y + m \<le> x \<or> x + 32 + r \<le> y"
  shows "\<exists>b\<in>set bs. fits r b"
  using assms
proof (induction a bs rule: allocated.induct)
  case (2 a n f bs)
  have sep: "separated bs"
    using 2(2) by (cases bs) auto
  show ?case
  proof (cases "a + 16 + n \<le> x")
    case True
    then show ?thesis
      using 2(1) [OF sep True] 2(4,5) by auto
  next
    case False
    then have f: f
      using 2(3,5) by (cases f) auto
    have "x + 16 + r \<le> a + 16 + n"
    proof (cases bs)
      case Nil
      then show ?thesis
        using 2(4) by simp
    next
      case (Cons c cs)
      obtain m g where "c = (m, g)"
        by (cases c)
      then show ?thesis
        using 2(2,5) f False Cons by auto
    qed
    then show ?thesis
      using f 2(3) by (simp add: fits_def)
  qed
qed simp

lemma heap_free_gap: "heap_free s A r \<longleftrightarrow> heap_ok s A \<and> gap (unat (heap_current_end s)) A r"
proof
  assume "heap_free s A r"
  then show "heap_ok s A \<and> gap (unat (heap_current_end s)) A r"
    using fits_gap [where a = heap_start] heap_free_ok [of s A r] by (fastforce simp: heap_free_def gap_def heap_wf_def)
next
  assume "heap_ok s A \<and> gap (unat (heap_current_end s)) A r"
  then obtain bs x where bs: "heap_wf s bs" "separated bs" "A = allocated heap_start bs" "heap_start \<le> x"
    "x + 16 + r \<le> heap_start + extent bs" "\<forall>(y, m)\<in>A. y + m \<le> x \<or> x + 32 + r \<le> y"
    by (auto simp: heap_ok_def gap_def heap_wf_def)
  then have "\<exists>b\<in>set bs. fits r b"
    using gap_fits [OF bs(2,4,5)] by simp
  then show "heap_free s A r"
    using bs(1-3) unfolding heap_free_def by blast
qed

text \<open>The place of a block that is given back.\<close>

lemma gap_freed:
  assumes "heap_ok s A" "(x, n) \<in> A"
  shows "gap (unat (heap_current_end s)) (A - {(x, n)}) n"
proof -
  obtain bs where bs: "heap_wf s bs" "A = allocated heap_start bs"
    using assms(1) by (auto simp: heap_ok_def)
  obtain pre post where p: "bs = pre @ (n, False) # post" "x = heap_start + extent pre + 16"
    using assms(2) unfolding bs(2) by (rule allocated_split)
  have wf: "heap_wf s (pre @ (n, False) # post)"
    using bs(1) p(1) by simp
  have "allocated heap_start (pre @ (n, True) # post) = A - {(x, n)}"
    unfolding bs(2) p(1) using heap_node(3) [OF wf] by (intro allocated_release) (simp_all add: p(2))
  moreover have "heap_start + extent (pre @ (n, True) # post) = unat (heap_current_end s)"
    using wf by (simp add: heap_wf_def)
  ultimately show ?thesis
    using fits_gap [of "(n, True)" "pre @ (n, True) # post" n heap_start] by (simp add: fits_def gap_def)
qed

text \<open>A request for which there is a gap does not grow the heap.\<close>

lemma heap_ok_address:
  assumes "heap_ok s (insert (x, m) A)"
  shows "unat (of_nat x :: u32) = x"
  using heap_ok_range [OF assms, of x m] by (intro unat_address) (simp add: heap_bounds)

lemma kmalloc_call_gap:
  fixes s :: "'a heap_scheme"
  assumes ok: "heap_ok s A" and gap: "gap (unat (heap_current_end s)) A (rounded (unat n))" and n: "0 < unat n"
  obtains p m N where "kmalloc_call n s = Inr (p, s\<lparr>nodes := N\<rparr>)" "unat n \<le> m" "(unat p, m) \<notin> A"
    "heap_ok (s\<lparr>nodes := N\<rparr>) (insert (unat p, m) A)"
proof -
  have "heap_free s A (rounded (unat n))"
    using ok gap heap_free_gap by blast
  then obtain bs where bs: "heap_wf s bs" "separated bs" "\<exists>b\<in>set bs. fits (rounded (unat n)) b" "A = allocated heap_start bs"
    by (auto simp: heap_free_def)
  from kmalloc_taken [OF bs(1-3) n] obtain x m N cs where t: "kmalloc n s = Some (Inr (of_nat x, s\<lparr>nodes := N\<rparr>))"
    "heap_wf (s\<lparr>nodes := N\<rparr>) cs" "separated cs" "unat n \<le> m" "allocated heap_start cs = insert (x, m) A" "(x, m) \<notin> A"
    unfolding bs(4) by metis
  then have "heap_ok (s\<lparr>nodes := N\<rparr>) (insert (x, m) A)"
    unfolding heap_ok_def by metis
  with t heap_ok_address [OF this] show thesis
    by (intro that [of "of_nat x" N m]) (simp_all add: kmalloc_call_def)
qed

text \<open>If the gap is large enough, a part of it is left.\<close>

lemma kmalloc_call_part:
  fixes s :: "'a heap_scheme"
  assumes ok: "heap_ok s A" and gap: "gap (unat (heap_current_end s)) A (rounded (unat n) + 24 + r)" and n: "0 < unat n"
  obtains p m N where "kmalloc_call n s = Inr (p, s\<lparr>nodes := N\<rparr>)" "unat n \<le> m" "(unat p, m) \<notin> A"
    "heap_ok (s\<lparr>nodes := N\<rparr>) (insert (unat p, m) A)" "gap (unat (heap_current_end s)) (insert (unat p, m) A) r"
proof -
  have "heap_free s A (rounded (unat n) + 24 + r)"
    using ok gap heap_free_gap by blast
  from kmalloc_within [OF this n] obtain x m N where t: "kmalloc n s = Some (Inr (of_nat x, s\<lparr>nodes := N\<rparr>))" "unat n \<le> m"
    "(x, m) \<notin> A" "heap_free (s\<lparr>nodes := N\<rparr>) (insert (x, m) A) r"
    by blast
  have ok: "heap_ok (s\<lparr>nodes := N\<rparr>) (insert (x, m) A)" and "gap (unat (heap_current_end s)) (insert (x, m) A) r"
    using t(4) by (simp_all add: heap_free_gap)
  with t(1-3) heap_ok_address [OF ok] show thesis
    by (intro that [of "of_nat x" N m]) (simp_all add: kmalloc_call_def)
qed

end
