(* ===== verification/Session.thy ===== *)
theory Session
  imports Shell Kept Gap
begin

text \<open>
  The shell as its user sees it: in a system that is in order, every command returns to a system
  that is in order or halts the machine, and none runs into undefined behaviour. The heap test
  of the shell writes to the blocks it was given, so the first part shows that the pages of the
  heap are its own: what is stored in a block changes no page table, no bitmap, no other block
  and no file. Nothing in this theory models further code.
\<close>

section \<open>Stores to pages of one's own\<close>

text \<open>The directory and the tables decide what an address means.\<close>

lemma vmm_mem_frame:
  fixes s t :: "'a vmm_scheme"
  assumes r: "recursive (mem s) (cr3 s)" and c: "cr3 t = cr3 s"
    and same: "\<And>g i. g \<in> tables (mem s) (cr3 s) \<Longrightarrow> i < 1024 \<Longrightarrow> entry (mem t) g i = entry (mem s) g i"
  shows "tables (mem t) (cr3 t) = tables (mem s) (cr3 s)" "recursive (mem t) (cr3 t)"
    "dir_index v \<noteq> 1023 \<Longrightarrow> translate (mem t) (cr3 t) v = translate (mem s) (cr3 s) v"
proof -
  have dir: "page_base (cr3 s)"
    using r by (simp add: recursive_def)
  have d: "entry (mem t) (cr3 s) i = entry (mem s) (cr3 s) i" if "i < 1024" for i
    using same that by (simp add: tables_def)
  show "tables (mem t) (cr3 t) = tables (mem s) (cr3 s)"
    unfolding tables_def c using d by (intro arg_cong [where f = "insert (cr3 s)"] Collect_cong ex_cong1) auto
  show "recursive (mem t) (cr3 t)"
    using r d by (simp add: recursive_def c)
  show "translate (mem t) (cr3 t) v = translate (mem s) (cr3 s) v" if v: "dir_index v \<noteq> 1023"
  proof (cases "present (entry (mem s) (cr3 s) (dir_index v))")
    case True
    then have "frame (entry (mem s) (cr3 s) (dir_index v)) \<in> tables (mem s) (cr3 s)"
      using table_in_tables dir_index_low [OF v] by blast
    then show ?thesis
      unfolding c translate_entry [OF dir] Let_def d [OF dir_index_bound] by (simp add: same table_index_bound)
  next
    case False
    then show ?thesis
      using translate_slot(1) [OF dir] d [OF dir_index_bound] by (simp add: c)
  qed
qed

text \<open>
  \<open>data_change U s t\<close>: only memory has changed, and only in pages that hold neither a table nor a
  part of the bitmap and are not in \<open>U\<close>.
\<close>

definition data_change :: "nat set \<Rightarrow> 'a vmm_scheme \<Rightarrow> 'a vmm_scheme \<Rightarrow> bool" where
  "data_change U s t \<longleftrightarrow> (\<exists>m. t = s\<lparr>mem := m\<rparr>) \<and>
     (\<forall>a. mem t a = mem s a \<or> foreign_page s (page_no a) \<and> page_no a \<notin> U)"

lemma data_change_refl: "data_change U s s"
  unfolding data_change_def by (intro conjI exI [of _ "mem s"]) simp_all

lemma data_change_ok:
  fixes s t :: "'a vmm_scheme"
  assumes ok: "vmm_ok s" and ch: "data_change U s t"
  shows "vmm_ok t" "used_pages t = used_pages s" "foreign_page t = foreign_page s"
    "dir_index v \<noteq> 1023 \<Longrightarrow> translate (mem t) (cr3 t) v = translate (mem s) (cr3 s) v"
    "page_no a \<in> U \<Longrightarrow> mem t a = mem s a"
proof -
  obtain m where t: "t = s\<lparr>mem := m\<rparr>"
    using ch by (auto simp: data_change_def)
  have m: "m a = mem s a" if "\<not> foreign_page s (page_no a)" for a
    using ch that by (auto simp: data_change_def t)
  have r: "recursive (mem s) (cr3 s)" and c: "cr3 t = cr3 s" and bo: "bitmap_ok s"
    using ok by (simp_all add: vmm_ok_def t pmm_ok_def)
  have bm: "in_bitmap t = in_bitmap s"
    by (simp add: t in_bitmap_def fun_eq_iff)
  have "m a = mem s a" if "in_bitmap s a" for a
    using that by (intro m) (auto simp: foreign_page_def)
  note pages = pages_mem_frame [OF bo this]
  show used: "used_pages t = used_pages s"
    using pages(1) by (simp add: t)
  have ent: "entry (mem t) g i = entry (mem s) g i" if g: "g \<in> tables (mem s) (cr3 s)" and i: "i < 1024" for g i
  proof (rule entry_cong [OF tables_base [OF r g] i])
    fix n :: nat
    assume "n < 4096"
    then have "page_no (g + of_nat n) = page_no g"
      using page_no_offset [OF tables_base [OF r g]] by simp
    then have "\<not> foreign_page s (page_no (g + of_nat n))"
      using g by (simp add: foreign_page_def)
    then show "mem t (g + of_nat n) = mem s (g + of_nat n)"
      using m by (simp add: t)
  qed
  have fr: "tables (mem t) (cr3 t) = tables (mem s) (cr3 s)" "recursive (mem t) (cr3 t)"
    "\<And>w. dir_index w \<noteq> 1023 \<Longrightarrow> translate (mem t) (cr3 t) w = translate (mem s) (cr3 s) w"
    by (rule vmm_mem_frame [OF r c]; simp add: ent)+
  show "dir_index v \<noteq> 1023 \<Longrightarrow> translate (mem t) (cr3 t) v = translate (mem s) (cr3 s) v"
    by (rule fr(3))
  have d: "entry (mem t) (cr3 s) i = entry (mem s) (cr3 s) i" if "i < 1024" for i
    using ent that by (simp add: tables_def)
  have "pmm_ok t"
    using ok pages(3) by (simp add: t vmm_ok_def)
  then show "vmm_ok t"
    using ok fr(1,2) d unfolding vmm_ok_def private_tables_def bm used by (simp add: c)
  show "foreign_page t = foreign_page s"
    by (simp add: fun_eq_iff foreign_page_def fr(1) bm used)
  show "page_no a \<in> U \<Longrightarrow> mem t a = mem s a"
    using ch by (auto simp: data_change_def)
qed

lemma data_change_trans:
  assumes ok: "vmm_ok s" and "data_change U s t" "data_change U t u"
  shows "data_change U s u"
proof -
  have "foreign_page t = foreign_page s"
    using data_change_ok(3) [OF assms(1,2)] .
  then show ?thesis
    using assms(2,3) unfolding data_change_def by (cases s) force
qed

lemma heap_ok_vmm: "heap_ok s A \<Longrightarrow> vmm_ok s"
  by (auto simp: heap_ok_def heap_wf_def heap_space_def)

lemma data_change_heap:
  fixes s t :: "'a heap_scheme"
  assumes ok: "heap_ok s A" and ch: "data_change U s t"
  shows "heap_ok t A" "heap_room t n = heap_room s n" "owns_frames t V k = owns_frames s V k"
    "heap_current_end t = heap_current_end s"
proof -
  note same = data_change_ok [OF heap_ok_vmm [OF ok] ch]
  obtain m where t: "t = s\<lparr>mem := m\<rparr>"
    using ch by (auto simp: data_change_def)
  have free: "free_pages t = free_pages s"
    using same(2) by (simp add: free_pages_eq t)
  show e: "heap_current_end t = heap_current_end s"
    by (simp add: t)
  obtain bs where bs: "heap_wf s bs" "separated bs" "A = allocated heap_start bs"
    using ok by (auto simp: heap_ok_def)
  have "mapped_below t (heap_current_end s)"
  proof -
    have "dir_index v \<noteq> 1023" if "heap_start \<le> unat v" "unat v < unat (heap_current_end s)" for v
      using that bs(1) heap_dir_index [of v] by (auto simp: heap_wf_def heap_space_def)
    then show ?thesis
      using bs(1) same(4) by (auto simp: heap_wf_def heap_space_def mapped_below_def)
  qed
  then have "heap_wf t bs"
    using bs(1) same(1) free by (simp add: heap_wf_def heap_space_def e) (simp add: t)
  with bs show "heap_ok t A"
    by (auto simp: heap_ok_def)
  show "heap_room t n = heap_room s n"
    by (simp add: heap_room_def free e)
  show "owns_frames t V k = owns_frames s V k"
    by (simp add: owns_frames_def e same(3,4))
qed

text \<open>Different bytes of the heap lie at different places.\<close>

lemma translate_offset:
  assumes r: "recursive m dir" and tr: "translate m dir v = Some p"
  shows "unat p mod 4096 = unat v mod 4096"
proof -
  have dir: "page_base dir"
    using r by (simp add: recursive_def)
  obtain f where "p = frame f + offset v"
    using tr translate_slot [OF dir, of m v] by (cases "present (entry m dir (dir_index v))") (auto simp: Let_def split: if_splits)
  moreover have "unat (offset v) < 4096"
    by (simp add: unat_offset)
  then have "unat (frame f + offset v) = unat (frame f) + unat (offset v)"
    using page_offset_add [OF page_base_frame, of "unat (offset v)" f] by simp
  moreover have "unat (frame f) mod 4096 = 0"
    by (simp add: unat_frame)
  ultimately show ?thesis
    by (simp add: unat_offset mod_add_eq [symmetric, of "unat (frame f)"])
qed

lemma heap_bytes_apart:
  fixes s :: "'a heap_scheme"
  assumes ok: "heap_ok s A" and own: "owns_frames s U heap_start"
    and v: "heap_start \<le> unat v" "unat v < unat (heap_current_end s)"
    and w: "heap_start \<le> unat w" "unat w < unat (heap_current_end s)"
    and tr: "translate (mem s) (cr3 s) v = Some p" "translate (mem s) (cr3 s) w = Some p"
  shows "v = w"
proof -
  have low: "dir_index x \<noteq> 1023" if "heap_start \<le> unat x" "unat x < unat (heap_current_end s)" for x
    using that ok heap_dir_index [of x] by (auto simp: heap_ok_def heap_wf_def heap_space_def)
  have "page_no v = page_no w"
    using own v w low tr unfolding owns_frames_def by blast
  moreover have "unat v mod 4096 = unat w mod 4096"
    using translate_offset [OF _ tr(1)] translate_offset [OF _ tr(2)] heap_ok_vmm [OF ok] by (simp add: vmm_ok_def)
  ultimately have "unat v = unat w"
    unfolding page_no_def by (metis div_mult_mod_eq)
  then show ?thesis
    by (simp add: word_unat_eq_iff)
qed

lemma heap_byte:
  fixes s :: "'a heap_scheme"
  assumes ok: "heap_ok s A" and own: "owns_frames s U heap_start"
    and v: "heap_start \<le> unat v" "unat v < unat (heap_current_end s)"
  obtains p where "translate (mem s) (cr3 s) v = Some p" "foreign_page s (page_no p)" "page_no p \<notin> U" "dir_index v \<noteq> 1023"
proof -
  have "dir_index v \<noteq> 1023"
    using v ok heap_dir_index [of v] by (auto simp: heap_ok_def heap_wf_def heap_space_def)
  then show thesis
    using own v that unfolding owns_frames_def by blast
qed

lemma store_byte_ok:
  fixes s :: "'a heap_scheme"
  assumes ok: "heap_ok s A" and own: "owns_frames s U heap_start"
    and v: "heap_start \<le> unat v" "unat v < unat (heap_current_end s)"
  obtains t where "vstore8 v b s = Inr t" "data_change U s t" "vload8 v t = Inr b"
    "\<And>w. heap_start \<le> unat w \<Longrightarrow> unat w < unat (heap_current_end s) \<Longrightarrow> w \<noteq> v \<Longrightarrow> vload8 w t = vload8 w s"
proof -
  obtain p where p: "translate (mem s) (cr3 s) v = Some p" "foreign_page s (page_no p)" "page_no p \<notin> U" "dir_index v \<noteq> 1023"
    using ok own v by (rule heap_byte)
  let ?t = "s\<lparr>mem := (mem s)(p := b)\<rparr>"
  have ch: "data_change U s ?t"
    unfolding data_change_def using p(2,3) by auto
  note tr = data_change_ok(4) [OF heap_ok_vmm [OF ok] ch]
  have "vload8 v ?t = Inr b"
    using tr [OF p(4)] p(1) by (simp add: vload8_def)
  moreover have "vload8 w ?t = vload8 w s"
    if w: "heap_start \<le> unat w" "unat w < unat (heap_current_end s)" "w \<noteq> v" for w
  proof -
    obtain q where q: "translate (mem s) (cr3 s) w = Some q" "dir_index w \<noteq> 1023"
      using heap_byte [OF ok own w(1,2)] by metis
    then have "q \<noteq> p"
      using heap_bytes_apart [OF ok own v w(1,2) p(1)] w(3) by auto
    then show ?thesis
      using tr [OF q(2)] q(1) by (simp add: vload8_def)
  qed
  ultimately show thesis
    using p(1) ch by (intro that [of ?t]) (simp_all add: vstore8_def)
qed

lemma store_bytes_ok:
  fixes s :: "'a heap_scheme"
  assumes "heap_ok s A" "owns_frames s U heap_start" "heap_start \<le> unat v" "unat v + length bs \<le> unat (heap_current_end s)"
  shows "\<exists>t. store_bytes v bs s = Inr t \<and> data_change U s t \<and> bytes_at t v bs \<and>
    (\<forall>w. heap_start \<le> unat w \<longrightarrow> unat w < unat (heap_current_end s) \<longrightarrow>
       unat w < unat v \<or> unat v + length bs \<le> unat w \<longrightarrow> vload8 w t = vload8 w s)"
  using assms
proof (induction bs arbitrary: s v)
  case Nil
  then show ?case
    by (simp add: data_change_refl)
next
  case (Cons b bs)
  obtain t where t: "vstore8 v b s = Inr t" "data_change U s t" "vload8 v t = Inr b"
    "\<And>w. heap_start \<le> unat w \<Longrightarrow> unat w < unat (heap_current_end s) \<Longrightarrow> w \<noteq> v \<Longrightarrow> vload8 w t = vload8 w s"
    using store_byte_ok [OF Cons.prems(1,2,3)] Cons.prems(4) by auto
  note same = data_change_heap [OF Cons.prems(1) t(2)]
  have "unat (heap_current_end s) \<le> heap_limit"
    using Cons.prems(1) by (auto simp: heap_ok_def heap_wf_def heap_space_def)
  then have v: "unat (v + 1) = unat v + 1"
    using Cons.prems(4) by (subst unat_add_small) (simp_all add: heap_bounds)
  have "owns_frames t U heap_start" "heap_start \<le> unat (v + 1)" "unat (v + 1) + length bs \<le> unat (heap_current_end t)"
    using Cons.prems(2-4) same(3,4) v by simp_all
  from Cons.IH [OF same(1) this] obtain u where u: "store_bytes (v + 1) bs t = Inr u" "data_change U t u" "bytes_at u (v + 1) bs"
    "\<And>w. heap_start \<le> unat w \<Longrightarrow> unat w < unat (heap_current_end s) \<Longrightarrow>
       unat w < unat v + 1 \<or> unat v + 1 + length bs \<le> unat w \<Longrightarrow> vload8 w u = vload8 w t"
    unfolding v same(4) by blast
  have "data_change U s u"
    using data_change_trans [OF heap_ok_vmm [OF Cons.prems(1)] t(2) u(2)] .
  moreover have "vload8 v u = Inr b"
    using u(4) [of v] t(3) Cons.prems(3,4) by simp
  moreover have "vload8 w u = vload8 w s" if "heap_start \<le> unat w" "unat w < unat (heap_current_end s)"
    "unat w < unat v \<or> unat v + length (b # bs) \<le> unat w" for w
    using u(4) [of w] t(4) [of w] that by fastforce
  ultimately show ?case
    using t(1) u(1,3) by (intro exI [of _ u]) auto
qed

section \<open>A system that is in order\<close>

text \<open>
  \<open>system_ok s files B\<close>: the terminal is free and its cursor on the screen; the ring of the keyboard
  is well formed and there are sixteen interrupt lines; the blocks \<open>B\<close> of the
  heap are handed out and the pages behind the heap are its own; the files \<open>files\<close> are mounted at the
  root. \<open>in_order s files B ts k\<close>: moreover the tasks \<open>ts\<close> form the ready queue, the \<open>k\<close>-th is
  running, and each lies in a block.
\<close>

definition disk_pages :: "'a fs_scheme \<Rightarrow> (string \<times> u8 list) list \<Rightarrow> nat set" where
  "disk_pages s files =
     {page_no (initrd_header s + of_nat k) | k img. make_initrd files = Inr (Some img) \<and> k < length img}"

definition keys_ok :: "'a irq_scheme \<Rightarrow> bool" where
  "keys_ok s \<longleftrightarrow> kbd_ok s \<and> length (irq_routines s) = 16"

definition system_ok :: "'a fs_scheme \<Rightarrow> (string \<times> u8 list) list \<Rightarrow> (nat \<times> nat) set \<Rightarrow> bool" where
  "system_ok s files B \<longleftrightarrow> tty_lock s = 0 \<and> tty_inv s \<and> keys_ok s \<and>
     heap_ok s B \<and> owns_frames s (disk_pages s files) heap_start \<and>
     mounted s files \<and> fs_root s = initrd_root s \<and> nodes_below s (length files) \<and> image_kept s (initrd_header s) files"

definition in_order :: "'a fs_scheme \<Rightarrow> (string \<times> u8 list) list \<Rightarrow> (nat \<times> nat) set \<Rightarrow> u32 list \<Rightarrow> nat \<Rightarrow> bool" where
  "in_order s files B ts k \<longleftrightarrow> system_ok s files B \<and> queue s ts k \<and> owned B ts"

lemmas order_defs = in_order_def system_ok_def

lemma disk_pages_used:
  assumes "image_kept s (initrd_header s) files"
  shows "disk_pages s files \<subseteq> used_pages s"
  using assms by (auto simp: disk_pages_def image_kept_def list_all_iff kept_low_def foreign_page_def)

text \<open>Files and heap survive whatever keeps the pages and the disk.\<close>

lemma system_kept:
  fixes s t :: "'a fs_scheme"
  assumes ok: "system_ok s files B" and kept: "maps_kept s t" and disk: "same_disk s t" "fs_root t = fs_root s"
    and heap: "heap_ok t C" and tty: "tty_lock t = 0" "tty_inv t" and keys: "keys_ok t"
  shows "system_ok t files C"
proof -
  have s: "heap_ok s B" "mounted s files" "nodes_below s (length files)" "image_kept s (initrd_header s) files"
    "owns_frames s (disk_pages s files) heap_start" "fs_root s = initrd_root s"
    using ok by (simp_all add: system_ok_def)
  note b = heap_ok_bounds [OF s(1)]
  note f = disk(1) [unfolded same_disk_def]
  have pages: "disk_pages t files = disk_pages s files"
    by (simp add: disk_pages_def f)
  have "owns_frames t (disk_pages s files) heap_start"
    using owns_frames_grow [OF s(5) kept disk_pages_used [OF s(4)]] .
  moreover have "mounted t files"
    using mounted_kept [OF s(2-4) kept disk(1)] b by simp
  moreover have "image_kept t (initrd_header t) files"
    using image_kept_trans [OF s(4) kept] b by (simp add: f)
  moreover have "nodes_below t (length files)"
    using s(3) kept by (auto simp: nodes_below_def root_node_def f maps_kept_def)
  ultimately show ?thesis
    using s(6) heap tty keys disk(2) by (simp add: system_ok_def pages f)
qed

lemma in_order_bounds:
  assumes "in_order s files B ts k"
  shows "heap_start \<le> unat (heap_current_end s)" "unat (heap_current_end s) \<le> heap_limit" "vmm_ok s"
  using assms heap_ok_bounds [of s B] heap_ok_vmm [of s B] by (auto simp: order_defs)

text \<open>What happens on the terminal is of no concern to the rest.\<close>

lemma in_order_same:
  fixes s t :: "'a fs_scheme"
  assumes ok: "in_order s files B ts k" and same: "heap_same s t"
    and tasks: "tasks t = tasks s" "ready_queue t = ready_queue s" "current_task t = current_task s"
    and disk: "same_disk s t" "fs_root t = fs_root s"
    and tty: "tty_lock t = tty_lock s" "tty_inv t" and keys: "keys_ok t"
  shows "in_order t files B ts k" "\<forall>r. heap_room t r = heap_room s r" "heap_current_end t = heap_current_end s"
proof -
  note hs = same [unfolded heap_same_def]
  then show "heap_current_end t = heap_current_end s"
    by simp
  have kept: "maps_kept s t"
    using maps_kept_cong(2) [of t s s] hs by simp
  have sys: "system_ok s files B"
    using ok by (simp add: in_order_def)
  then have t: "heap_ok t B" "tty_lock t = 0"
    using heap_same_ok(1) [OF same] tty(1) by (simp_all add: system_ok_def)
  have "system_ok t files B"
    using sys kept disk t tty(2) keys by (rule system_kept)
  moreover have "queue t ts k"
    using ok heap_same_ok(3) [OF same] by (simp add: in_order_def queue_def tasks)
  ultimately show "in_order t files B ts k"
    using ok by (simp add: in_order_def)
  show "\<forall>r. heap_room t r = heap_room s r"
    using heap_same_ok(2) [OF same] by simp
qed

lemma in_order_ui:
  fixes s t :: "'a fs_scheme"
  assumes ok: "in_order s files B ts k" and ch: "ui_change s t" and inv: "tty_inv t"
  shows "in_order t files B ts k" "\<forall>r. heap_room t r = heap_room s r" "heap_current_end t = heap_current_end s"
proof -
  have same: "heap_same s t" and f: "tasks t = tasks s" "ready_queue t = ready_queue s" "current_task t = current_task s"
    "same_disk s t" "fs_root t = fs_root s" "tty_lock t = tty_lock s" and "keys_ok t = keys_ok s"
    using ch by (auto simp: ui_change_def heap_same_def same_disk_def keys_ok_def kbd_ok_def)
  then have "keys_ok t"
    using ok by (simp add: order_defs)
  from in_order_same [OF ok same f inv this] show "in_order t files B ts k" "\<forall>r. heap_room t r = heap_room s r"
    "heap_current_end t = heap_current_end s"
    by blast+
qed

lemma in_order_print:
  fixes s :: "'a fs_scheme"
  assumes ok: "in_order s files B ts k" and r: "render format args = Some out"
  shows "print format args s = Inr (show_text out s)" "in_order (show_text out s) files B ts k"
    "\<forall>r. heap_room (show_text out s) r = heap_room s r" "heap_current_end (show_text out s) = heap_current_end s"
proof -
  have "tty_lock s = 0" "tty_inv (show_text out s)"
    using ok by (simp_all add: order_defs)
  then show "print format args s = Inr (show_text out s)" "in_order (show_text out s) files B ts k"
    "\<forall>r. heap_room (show_text out s) r = heap_room s r" "heap_current_end (show_text out s) = heap_current_end s"
    using print_shows [OF _ r] in_order_ui [OF ok ui_change_show] by simp_all
qed

text \<open>The heap at work: the blocks handed out before stay, and with them the tasks and the files.\<close>

lemma in_order_queue:
  fixes s t :: "'a task_scheme"
  assumes q: "queue s ts k" and own: "owned B ts" and ok: "heap_ok t B"
    and same: "tasks t = tasks s" "ready_queue t = ready_queue s" "current_task t = current_task s"
  shows "queue t ts k"
  using q owned_mapped [OF own ok] by (simp add: queue_def same list_all_iff)

lemma owned_mono: "owned B ts \<Longrightarrow> B \<subseteq> C \<Longrightarrow> owned C ts"
  by (fastforce simp: owned_def)

lemma in_order_heap:
  fixes s t :: "'a fs_scheme"
  assumes ok: "in_order s files B ts k" and ch: "heap_change s t" and heap: "heap_ok t C" and sub: "owned C ts"
  shows "in_order t files C ts k"
proof -
  note f = heap_change_task [OF ch]
  have kept: "maps_kept s t"
    using ch by (simp add: heap_change_def)
  have sys: "system_ok s files B"
    using ok by (simp add: in_order_def)
  then have tty: "tty_lock t = 0" "tty_inv t"
    using f(6,10) by (simp_all add: system_ok_def)
  have "keys_ok t = keys_ok s"
    using ch by (auto simp: heap_change_def keys_ok_def kbd_ok_def)
  then have keys: "keys_ok t"
    using sys by (simp add: system_ok_def)
  have "system_ok t files C"
    using sys kept same_disk_more [OF f(9)] heap tty keys by (rule system_kept)
  moreover have "queue t ts k"
    using in_order_queue [OF _ sub heap f(1,4,3)] ok by (simp add: in_order_def)
  ultimately show ?thesis
    using sub by (simp add: in_order_def)
qed

lemma in_order_free:
  fixes s :: "'a fs_scheme"
  assumes ok: "in_order s files (insert (unat p, m) B) ts k" and new: "(unat p, m) \<notin> B" and own: "owned B ts"
  obtains t where "kfree p s = Inr t" "in_order t files B ts k" "\<forall>r. heap_room t r = heap_room s r"
    "heap_current_end t = heap_current_end s" "tty_screen t = tty_screen s" "terminal_color t = terminal_color s"
proof -
  have h: "heap_ok s (insert (unat p, m) B)"
    using ok by (simp add: order_defs)
  obtain N where N: "kfree p s = Inr (s\<lparr>nodes := N\<rparr>)" "heap_ok (s\<lparr>nodes := N\<rparr>) (insert (unat p, m) B - {(unat p, m)})"
    using kfree_ok [OF h, of "unat p" m] by auto
  have "insert (unat p, m) B - {(unat p, m)} = B"
    using new by auto
  then have "heap_ok (s\<lparr>nodes := N\<rparr>) B"
    using N(2) by simp
  with ok heap_change_nodes have "in_order (s\<lparr>nodes := N\<rparr>) files B ts k"
    using own by (rule in_order_heap)
  then show thesis
    using N(1) by (intro that [of "s\<lparr>nodes := N\<rparr>"]) (simp_all add: heap_room_def tty_screen_def)
qed

lemma mounted_same:
  fixes s t :: "'a fs_scheme"
  assumes m: "mounted s files" and disk: "same_disk s t" and below: "nodes_below t (length files)" and ok: "heap_ok t B"
    and img: "image_at t (initrd_header s) files"
  shows "mounted t files"
proof -
  note f = disk [unfolded same_disk_def]
  then have r: "root_node i t = root_node i s" for i
    by (simp add: root_node_def)
  have "bytes_mapped 184 t p" if p: "heap_start \<le> unat p" "unat p + 184 \<le> unat (heap_current_end t)" for p
    unfolding bytes_mapped_def list_all_iff
  proof
    fix i
    assume "i \<in> set [0..<184]"
    then have "unat (p + of_nat i) = unat p + i"
      using p(2) heap_ok_bounds [OF ok] by (subst unat_add_small) (simp_all add: unat_of_nat_small heap_bounds)
    then show "translate (mem t) (cr3 t) (p + of_nat i) \<noteq> None"
      using p \<open>i \<in> set [0..<184]\<close> ok by (auto simp: heap_ok_def heap_wf_def heap_space_def mapped_below_def)
  qed
  with m below img show ?thesis
    by (auto simp: mounted_def nodes_below_def f r)
qed

lemma in_order_store:
  fixes s :: "'a fs_scheme"
  assumes ok: "in_order s files B ts k" and v: "heap_start \<le> unat v" "unat v + length bs \<le> unat (heap_current_end s)"
  obtains t where "store_bytes v bs s = Inr t" "in_order t files B ts k" "bytes_at t v bs" "\<forall>r. heap_room t r = heap_room s r"
    "heap_current_end t = heap_current_end s" "tty_screen t = tty_screen s" "terminal_color t = terminal_color s"
proof -
  let ?U = "disk_pages s files"
  have h: "heap_ok s B" "owns_frames s ?U heap_start"
    using ok by (simp_all add: order_defs)
  from store_bytes_ok [OF h v] obtain t where t: "store_bytes v bs s = Inr t" "data_change ?U s t" "bytes_at t v bs"
    by blast
  obtain m where eq: "t = s\<lparr>mem := m\<rparr>"
    using t(2) by (auto simp: data_change_def)
  note d = data_change_ok [OF heap_ok_vmm [OF h(1)] t(2)]
  note dh = data_change_heap [OF h(1) t(2)]
  have f: "tty_lock t = tty_lock s" "tty_inv t = tty_inv s" "tasks t = tasks s" "ready_queue t = ready_queue s"
    "current_task t = current_task s" "disk_pages t files = ?U" "same_disk s t" "fs_root t = fs_root s"
    by (simp_all add: eq tty_inv_def disk_pages_def same_disk_def)
  have keys: "keys_ok t = keys_ok s"
    by (simp add: eq keys_ok_def kbd_ok_def)
  note sd = f(7) [unfolded same_disk_def]
  have low: "kept_low t a \<and> mem t a = mem s a" if "kept_low s a" "page_no a \<in> ?U" for a
    using that d(3,5) d(4) [of a] by (auto simp: kept_low_def dir_index_div)
  obtain img where img: "good_files files" "make_initrd files = Inr (Some img)"
    "\<And>i. i < length img \<Longrightarrow> kept_low s (initrd_header s + of_nat i) \<and> mem s (initrd_header s + of_nat i) = img ! i"
    using ok by (auto simp: order_defs image_kept_def list_all_iff)
  have "kept_low t (initrd_header s + of_nat i) \<and> mem t (initrd_header s + of_nat i) = img ! i" if "i < length img" for i
    using low [of "initrd_header s + of_nat i"] img(2) img(3) [OF that] that by (auto simp: disk_pages_def)
  then have kept: "image_kept t (initrd_header t) files"
    using img(1,2) sd by (simp add: image_kept_def list_all_iff)
  have below: "nodes_below t (length files)"
    using ok sd dh(4) by (simp add: order_defs nodes_below_def root_node_def)
  have "mounted t files"
    using mounted_same [OF _ f(7) below dh(1)] image_kept_at [OF kept] ok sd by (simp add: order_defs)
  moreover have "queue t ts k"
    using in_order_queue [OF _ _ dh(1) f(3-5)] ok by (simp add: order_defs)
  ultimately have "in_order t files B ts k"
    using ok dh(1,3) kept below sd unfolding order_defs f(6) by (simp add: f keys)
  with t(1,3) dh(2,4) show thesis
    by (intro that [of t]) (simp_all add: eq tty_screen_def)
qed

section \<open>The heap test\<close>

text \<open>
  What the test needs: a gap of 4 MB, or the pages for three blocks. \<open>stock s B C j\<close> says that,
  the blocks \<open>B\<close> being handed out before the test and \<open>C\<close> now, it can ask \<open>j\<close> times for 1 KB and
  then, with \<open>B\<close> again, for 4 MB.
\<close>

definition spare :: "'a heap_scheme \<Rightarrow> (nat \<times> nat) set \<Rightarrow> bool" where
  "spare s B \<longleftrightarrow> gap (unat (heap_current_end s)) B 4194304 \<or> heap_room s 1027"

definition stock :: "'a heap_scheme \<Rightarrow> (nat \<times> nat) set \<Rightarrow> (nat \<times> nat) set \<Rightarrow> nat \<Rightarrow> bool" where
  "stock s B C j \<longleftrightarrow>
     gap (unat (heap_current_end s)) B 4194304 \<and> gap (unat (heap_current_end s)) C (1048 * j) \<or> heap_room s (1025 + j)"

lemma stock_same:
  assumes "\<forall>r. heap_room t r = heap_room s r" "heap_current_end t = heap_current_end s"
  shows "stock t B C j = stock s B C j" "spare t B = spare s B"
  using assms by (simp_all add: stock_def spare_def)

lemma spare_stock: "spare s B = stock s B B 2"
  using gap_mono [of "unat (heap_current_end s)" B 4194304 _ B 2096] by (auto simp: spare_def stock_def)

lemma stock_free: "stock s B C j \<Longrightarrow> D \<subseteq> C \<Longrightarrow> stock s B D j"
  using gap_mono [of "unat (heap_current_end s)" C _ _ D] by (auto simp: stock_def)

text \<open>
  \<open>worked s text t files C ts k B j\<close>: since \<open>s\<close> the text has been shown, and \<open>t\<close> is in order with the
  blocks \<open>C\<close> handed out and the stock for \<open>j\<close> small blocks and the large one.
\<close>

definition worked :: "'a fs_scheme \<Rightarrow> string \<Rightarrow> 'a fs_scheme \<Rightarrow> (string \<times> u8 list) list \<Rightarrow> (nat \<times> nat) set \<Rightarrow> u32 list \<Rightarrow>
    nat \<Rightarrow> (nat \<times> nat) set \<Rightarrow> nat \<Rightarrow> bool" where
  "worked s text t files C ts k B j \<longleftrightarrow> in_order t files C ts k \<and> stock t B C j \<and> displays s text t"

lemma worked_start: "in_order s files B ts k \<Longrightarrow> spare s B \<Longrightarrow> worked s [] s files B ts k B 2"
  by (simp add: worked_def displays_def order_defs spare_stock)

lemma worked_print:
  assumes w: "worked s text t files C ts k B j" and "render format args = Some out"
  obtains u where "print format args t = Inr u" "worked s (text @ out) u files C ts k B j"
proof -
  have ok: "in_order t files C ts k" "stock t B C j" "displays s text t"
    using w by (simp_all add: worked_def)
  note p = in_order_print [OF ok(1) assms(2)]
  have "displays s (text @ out) (show_text out t)"
    using displays_trans [OF ok(3) displays_text] ok(1) by (simp add: order_defs)
  with p(1,2) ok(2) stock_same(1) [OF p(3,4)] show thesis
    by (intro that [of "show_text out t"]) (simp_all add: worked_def)
qed

lemma displays_same:
  assumes "displays s text t" "tty_screen u = tty_screen t" "tty_inv u" "tty_lock u = tty_lock t" "terminal_color u = terminal_color t"
  shows "displays s text u"
  using assms by (simp add: displays_def)

text \<open>A block from the gap or from new pages.\<close>

lemma heap_change_worked:
  fixes s t u :: "'a fs_scheme"
  assumes w: "worked s text t files C ts k B j" and ch: "heap_change t u" and heap: "heap_ok u (insert b C)"
    and sup: "stock u B (insert b C) i"
  shows "worked s text u files (insert b C) ts k B i"
proof -
  have ok: "in_order t files C ts k" "displays s text t"
    using w by (simp_all add: worked_def)
  have "owned (insert b C) ts"
    using ok(1) owned_mono [of C ts] by (auto simp: order_defs)
  with ok(1) ch heap have u: "in_order u files (insert b C) ts k"
    by (rule in_order_heap)
  have "tty_screen u = tty_screen t" "terminal_color u = terminal_color t"
    using ch by (auto simp: heap_change_def tty_screen_def)
  then have "displays s text u"
    using displays_same [OF ok(2)] u ok(1) by (simp add: order_defs)
  with u sup show ?thesis
    by (simp add: worked_def)
qed

lemma worked_small:
  assumes w: "worked s text t files C ts k B (Suc j)"
  obtains p m u where "kmalloc_call 1024 t = Inr (p, u)" "1024 \<le> m" "(unat p, m) \<notin> C"
    "worked s text u files (insert (unat p, m) C) ts k B j"
proof -
  have h: "heap_ok t C" "stock t B C (Suc j)" and n: "0 < unat (1024 :: u32)"
    using w by (simp_all add: worked_def order_defs)
  have sz: "rounded (unat (1024 :: u32)) + 24 + 1048 * j = 1048 * Suc j" "kmalloc_pages (unat (1024 :: u32)) = 1"
    by (simp_all add: rounded_def kmalloc_pages_def heap_pages_def)
  show thesis
  proof (cases "gap (unat (heap_current_end t)) B 4194304 \<and> gap (unat (heap_current_end t)) C (1048 * Suc j)")
    case True
    then have "gap (unat (heap_current_end t)) C (rounded (unat (1024 :: u32)) + 24 + 1048 * j)"
      unfolding sz by blast
    from kmalloc_call_part [OF h(1) this n] obtain p m N where p: "kmalloc_call 1024 t = Inr (p, t\<lparr>nodes := N\<rparr>)"
      "unat (1024 :: u32) \<le> m" "(unat p, m) \<notin> C" "heap_ok (t\<lparr>nodes := N\<rparr>) (insert (unat p, m) C)"
      "gap (unat (heap_current_end t)) (insert (unat p, m) C) (1048 * j)"
      by blast
    have "stock (t\<lparr>nodes := N\<rparr>) B (insert (unat p, m) C) j"
      using p(5) True by (simp add: stock_def)
    with w heap_change_nodes p(4) have "worked s text (t\<lparr>nodes := N\<rparr>) files (insert (unat p, m) C) ts k B j"
      by (rule heap_change_worked)
    with p(1-3) show thesis
      by (intro that) simp_all
  next
    case False
    then have "heap_room t (1025 + Suc j)"
      using h(2) unfolding stock_def by blast
    then have "heap_room t (1025 + j + kmalloc_pages (unat (1024 :: u32)))"
      unfolding sz by simp
    from kmalloc_call_ok [OF h(1) n this] obtain p m u where u: "kmalloc_call 1024 t = Inr (p, u)" "unat (1024 :: u32) \<le> m"
      "(unat p, m) \<notin> C" "heap_ok u (insert (unat p, m) C)" "heap_room u (1025 + j)" "heap_change t u"
      by metis
    have "stock u B (insert (unat p, m) C) j"
      using u(5) by (simp add: stock_def)
    with w u(6,4) have "worked s text u files (insert (unat p, m) C) ts k B j"
      by (rule heap_change_worked)
    with u(1-3) show thesis
      by (intro that) simp_all
  qed
qed

text \<open>The large block, taken, shown and given back: what is left is a gap of its size.\<close>

lemma worked_large:
  assumes w: "worked s text t files B ts k B j"
  obtains p m u where "kmalloc_call (4 * 1024 * 1024) t = Inr (p, u)" "4194304 \<le> m" "(unat p, m) \<notin> B" "p \<noteq> 0"
    "in_order u files (insert (unat p, m) B) ts k" "displays s text u"
proof -
  have h: "heap_ok t B" "stock t B B j" and n: "0 < unat (4 * 1024 * 1024 :: u32)"
    using w by (simp_all add: worked_def order_defs)
  have sz: "rounded (unat (4 * 1024 * 1024 :: u32)) = 4194304" "kmalloc_pages (unat (4 * 1024 * 1024 :: u32)) = 1025"
    by (simp_all add: rounded_def kmalloc_pages_def heap_pages_def)
  have "\<exists>p m u. kmalloc_call (4 * 1024 * 1024) t = Inr (p, u) \<and> 4194304 \<le> m \<and> (unat p, m) \<notin> B \<and>
      heap_ok u (insert (unat p, m) B) \<and> heap_change t u"
  proof (cases "gap (unat (heap_current_end t)) B 4194304")
    case True
    obtain p m N where "kmalloc_call (4 * 1024 * 1024) t = Inr (p, t\<lparr>nodes := N\<rparr>)" "unat (4 * 1024 * 1024 :: u32) \<le> m"
      "(unat p, m) \<notin> B" "heap_ok (t\<lparr>nodes := N\<rparr>) (insert (unat p, m) B)"
      using kmalloc_call_gap [OF h(1) _ n, unfolded sz, OF True] .
    then show ?thesis
      using heap_change_nodes [of t N] by (intro exI [of _ p] exI [of _ m] exI [of _ "t\<lparr>nodes := N\<rparr>"]) simp
  next
    case False
    then have "heap_room t (j + kmalloc_pages (unat (4 * 1024 * 1024 :: u32)))"
      using h(2) unfolding sz by (simp add: stock_def add.commute)
    from kmalloc_call_ok [OF h(1) n this] show ?thesis
      by simp metis
  qed
  then obtain p m u where u: "kmalloc_call (4 * 1024 * 1024) t = Inr (p, u)" "4194304 \<le> m" "(unat p, m) \<notin> B"
    "heap_ok u (insert (unat p, m) B)" "heap_change t u"
    by blast
  have "owned (insert (unat p, m) B) ts"
    using w owned_mono [of B ts] by (auto simp: worked_def order_defs)
  with _ u(5,4) have ou: "in_order u files (insert (unat p, m) B) ts k"
    using w unfolding worked_def by (blast intro: in_order_heap)
  moreover have "tty_screen u = tty_screen t" "terminal_color u = terminal_color t"
    using u(5) by (auto simp: heap_change_def tty_screen_def)
  then have "displays s text u"
    using displays_same [where t = t and u = u] ou w by (simp add: worked_def order_defs)
  moreover have "p \<noteq> 0"
    using heap_ok_range(1) [OF u(4), of "unat p" m] by (auto simp: heap_bounds)
  ultimately show thesis
    using u(1-3) that by blast
qed

lemma worked_free:
  assumes w: "worked s text t files (insert (unat p, m) C) ts k B j" and new: "(unat p, m) \<notin> C" and own: "owned C ts"
  obtains u where "kfree p t = Inr u" "worked s text u files C ts k B j"
proof -
  have ok: "in_order t files (insert (unat p, m) C) ts k" "stock t B (insert (unat p, m) C) j" "displays s text t"
    using w by (simp_all add: worked_def)
  obtain u where u: "kfree p t = Inr u" "in_order u files C ts k" "\<forall>r. heap_room u r = heap_room t r"
    "heap_current_end u = heap_current_end t" "tty_screen u = tty_screen t" "terminal_color u = terminal_color t"
    using in_order_free [OF ok(1) new own] .
  have "displays s text u"
    using displays_same [OF ok(3) u(5)] u(2,6) ok(1) by (simp add: order_defs)
  moreover have "stock u B C j"
    using stock_free [OF ok(2), of C] stock_same(1) [OF u(3,4)] by blast
  ultimately show thesis
    using u by (intro that [of u]) (simp_all add: worked_def)
qed

lemma worked_store:
  assumes w: "worked s text t files C ts k B j" and v: "heap_start \<le> unat v" "unat v + length bs \<le> unat (heap_current_end t)"
  obtains u where "store_bytes v bs t = Inr u" "worked s text u files C ts k B j" "bytes_at u v bs"
proof -
  have ok: "in_order t files C ts k" "stock t B C j" "displays s text t"
    using w by (simp_all add: worked_def)
  obtain u where u: "store_bytes v bs t = Inr u" "in_order u files C ts k" "bytes_at u v bs" "\<forall>r. heap_room u r = heap_room t r"
    "heap_current_end u = heap_current_end t" "tty_screen u = tty_screen t" "terminal_color u = terminal_color t"
    using in_order_store [OF ok(1) v] .
  have "displays s text u"
    using displays_same [OF ok(3) u(6)] u(2,7) ok(1) by (simp add: order_defs)
  with u(1-3) ok(2) stock_same(1) [OF u(4,5)] show thesis
    by (intro that [of u]) (simp_all add: worked_def)
qed

text \<open>What the test shows when it succeeds, with the addresses of the three blocks.\<close>

definition test_text :: "u32 \<Rightarrow> u32 \<Rightarrow> u32 \<Rightarrow> string" where
  "test_text a b c =
     ''--- Heap Test Started ---'' @ [newline_char] @
     ''Allocated A (1KB) at 0x'' @ base_numeral 16 (unat a) @ [newline_char] @
     ''Allocated B (1KB) at 0x'' @ base_numeral 16 (unat b) @ [newline_char] @
     ''Data verification in A: KLMNOPQRST'' @ [newline_char] @
     ''Freeing A and B...'' @ [newline_char] @
     ''Requesting 4MB to trigger heap expansion...'' @ [newline_char] @
     ''Allocated C (4MB) at 0x'' @ base_numeral 16 (unat c) @ '' (Success!)'' @ [newline_char] @
     ''--- Heap Test Completed Successfully ---'' @ [newline_char]"

lemma test_data_string: "test_data = List.map of_char ''KLMNOPQRST'' @ [0]" "nul \<notin> set ''KLMNOPQRST''" "length test_data = 11"
  by (simp_all add: test_data_def nul_def upt_conv_Cons)

lemma worked_say:
  assumes "worked s text t files C ts k B j" "plain cs"
  obtains u where "print cs [] t = Inr u" "worked s (text @ cs) u files C ts k B j"
  using worked_print [OF assms(1) render_plain [OF assms(2)]] that by metis

text \<open>The parts of the test, each with what follows it as \<open>f\<close>.\<close>

lemma two_blocks:
  assumes w: "worked s text t files B ts k B 2"
  shows "\<exists>a m b n u. (\<forall>f. bind_outcome (kmalloc_call 1024 t) (\<lambda>(a, s). bind_outcome (kmalloc_call 1024 s) (\<lambda>(b, s). f a b s)) =
      (f a b u :: 'a fs_scheme outcome)) \<and> 1024 \<le> m \<and> (unat a, m) \<notin> B \<and> (unat b, n) \<notin> insert (unat a, m) B \<and>
    worked s text u files (insert (unat b, n) (insert (unat a, m) B)) ts k B 0"
proof -
  obtain a m v where v: "kmalloc_call 1024 t = Inr (a, v)" "1024 \<le> m" "(unat a, m) \<notin> B"
    "worked s text v files (insert (unat a, m) B) ts k B 1"
    using worked_small [where j = 1 and C = B] w by (metis Suc_1)
  obtain b n u where "kmalloc_call 1024 v = Inr (b, u)" "(unat b, n) \<notin> insert (unat a, m) B"
    "worked s text u files (insert (unat b, n) (insert (unat a, m) B)) ts k B 0"
    using worked_small [where j = 0] v(4) by (metis One_nat_def)
  with v(1-3) show ?thesis
    by (intro exI [of _ a] exI [of _ m] exI [of _ b] exI [of _ n] exI [of _ u]) simp
qed

lemma written_and_read:
  assumes w: "worked s text t files C ts k B j" and a: "(unat a, m) \<in> C" "1024 \<le> m"
  shows "\<exists>u. (\<forall>f. bind_outcome (store_bytes a test_data t) (\<lambda>s. bind_outcome (finish (read_string a s)) (\<lambda>cs. f cs s)) =
      (f ''KLMNOPQRST'' u :: 'a fs_scheme outcome)) \<and> worked s text u files C ts k B j"
proof -
  have h: "heap_ok t C"
    using w by (simp add: worked_def order_defs)
  have "heap_start \<le> unat a" "unat a + length test_data \<le> unat (heap_current_end t)"
    using heap_ok_range [OF h a(1)] a(2) by (simp_all add: test_data_string(3))
  with w obtain u where u: "store_bytes a test_data t = Inr u" "worked s text u files C ts k B j" "bytes_at u a test_data"
    by (rule worked_store)
  have "string_at u a ''KLMNOPQRST''"
    using u(3) test_data_string(2) unfolding test_data_string(1) by (rule string_at_bytes)
  then have "finish (read_string a u) = Inr ''KLMNOPQRST''"
    unfolding finish_def by (subst read_string_at) simp_all
  with u show ?thesis
    by (intro exI [of _ u]) simp
qed

lemma large_block:
  assumes w: "worked s text t files B ts k B 0"
  shows "\<exists>(c :: u32) u. (\<forall>f. bind_outcome (kmalloc_call (4 * 1024 * 1024) t) (\<lambda>(c, s). bind_outcome
       (if c \<noteq> 0 then
          bind_outcome (print (''Allocated C (4MB) at 0x%x (Success!)'' @ [newline_char]) [PInt c] s) (kfree c)
        else print (''Failed to allocate 4MB block!'' @ [newline_char]) [] s) f) = (f u :: 'a fs_scheme outcome)) \<and>
    worked s (text @ ''Allocated C (4MB) at 0x'' @ base_numeral 16 (unat c) @ '' (Success!)'' @ [newline_char]) u files B ts k B 2"
proof -
  obtain c m v where v: "kmalloc_call (4 * 1024 * 1024) t = Inr (c, v)" "4194304 \<le> m" "(unat c, m) \<notin> B" "c \<noteq> 0"
    "in_order v files (insert (unat c, m) B) ts k" "displays s text v"
    using w by (rule worked_large)
  define out where "out = ''Allocated C (4MB) at 0x'' @ base_numeral 16 (unat c) @ '' (Success!)'' @ [newline_char]"
  define msg where "msg = ''Allocated C (4MB) at 0x%x (Success!)'' @ [newline_char]"
  have "render msg [PInt c] = Some out"
    by (simp add: msg_def out_def)
  note p = in_order_print [OF v(5) this]
  have own: "owned B ts"
    using w by (simp add: worked_def order_defs)
  obtain u where u: "kfree c (show_text out v) = Inr u" "in_order u files B ts k"
    "heap_current_end u = heap_current_end (show_text out v)" "tty_screen u = tty_screen (show_text out v)"
    "terminal_color u = terminal_color (show_text out v)"
    using in_order_free [OF p(2) v(3) own] by metis
  have "gap (unat (heap_current_end (show_text out v))) (insert (unat c, m) B - {(unat c, m)}) m"
    using p(2) by (intro gap_freed [where s = "show_text out v"]) (simp_all add: order_defs)
  then have "gap (unat (heap_current_end u)) B 4194304"
    using v(2,3) unfolding u(3) by (elim gap_mono) auto
  then have "stock u B B 2"
    using spare_stock [of u B] by (simp add: spare_def)
  moreover have "displays s (text @ out) (show_text out v)"
    using displays_trans [OF v(6) displays_text] v(5) by (simp add: order_defs)
  then have "displays s (text @ out) u"
    using displays_same [OF _ u(4) _ _ u(5)] u(2) p(2) by (simp add: order_defs)
  ultimately have "worked s (text @ out) u files B ts k B 2"
    using u(2) by (simp add: worked_def)
  then show ?thesis
    using v(1,4) p(1) u(1) unfolding out_def msg_def by (intro exI [of _ c] exI [of _ u]) simp
qed

lemma test_heap_ok:
  fixes s :: "'a fs_scheme"
  assumes ok: "in_order s files B ts k" and room: "spare s B"
  shows "\<exists>a b c t. test_heap s = Inr t \<and> worked s (test_text a b c) t files B ts k B 2"
proof -
  define m1 m4 m5 m7 where "m1 = ''--- Heap Test Started ---'' @ [newline_char]"
    and "m4 = ''Freeing A and B...'' @ [newline_char]"
    and "m5 = ''Requesting 4MB to trigger heap expansion...'' @ [newline_char]"
    and "m7 = ''--- Heap Test Completed Successfully ---'' @ [newline_char]"
  have plain: "plain m1" "plain m4" "plain m5" "plain m7"
    by (simp_all add: m1_def m4_def m5_def m7_def plain_def)
  define fa fb fd where "fa = ''Allocated A (1KB) at 0x%x'' @ [newline_char]"
    and "fb = ''Allocated B (1KB) at 0x%x'' @ [newline_char]" and "fd = ''Data verification in A: %s'' @ [newline_char]"
  define ta tb td tc where "ta a = ''Allocated A (1KB) at 0x'' @ base_numeral 16 (unat a) @ [newline_char]"
    and "tb a = ''Allocated B (1KB) at 0x'' @ base_numeral 16 (unat a) @ [newline_char]"
    and "td = ''Data verification in A: KLMNOPQRST'' @ [newline_char]"
    and "tc a = ''Allocated C (4MB) at 0x'' @ base_numeral 16 (unat a) @ '' (Success!)'' @ [newline_char]" for a :: u32
  have rend: "render fa [PInt p] = Some (ta p)" "render fb [PInt p] = Some (tb p)"
    "render fd [PStr (Some ''KLMNOPQRST'')] = Some td" for p
    by (simp_all add: fa_def fb_def fd_def ta_def tb_def td_def)
  have own: "owned B ts"
    using ok by (simp add: order_defs)
  obtain s1 where s1: "print m1 [] s = Inr s1" "worked s ([] @ m1) s1 files B ts k B 2"
    using worked_start [OF ok room] plain(1) by (rule worked_say)
  obtain a m b n s2 where s2: "\<And>f. bind_outcome (kmalloc_call 1024 s1) (\<lambda>(a, s). bind_outcome (kmalloc_call 1024 s) (\<lambda>(b, s). f a b s)) =
      (f a b s2 :: 'a fs_scheme outcome)" "1024 \<le> m" "(unat a, m) \<notin> B" "(unat b, n) \<notin> insert (unat a, m) B"
    "worked s ([] @ m1) s2 files (insert (unat b, n) (insert (unat a, m) B)) ts k B 0"
    using two_blocks [OF s1(2)] by blast
  let ?C = "insert (unat b, n) (insert (unat a, m) B)"
  obtain s3 where s3: "print fa [PInt a] s2 = Inr s3" "worked s (([] @ m1) @ ta a) s3 files ?C ts k B 0"
    using s2(5) rend(1) by (rule worked_print)
  obtain s4 where s4: "print fb [PInt b] s3 = Inr s4" "worked s ((([] @ m1) @ ta a) @ tb b) s4 files ?C ts k B 0"
    using s3(2) rend(2) by (rule worked_print)
  obtain s5 where s5: "\<And>f. bind_outcome (store_bytes a test_data s4) (\<lambda>s. bind_outcome (finish (read_string a s)) (\<lambda>cs. f cs s)) =
      (f ''KLMNOPQRST'' s5 :: 'a fs_scheme outcome)" "worked s ((([] @ m1) @ ta a) @ tb b) s5 files ?C ts k B 0"
    using written_and_read [OF s4(2), of a m] s2(2) by auto
  obtain s6 where s6: "print fd [PStr (Some ''KLMNOPQRST'')] s5 = Inr s6"
    "worked s (((([] @ m1) @ ta a) @ tb b) @ td) s6 files ?C ts k B 0"
    using s5(2) rend(3) by (rule worked_print)
  obtain s7 where s7: "print m4 [] s6 = Inr s7" "worked s ((((([] @ m1) @ ta a) @ tb b) @ td) @ m4) s7 files ?C ts k B 0"
    using s6(2) plain(2) by (rule worked_say)
  have swap: "?C = insert (unat a, m) (insert (unat b, n) B)" "(unat a, m) \<notin> insert (unat b, n) B"
    "(unat b, n) \<notin> B" "owned (insert (unat b, n) B) ts"
    using s2(3,4) own owned_mono [OF own, of "insert (unat b, n) B"] by auto
  obtain s8 where s8: "kfree a s7 = Inr s8"
    "worked s ((((([] @ m1) @ ta a) @ tb b) @ td) @ m4) s8 files (insert (unat b, n) B) ts k B 0"
    using s7(2) [unfolded swap(1)] swap(2,4) by (rule worked_free)
  obtain s9 where s9: "kfree b s8 = Inr s9" "worked s ((((([] @ m1) @ ta a) @ tb b) @ td) @ m4) s9 files B ts k B 0"
    using s8(2) swap(3) own by (rule worked_free)
  obtain s10 where s10: "print m5 [] s9 = Inr s10"
    "worked s (((((([] @ m1) @ ta a) @ tb b) @ td) @ m4) @ m5) s10 files B ts k B 0"
    using s9(2) plain(3) by (rule worked_say)
  obtain c s11 where s11: "\<And>f. bind_outcome (kmalloc_call (4 * 1024 * 1024) s10) (\<lambda>(c, s). bind_outcome
       (if c \<noteq> 0 then
          bind_outcome (print (''Allocated C (4MB) at 0x%x (Success!)'' @ [newline_char]) [PInt c] s) (kfree c)
        else print (''Failed to allocate 4MB block!'' @ [newline_char]) [] s) f) = (f s11 :: 'a fs_scheme outcome)"
    "worked s ((((((([] @ m1) @ ta a) @ tb b) @ td) @ m4) @ m5) @ tc c) s11 files B ts k B 2"
    using large_block [OF s10(2)] unfolding tc_def [symmetric] by blast
  obtain t where t: "print m7 [] s11 = Inr t"
    "worked s (((((((([] @ m1) @ ta a) @ tb b) @ td) @ m4) @ m5) @ tc c) @ m7) t files B ts k B 2"
    using s11(2) plain(4) by (rule worked_say)
  have "test_heap s = Inr t"
    unfolding test_heap_def m1_def [symmetric] m4_def [symmetric] m5_def [symmetric] m7_def [symmetric]
      fa_def [symmetric] fb_def [symmetric] fd_def [symmetric]
    by (simp add: s1(1) s2(1) s3(1) s4(1) s5(1) s6(1) s7(1) s8(1) s9(1) s10(1) s11(1) [simplified] t(1) del: append.simps)
  moreover have "test_text a b c = (((((((([] @ m1) @ ta a) @ tb b) @ td) @ m4) @ m5) @ tc c) @ m7)"
    by (simp add: test_text_def m1_def m4_def m5_def m7_def ta_def tb_def tc_def td_def)
  ultimately show ?thesis
    using t(2) by (intro exI [of _ a] exI [of _ b] exI [of _ c] exI [of _ t]) simp
qed

section \<open>Every command\<close>

text \<open>The outcome of a command that keeps the system in order or, if \<open>h\<close>, halts the machine.\<close>

definition goes_on :: "bool \<Rightarrow> (string \<times> u8 list) list \<Rightarrow> (nat \<times> nat) set \<Rightarrow> u32 list \<Rightarrow> nat \<Rightarrow> 'a fs_scheme outcome \<Rightarrow> bool" where
  "goes_on h files B ts k res \<longleftrightarrow> h \<and> res = Inl Hang \<or> (\<exists>t. res = Inr t \<and> in_order t files B ts k \<and> spare t B)"

lemma goes_on_simps [simp]:
  "goes_on h files B ts k (Inl Hang) \<longleftrightarrow> h" "goes_on h files B ts k (Inr t) \<longleftrightarrow> in_order t files B ts k \<and> spare t B"
  by (simp_all add: goes_on_def)

lemma goes_on_print:
  "in_order s files B ts k \<Longrightarrow> spare s B \<Longrightarrow> render format args \<noteq> None \<Longrightarrow> goes_on h files B ts k (print format args s)"
  using in_order_print(1) [of s files B ts k format args] in_order_print(2) [of s files B ts k format args]
    stock_same(2) [OF in_order_print(3,4) [of s files B ts k format args]] by (cases "render format args") simp_all

lemma goes_on_weaken: "goes_on h files B ts k res \<Longrightarrow> goes_on True files B ts k res"
  by (auto simp: goes_on_def)

text \<open>The commands that stop the machine.\<close>

definition stops :: "string \<Rightarrow> bool" where
  "stops cmd \<longleftrightarrow> fst (split_space cmd) \<in> {''exit'', ''quit'', ''reboot''}"

lemma goes_on_bind:
  assumes "goes_on h files B ts k res"
    and "\<And>t. in_order t files B ts k \<Longrightarrow> spare t B \<Longrightarrow> goes_on h files B ts k (f t)"
  shows "goes_on h files B ts k (bind_outcome res f)"
proof (cases "res = Inl Hang")
  case False
  then obtain t where "res = Inr t" "in_order t files B ts k" "spare t B"
    using assms(1) by (auto simp: goes_on_def)
  then show ?thesis
    using assms(2) by simp
qed (use assms(1) in \<open>simp add: goes_on_def\<close>)

lemma goes_on_if: "(c \<Longrightarrow> goes_on h files B ts k a) \<Longrightarrow> goes_on h files B ts k b \<Longrightarrow> goes_on h files B ts k (if c then a else b)"
  by simp

lemma goes_on_lines:
  "in_order s files B ts k \<Longrightarrow> spare s B \<Longrightarrow> list_all plain ls \<Longrightarrow> goes_on h files B ts k (print_lines ls s)"
proof (induction ls arbitrary: s)
  case (Cons l ls)
  have "goes_on h files B ts k (print l [] s)"
    using Cons.prems by (intro goes_on_print) (simp_all add: render_plain)
  then show ?case
    using Cons by (auto intro!: goes_on_bind)
qed simp

lemma goes_on_all:
  "in_order s files B ts k \<Longrightarrow> spare s B \<Longrightarrow> list_all (\<lambda>fa. render (fst fa) (snd fa) \<noteq> None) fas \<Longrightarrow>
   goes_on h files B ts k (print_all fas s)"
proof (induction fas arbitrary: s)
  case (Cons fa fas)
  have "goes_on h files B ts k (print (fst fa) (snd fa) s)"
    using Cons.prems by (intro goes_on_print) simp_all
  then show ?case
    using Cons by (auto intro!: goes_on_bind)
qed simp

lemma goes_on_ui:
  assumes "in_order s files B ts k" "spare s B" "ui_change s t" "tty_inv t"
  shows "goes_on h files B ts k (Inr t)"
  using in_order_ui(1) [OF assms(1,3,4)] stock_same(2) [OF in_order_ui(2,3) [OF assms(1,3,4)]] assms(2) by simp

lemma ui_change_shape:
  "ui_change s (s\<lparr>terminal_row := r, terminal_column := c, terminal_color := k, terminal_buffer := b, io_log := l\<rparr>)"
proof -
  have "s\<lparr>terminal_row := r, terminal_column := c, terminal_color := k, terminal_buffer := b, io_log := l\<rparr> =
    s\<lparr>io_log := l, terminal_row := r, terminal_column := c, terminal_color := k, terminal_buffer := b, the_dirent := the_dirent s\<rparr>"
    by (cases s) simp
  then show ?thesis
    unfolding ui_change_def by blast
qed

lemma terminal_initialize_inv: "tty_inv (terminal_initialize s)"
  by (simp add: tty_inv_def vga_size terminal_initialize_def Let_def del: upt_rec_numeral)

lemma ui_change_initialize: "ui_change s (terminal_initialize s)"
  unfolding terminal_initialize_def Let_def update_cursor_def enable_cursor_def outb_def inb_def
  by (simp add: ui_change_shape del: upt_rec_numeral)

lemma ui_change_setcolor:
  "ui_change s (terminal_setcolor_colors fg bg s)" "tty_inv (terminal_setcolor_colors fg bg s) = tty_inv s"
proof -
  show "ui_change s (terminal_setcolor_colors fg bg s)"
    unfolding terminal_setcolor_colors_def
    using ui_change_shape [where s = s and r = "terminal_row s" and c = "terminal_column s" and k = "vga_entry_color fg bg"
      and b = "terminal_buffer s" and l = "io_log s"] by simp
qed (simp add: terminal_setcolor_colors_def tty_inv_def)

text \<open>The commands one by one.\<close>

lemma goes_on_echo: "in_order s files B ts k \<Longrightarrow> spare s B \<Longrightarrow> goes_on h files B ts k (shell_echo args s)"
  by (cases args) (auto simp: shell_echo_def intro!: goes_on_print)

lemma goes_on_setcolor:
  assumes "in_order s files B ts k" "spare s B"
  shows "goes_on h files B ts k (shell_setcolor args s)"
proof -
  have "tty_inv s"
    using assms(1) by (simp add: order_defs)
  then have "goes_on h files B ts k (Inr (terminal_setcolor_colors fg bg s))" for fg bg
    using assms by (intro goes_on_ui [of s]) (simp_all add: ui_change_setcolor)
  moreover have "goes_on h files B ts k (print (''Usage: setcolor <fg> <bg>'' @ [newline_char]) [] s)"
    using assms by (intro goes_on_print) simp_all
  ultimately show ?thesis
    unfolding shell_setcolor_def by (auto split: option.splits prod.splits)
qed

lemma goes_on_reboot: "reboot_system s = Inl Hang"
  by (cases "reboot_request s") (simp_all add: reboot_system_def finish_def)

lemma goes_on_gdtinfo:
  assumes ok: "in_order s files B ts k" and room: "spare s B"
  shows "goes_on h files B ts k (shell_gdtinfo s)"
proof -
  have color: "goes_on h files B ts k (Inr (terminal_setcolor_colors fg bg t))"
    if "in_order t files B ts k" "spare t B" for t :: "'a fs_scheme" and fg bg
    using that by (intro goes_on_ui [of t]) (auto simp: order_defs ui_change_setcolor)
  then have color': "in_order (terminal_setcolor_colors fg bg t) files B ts k" "spare (terminal_setcolor_colors fg bg t) B"
    if "in_order t files B ts k" "spare t B" for t :: "'a fs_scheme" and fg bg
    using that by simp_all
  have warn: "goes_on h files B ts k (print (''WARNING: SS selector mismatch! Check gdt_flush assembly.'' @ [newline_char]) [] t)"
    "goes_on h files B ts k (print (''Status: TSS is active and correctly loaded.'' @ [newline_char]) [] t)"
    if "in_order t files B ts k" "spare t B" for t :: "'a fs_scheme"
    using that by (intro goes_on_print; simp)+
  show ?thesis
    unfolding shell_gdtinfo_def Let_def split_beta
    by (rule goes_on_bind, rule goes_on_all [OF ok room], simp, auto intro!: goes_on_bind warn color color' simp del: append.simps)
qed

lemma goes_on_cat:
  assumes ok: "in_order s files B ts k" and room: "spare s B"
  shows "goes_on h files B ts k (shell_cat args s)"
proof (cases args)
  case None
  then show ?thesis
    using assms by (simp add: shell_cat_def) (intro goes_on_print, simp_all)
next
  case (Some name)
  have m: "mounted s files" "fs_root s = initrd_root s" "tty_lock s = 0"
    using ok by (simp_all add: order_defs)
  show ?thesis
  proof (cases "special_name name")
    case True
    then have "vfs_finddir (fs_root s) name s = Inr (initrd_root s)"
      using vfs_finddir_ok [OF m(1), of name] m(2) by (simp add: special_name_def)
    then have "shell_cat args s = print (''Cannot cat a directory.'' @ [newline_char]) [] s"
      using mounted_root [OF m(1)] m(2) Some file_node_kind(2) by (simp add: shell_cat_def)
    moreover have "goes_on h files B ts k (print (''Cannot cat a directory.'' @ [newline_char]) [] s)"
      using assms by (intro goes_on_print) simp_all
    ultimately show ?thesis
      by simp
  next
    case False
    obtain out where "shell_cat args s = Inr (show_text out s)"
      using shell_cat_ok [OF m False] Some split_space_args [of "''cat''" name] by (simp add: shell_execute_def)
    moreover have "tty_inv (show_text out s)"
      using ok by (simp add: order_defs)
    then have "goes_on h files B ts k (Inr (show_text out s))"
      by (rule goes_on_ui [OF ok room ui_change_show])
    ultimately show ?thesis
      by simp
  qed
qed

lemma goes_on_ls:
  assumes ok: "in_order s files B ts k" and room: "spare s B"
  shows "goes_on h files B ts k (shell_ls s)"
proof -
  have "mounted s files" "fs_root s = initrd_root s" "tty_lock s = 0" "tty_inv s"
    using ok by (simp_all add: order_defs)
  from shell_ls_ok [OF this] obtain t where t: "shell_ls s = Inr t" "ui_change s t" "tty_inv t"
    by (auto simp: displays_def)
  show ?thesis
    unfolding t(1) using ok room t(2,3) by (rule goes_on_ui)
qed

lemma goes_on_ps:
  assumes ok: "in_order s files B ts k" and room: "spare s B"
  shows "goes_on h files B ts k (finish (task_print_list s))"
proof -
  have "queue s ts k" "tty_lock s = 0"
    using ok by (simp_all add: order_defs)
  from task_print_list_lines [OF this] obtain out where "task_print_list s = Some (Inr (show_text out s))"
    unfolding show_text_def by blast
  then have t: "finish (task_print_list s) = Inr (show_text out s)"
    by (simp add: finish_def)
  have "tty_inv (show_text out s)"
    using ok by (simp add: order_defs)
  then show ?thesis
    unfolding t by (rule goes_on_ui [OF ok room ui_change_show])
qed

lemma lines_plain: "list_all plain help_lines" "list_all plain whatisthis_lines"
  by (simp_all add: help_lines_def whatisthis_lines_def plain_def)

lemma shell_execute_goes_on:
  fixes s :: "'a fs_scheme"
  assumes ok: "in_order s files B ts k" and room: "spare s B"
  shows "goes_on (stops cmd) files B ts k (shell_execute cmd s)"
proof -
  let ?h = "stops cmd"
  note pr = goes_on_print [OF ok room]
  have say: "goes_on h files B ts k (print cs [] s)" if "plain cs" for cs h
    using that by (intro pr) (simp add: render_plain)
  show ?thesis
  proof (cases "cmd = []")
    case True
    then show ?thesis
      using ok room by (simp add: shell_execute_def)
  next
    case False
    obtain name args where n: "split_space cmd = (name, args)"
      by fastforce
    have heap: "goes_on ?h files B ts k (test_heap s)"
      using test_heap_ok [OF ok room] by (auto simp: worked_def spare_stock)
    have clear: "goes_on ?h files B ts k (Inr (terminal_initialize s))"
      using ok room ui_change_initialize terminal_initialize_inv by (rule goes_on_ui)
    have stop: "goes_on ?h files B ts k (bind_outcome (print cs [] s) f)"
      if "plain cs" "name \<in> {''exit'', ''quit'', ''reboot''}" "\<And>t. f t = Inl Hang" for cs f
      using say [OF that(1)] by (rule goes_on_bind) (use that(2,3) n in \<open>simp add: stops_def\<close>)
    have halt: "name = ''exit'' \<or> name = ''quit'' \<Longrightarrow> goes_on ?h files B ts k (bind_outcome (print cs [] s) (\<lambda>_. Inl Hang))"
      "name = ''reboot'' \<Longrightarrow> goes_on ?h files B ts k (bind_outcome (print cs [] s) reboot_system)" if "plain cs" for cs
      by (rule stop [OF that]; auto simp: goes_on_reboot)+
    have mem: "goes_on ?h files B ts k (shell_meminfo s)"
      unfolding shell_meminfo_def Let_def by (rule goes_on_all [OF ok room]) simp
    have up: "goes_on ?h files B ts k (shell_uptime s)"
      "goes_on ?h files B ts k (print (''Unknown command: %s'' @ [newline_char]) [PStr (Some name)] s)"
      using pr by (simp_all add: shell_uptime_def Let_def)
    have plain: "plain (''System halting... Safe to power off.'' @ [newline_char])" "plain (''Rebooting system...'' @ [newline_char])"
      "plain (''KevOS Version 0.1 (i386 Protected Mode)'' @ [newline_char])"
      by (simp_all add: plain_def)
    note each = halt(1) [OF plain(1)] halt(2) [OF plain(2)] say [OF plain(3)] heap clear mem up goes_on_echo [OF ok room]
      goes_on_setcolor [OF ok room] goes_on_gdtinfo [OF ok room] goes_on_cat [OF ok room] goes_on_ls [OF ok room]
      goes_on_ps [OF ok room] goes_on_lines [OF ok room lines_plain(1)] goes_on_lines [OF ok room lines_plain(2)]
    show ?thesis
      unfolding shell_execute_def n Let_def prod.case if_not_P [OF False] by (intro goes_on_if each)
  qed
qed

section \<open>The reader and the rounds of the shell\<close>

text \<open>
  While the shell waits for a key, interrupts of the devices arrive: any line but that of the
  timer, whose handler would switch to another task.
\<close>

definition device_irq :: "regs \<Rightarrow> bool" where
  "device_irq r \<longleftrightarrow> 32 < r_int_no r \<and> r_int_no r < 48"

lemma key_change_advance: "key_change s (kbd_advance s)"
  by (cases s) (simp add: key_change_def kbd_advance_def kbd_ok_def KBD_BUFFER_SIZE_def unat_mod)

lemma device_irq_handled:
  assumes "device_irq r" "length (irq_routines s) = 16"
  shows "\<exists>t. irq_handler ret r s = Inr t \<and> key_change s t"
proof -
  have "32 \<le> r_int_no r" "r_int_no r \<noteq> 32" "r_int_no r < 48"
    using assms(1) by (auto simp: device_irq_def)
  moreover from this have "unat (r_int_no r - 32) < 16"
    by (subst unat_sub) (simp_all add: word_less_nat_alt)
  moreover have "key_change s (case irq_routines s ! unat (r_int_no r - 32) of None \<Rightarrow> s | Some f \<Rightarrow> run_routine f s)"
  proof (cases "irq_routines s ! unat (r_int_no r - 32)")
    case None
    then show ?thesis
      by (cases s) (simp add: key_change_def)
  next
    case (Some f)
    then show ?thesis
      using key_change_handler by (cases f) simp
  qed
  ultimately show ?thesis
    using assms(2) key_change_trans [OF _ key_change_eoi] by (simp add: irq_handler_def Let_def)
qed

text \<open>\<open>ends Q res\<close>: the run halts, or waits for ever, or ends in a result with \<open>Q\<close>; it is never undefined.\<close>

definition ends :: "('b \<Rightarrow> bool) \<Rightarrow> 'b outcome \<Rightarrow> bool" where
  "ends Q res \<longleftrightarrow> res = Inl Hang \<or> (\<exists>x. res = Inr x \<and> Q x)"

lemma ends_simps [simp]: "ends Q (Inl Hang)" "ends Q (Inr x) \<longleftrightarrow> Q x" "\<not> ends Q (Inl Wild)"
  by (simp_all add: ends_def)

lemma ends_bind: "ends Q res \<Longrightarrow> (\<And>x. Q x \<Longrightarrow> ends R (f x)) \<Longrightarrow> ends R (bind_outcome res f)"
  by (cases res) (auto simp: ends_def)

lemma goes_on_ends: "goes_on True files B ts k = ends (\<lambda>t. in_order t files B ts k \<and> spare t B)"
  by (simp add: fun_eq_iff goes_on_def ends_def)

text \<open>The invariant of the session: the system is in order, and the interrupts to come are those of devices.\<close>

definition session_ok :: "(string \<times> u8 list) list \<Rightarrow> (nat \<times> nat) set \<Rightarrow> u32 list \<Rightarrow> nat \<Rightarrow> regs list \<times> 'a fs_scheme \<Rightarrow> bool" where
  "session_ok files B ts k = (\<lambda>(rs, s). list_all device_irq rs \<and> in_order s files B ts k \<and> spare s B)"

lemma session_key:
  assumes ok: "in_order s files B ts k" and room: "spare s B" and ch: "key_change s t"
  shows "in_order t files B ts k" "spare t B"
proof -
  have same: "heap_same s t" "tasks t = tasks s" "ready_queue t = ready_queue s" "current_task t = current_task s"
    "same_disk s t" "fs_root t = fs_root s" "tty_lock t = tty_lock s" and f: "irq_routines t = irq_routines s" "tty_inv t = tty_inv s"
    using ch by (auto simp: key_change_def heap_same_def same_disk_def tty_inv_def)
  have "tty_inv t" "keys_ok t"
    using ok ch f by (simp_all add: order_defs keys_ok_def key_change_def)
  note s = in_order_same [OF ok same this]
  show "in_order t files B ts k" "spare t B"
    using s(1) stock_same(2) [OF s(2,3)] room by simp_all
qed

lemma getchar_goes_on:
  "session_ok files B ts k (rs, s) \<Longrightarrow> ends (\<lambda>(c, x). session_ok files B ts k x) (getchar_wait ret rs s)"
proof (induction rs arbitrary: s)
  case Nil
  then have "in_order s files B ts k" "spare s B"
    by (simp_all add: session_ok_def)
  from session_key [OF this key_change_advance] show ?case
    by (subst getchar_wait.simps) (auto simp: keyboard_getchar_def session_ok_def split: option.split)
next
  case (Cons r rs)
  then have s: "in_order s files B ts k" "spare s B" "device_irq r" "list_all device_irq rs"
    by (simp_all add: session_ok_def)
  obtain t where t: "irq_handler ret r s = Inr t" "key_change s t"
    using device_irq_handled [OF s(3), of s] s(1) by (auto simp: order_defs keys_ok_def)
  have "session_ok files B ts k (rs, t)" "session_ok files B ts k (r # rs, kbd_advance s)"
    using session_key [OF s(1,2) t(2)] session_key [OF s(1,2) key_change_advance] s(3,4) by (simp_all add: session_ok_def)
  then show ?case
    using t(1) Cons.IH by (subst getchar_wait.simps) (auto simp: keyboard_getchar_def split: option.split)
qed

lemma putchar_goes_on:
  assumes "session_ok files B ts k (rs, s)"
  shows "\<exists>t. terminal_putchar c s = Inr t \<and> session_ok files B ts k (rs, t)"
proof -
  have s: "in_order s files B ts k" "spare s B" "tty_lock s = 0" "tty_inv (show_text [c] s)"
    using assms by (simp_all add: session_ok_def order_defs)
  then show ?thesis
    using goes_on_ui [OF s(1,2) ui_change_show s(4)] putchar_shows [OF s(3)] assms by (simp add: session_ok_def)
qed

lemma readline_goes_on:
  fixes s :: "'a fs_scheme"
  assumes "readline_loop ret max_len buf rs s = Some res" "session_ok files B ts k (rs, s)"
  shows "ends (\<lambda>(line, x). session_ok files B ts k x) res"
proof (rule readline_loop.raw_induct [where P = "\<lambda>ret max_len buf rs s res.
    session_ok files B ts k (rs, s) \<longrightarrow> ends (\<lambda>(line, x). session_ok files B ts k x) res", OF _ assms(1), THEN mp, OF _ assms(2)])
  fix rec :: "u32 \<Rightarrow> u32 \<Rightarrow> string \<Rightarrow> regs list \<Rightarrow> 'a fs_scheme \<Rightarrow> (string \<times> regs list \<times> 'a fs_scheme) outcome option"
    and ret max_len :: u32 and buf :: string and rs :: "regs list" and s :: "'a fs_scheme"
    and res :: "(string \<times> regs list \<times> 'a fs_scheme) outcome"
  assume IH: "\<And>ret max_len buf rs s res. rec ret max_len buf rs s = Some res \<Longrightarrow> session_ok files B ts k (rs, s) \<longrightarrow>
      ends (\<lambda>(line, x). session_ok files B ts k x) res"
    and step: "(if of_nat (length buf) < max_len - 1 then
        (case getchar_wait ret rs s of
           Inl e \<Rightarrow> Some (Inl e)
         | Inr (c, rs, s) \<Rightarrow>
             if c = newline_char then
               Some (bind_outcome (terminal_putchar newline_char s) (\<lambda>s. Inr (buf, rs, s)))
             else if c = backspace_char then
               (if buf = [] then rec ret max_len buf rs s
                else (case terminal_putchar backspace_char s of
                  Inl e \<Rightarrow> Some (Inl e)
                | Inr s \<Rightarrow> rec ret max_len (butlast buf) rs s))
             else
               (case terminal_putchar c s of
                  Inl e \<Rightarrow> Some (Inl e)
                | Inr s \<Rightarrow> rec ret max_len (buf @ [c]) rs s))
      else Some (Inr (buf, rs, s))) = Some res"
  show "session_ok files B ts k (rs, s) \<longrightarrow> ends (\<lambda>(line, x). session_ok files B ts k x) res"
  proof
    assume ok: "session_ok files B ts k (rs, s)"
    show "ends (\<lambda>(line, x). session_ok files B ts k x) res"
    proof (cases "of_nat (length buf) < max_len - 1")
      case True
      from getchar_goes_on [OF ok, of ret] consider "getchar_wait ret rs s = Inl Hang"
        | c rs' t where "getchar_wait ret rs s = Inr (c, rs', t)" "session_ok files B ts k (rs', t)"
        by (auto simp: ends_def)
      then show ?thesis
      proof cases
        case 1
        then show ?thesis
          using step True by auto
      next
        case 2
        obtain u where "terminal_putchar c t = Inr u" "session_ok files B ts k (rs', u)"
          using putchar_goes_on [OF 2(2)] by blast
        then show ?thesis
          using step True 2 IH by (auto split: if_splits)
      qed
    next
      case False
      then show ?thesis
        using step ok by auto
    qed
  qed
qed

lemma session_goes_on:
  assumes "list_all device_irq rs" "goes_on True files B ts k res"
  shows "ends (session_ok files B ts k) (bind_outcome res (\<lambda>s. Inr (rs, s)))"
  using assms by (auto simp: goes_on_def session_ok_def)

lemma say_goes_on:
  assumes "in_order t files B ts k \<and> spare t B" "plain cs"
  shows "\<exists>u. print cs [] t = Inr u \<and> in_order u files B ts k \<and> spare u B"
  using goes_on_print [of t files B ts k cs "[]" False] assms by (simp add: goes_on_def render_plain)

lemma shell_readline_goes_on:
  assumes "session_ok files B ts k (rs, s)"
  shows "ends (\<lambda>(line, x). session_ok files B ts k x) (shell_readline ret 128 rs s)"
proof (cases "readline_loop ret 128 [] rs s")
  case None
  then show ?thesis
    by (simp add: shell_readline_def finish_def)
next
  case (Some res)
  then have "ends (\<lambda>(line, x). session_ok files B ts k x) res"
    using assms by (rule readline_goes_on)
  then show ?thesis
    unfolding shell_readline_def Some finish_def option.case by (rule ends_bind) auto
qed

text \<open>A command and the line after it.\<close>

lemma shell_command_goes_on:
  assumes "session_ok files B ts k (rs, s)"
  shows "(stops cmd \<and> shell_execute cmd s = Inl Hang) \<or>
    (\<exists>t. bind_outcome (shell_execute cmd s) (\<lambda>s. bind_outcome (print [newline_char] [] s) (\<lambda>s. Inr (rs, s))) = Inr (rs, t) \<and>
       session_ok files B ts k (rs, t))"
proof -
  have s: "in_order s files B ts k" "spare s B" "list_all device_irq rs"
    using assms by (simp_all add: session_ok_def)
  have nl: "plain [newline_char]"
    by (simp add: plain_def)
  from shell_execute_goes_on [OF s(1,2), of cmd] show ?thesis
    unfolding goes_on_def
  proof (elim disjE exE conjE)
    fix t
    assume t: "shell_execute cmd s = Inr t" "in_order t files B ts k" "spare t B"
    then obtain u where "print [newline_char] [] t = Inr u" "in_order u files B ts k" "spare u B"
      using say_goes_on [of t files B ts k, OF _ nl] by blast
    with t(1) s(3) show ?thesis
      by (intro disjI2 exI [of _ u]) (simp add: session_ok_def)
  qed simp
qed

lemma shell_round_goes_on:
  assumes "session_ok files B ts k x"
  shows "ends (session_ok files B ts k) (shell_round ret x)"
proof -
  obtain rs s where x: "x = (rs, s)" "list_all device_irq rs" "in_order s files B ts k \<and> spare s B"
    using assms by (cases x) (auto simp: session_ok_def)
  have "plain ''kevos> ''"
    by (simp add: plain_def)
  then obtain t where t: "print ''kevos> '' [] s = Inr t" "session_ok files B ts k (rs, t)"
    using say_goes_on [OF x(3)] x(2) by (auto simp: session_ok_def)
  from shell_readline_goes_on [OF t(2), of ret]
  have "ends (session_ok files B ts k) (bind_outcome (shell_readline ret 128 rs t) (\<lambda>(buffer, rs, s).
      bind_outcome (shell_execute buffer s) (\<lambda>s. bind_outcome (print [newline_char] [] s) (\<lambda>s. Inr (rs, s)))))"
  proof (rule ends_bind)
    fix y
    assume "(\<lambda>(line :: string, x). session_ok files B ts k x) y"
    then obtain cmd qs u where y: "y = (cmd, qs, u)" "session_ok files B ts k (qs, u)"
      by (cases y) auto
    from shell_command_goes_on [OF this(2), of cmd]
    show "ends (session_ok files B ts k) ((\<lambda>(buffer, rs, s).
      bind_outcome (shell_execute buffer s) (\<lambda>s. bind_outcome (print [newline_char] [] s) (\<lambda>s. Inr (rs, s)))) y)"
      unfolding y(1) prod.case by (elim disjE exE conjE) simp_all
  qed
  then show ?thesis
    using t(1) by (simp add: shell_round_def x(1))
qed

text \<open>With a line typed ahead the round comes to its end, unless the command stops the machine.\<close>

lemma shell_round_ok:
  assumes ok: "session_ok files B ts k (rs, s)" and line: "kbd_contents s = cs @ newline_char # rest"
    and "newline_char \<notin> set cs" "nul \<notin> set cs" "length cs < 127" "\<not> stops (edited cs)"
  shows "\<exists>t. shell_round ret (rs, s) = Inr (rs, t) \<and> session_ok files B ts k (rs, t)"
proof -
  have s: "in_order s files B ts k \<and> spare s B" "list_all device_irq rs" "tty_lock s = 0"
    using ok by (simp_all add: session_ok_def order_defs)
  have "render ''kevos> '' [] = Some ''kevos> ''"
    by (rule render_plain) (simp add: plain_def)
  from print_shows [OF s(3) this] have p: "print ''kevos> '' [] s = Inr (show_text ''kevos> '' s)" .
  then have t: "session_ok files B ts k (rs, show_text ''kevos> '' s)"
    using say_goes_on [OF s(1), of "''kevos> ''"] s(2) by (simp add: session_ok_def plain_def)
  have "kbd_contents (show_text ''kevos> '' s) = cs @ newline_char # rest"
    using line by simp
  moreover have "kbd_ok (show_text ''kevos> '' s)" "tty_lock (show_text ''kevos> '' s) = 0" "tty_inv (show_text ''kevos> '' s)"
    "length cs + 1 < unat (128 :: u32)"
    using t assms(5) by (simp_all add: session_ok_def order_defs keys_ok_def)
  ultimately obtain u where u: "shell_readline ret 128 rs (show_text ''kevos> '' s) = Inr (edited cs, rs, u)"
    using shell_readline_ok assms(3,4) by metis
  have "session_ok files B ts k (rs, u)"
    using shell_readline_goes_on [OF t, of ret] unfolding u by simp
  from shell_command_goes_on [OF this, of "edited cs"] show ?thesis
    using assms(6) p u by (auto simp: shell_round_def)
qed

lemma shell_rounds_go_on:
  "session_ok files B ts k x \<Longrightarrow> ends (session_ok files B ts k) (shell_rounds n ret x)"
  by (induction n arbitrary: x) (auto intro: ends_bind shell_round_goes_on)

lemma shell_main_goes_on:
  assumes "session_ok files B ts k x"
  shows "ends (session_ok files B ts k) (shell_main n ret x)"
proof -
  obtain rs s where x: "x = (rs, s)" "list_all device_irq rs" "in_order s files B ts k" "spare s B"
    using assms by (cases x) (auto simp: session_ok_def)
  define ls where "ls = [[newline_char] @ ''--- KevOS Shell v0.1 ---'' @ [newline_char],
          ''Type 'help' for a list of commands.'' @ [newline_char, newline_char]]"
  have "list_all plain ls"
    by (simp add: ls_def plain_def)
  then have "ends (\<lambda>t. in_order t files B ts k \<and> spare t B) (print_lines ls s)"
    using goes_on_lines [OF x(3,4), of ls True] by (simp add: goes_on_ends)
  then show ?thesis
    unfolding shell_main_def x(1) prod.case ls_def [symmetric]
  proof (rule ends_bind)
    fix t
    assume "in_order t files B ts k \<and> spare t B"
    then show "ends (session_ok files B ts k) (shell_rounds n ret (rs, t))"
      using x(2) by (intro shell_rounds_go_on) (simp add: session_ok_def)
  qed
qed

end
