(* ===== verification/Boot.thy ===== *)
theory Boot
  imports Kernel Session
begin

text \<open>
  The start of the kernel from power on to the shell: what \<open>kernel_boot\<close> leaves behind, composed
  from the statements about the allocator, paging, the heap, the RAM disk and the tasks. The boot
  information and the image of the RAM disk lie in memory that the memory map does not offer, so
  no step of the set-up writes there; \<open>kept_low\<close> carries them from one step to the next.
\<close>

section \<open>The memory that the boot loader describes\<close>

text \<open>
  The regions of the memory map, the bitmap behind the kernel, the pages that are in use after
  \<open>pmm_init\<close>, and the bytes below 4 MB that stay untouched: their page is in use and is not one
  of the bitmap.
\<close>

definition bitmap_size :: "region list \<Rightarrow> nat" where
  "bitmap_size es = (memory_end es div 4096 + 7) div 8"

definition boot_bitmap :: "symbols \<Rightarrow> region list \<Rightarrow> u32 \<Rightarrow> bool" where
  "boot_bitmap ks es = in_range (sym_kernel_end ks - KERNEL_VIRT_BASE) (bitmap_size es)"

definition boot_used :: "symbols \<Rightarrow> region list \<Rightarrow> nat set" where
  "boot_used ks es = {i. i < memory_end es div 4096 \<and>
     ((\<forall>r \<in> set es. i \<notin> available r) \<or>
      unat (sym_kernel_start ks - KERNEL_VIRT_BASE) div 4096 \<le> i \<and>
      i * 4096 < unat (sym_kernel_end ks - KERNEL_VIRT_BASE) + bitmap_size es)}"

definition boot_free :: "symbols \<Rightarrow> region list \<Rightarrow> nat set" where
  "boot_free ks es = {..<memory_end es div 4096} - boot_used ks es"

definition reserved :: "symbols \<Rightarrow> region list \<Rightarrow> u32 \<Rightarrow> bool" where
  "reserved ks es a \<longleftrightarrow> unat a < 4194304 \<and> page_no a \<in> boot_used ks es \<and>
     (\<forall>b. page_no b = page_no a \<longrightarrow> \<not> boot_bitmap ks es b)"

text \<open>The map is readable, the kernel and its bitmap fit below its end, and \<open>r\<close> pages can be added to the heap.\<close>

definition boot_map :: "symbols \<Rightarrow> u32 \<Rightarrow> u32 \<Rightarrow> region list \<Rightarrow> nat \<Rightarrow> 'a pmm_scheme \<Rightarrow> bool" where
  "boot_map ks addr len es r s \<longleftrightarrow> (\<forall>x \<in> set es. region_low x) \<and>
     unat (sym_kernel_start ks - KERNEL_VIRT_BASE) \<le> unat (sym_kernel_end ks - KERNEL_VIRT_BASE) \<and>
     unat (sym_kernel_end ks - KERNEL_VIRT_BASE) + bitmap_size es \<le> memory_end es div 4096 * 4096 \<and>
     unat (sym_kernel_end ks - KERNEL_VIRT_BASE) + bitmap_size es + 4095 < 4294967296 \<and>
     mmap_at (boot_bitmap ks es) (mem s) (addr + len) addr es \<and>
     2 \<le> card (boot_free ks es \<inter> {..<1024}) \<and> 2 * (r + 512) + 2 \<le> card (boot_free ks es) \<and>
     4096 * (r + 512) \<le> heap_limit - heap_start"

lemma boot_bitmap_used:
  assumes "boot_map ks addr len es r s" "boot_bitmap ks es a"
  shows "page_no a \<in> boot_used ks es"
proof -
  let ?e = "unat (sym_kernel_end ks - KERNEL_VIRT_BASE)" and ?k = "unat (sym_kernel_start ks - KERNEL_VIRT_BASE)"
  have a: "?e \<le> unat a" "unat a < ?e + bitmap_size es"
    using assms(2) by (simp_all add: boot_bitmap_def in_range_def)
  have "unat a < memory_end es div 4096 * 4096"
    using a(2) assms(1) by (simp add: boot_map_def)
  then have "page_no a < memory_end es div 4096"
    unfolding page_no_def by (simp only: div_less_iff_less_mult)
  moreover have "?k div 4096 \<le> page_no a"
    unfolding page_no_def using a(1) assms(1) by (intro div_le_mono) (simp add: boot_map_def)
  moreover have "page_no a * 4096 \<le> unat a"
    by (simp add: page_no_def)
  then have "page_no a * 4096 < ?e + bitmap_size es"
    using a(2) by simp
  ultimately show ?thesis
    by (simp add: boot_used_def)
qed

lemma two_members:
  assumes "2 \<le> card (S \<inter> {..<n :: nat})"
  obtains i j where "i \<in> S" "j \<in> S" "i \<noteq> j" "i < n" "j < n"
proof -
  have "finite (S \<inter> {..<n})"
    by simp
  with assms obtain T where "T \<subseteq> S \<inter> {..<n}" "card T = 2"
    by (metis obtain_subset_with_card_n)
  then show thesis
    using that by (auto simp: card_2_iff)
qed

section \<open>Steps that only reach the terminal and the ports\<close>

definition console_change :: "'a tty_scheme \<Rightarrow> 'a tty_scheme \<Rightarrow> bool" where
  "console_change s t \<longleftrightarrow>
     (\<exists>l r c b. t = s\<lparr>io_log := l, terminal_row := r, terminal_column := c, terminal_buffer := b\<rparr>) \<and>
     (tty_inv s \<longrightarrow> tty_inv t)"

lemma console_change_refl: "console_change s s"
  unfolding console_change_def
  by (intro conjI impI exI [of _ "io_log s"] exI [of _ "terminal_row s"] exI [of _ "terminal_column s"] exI [of _ "terminal_buffer s"]) simp

lemma console_change_trans: "console_change s t \<Longrightarrow> console_change t u \<Longrightarrow> console_change s u"
  unfolding console_change_def by (cases s) auto

lemma console_change_heap:
  fixes s t :: "'a heap_scheme"
  assumes "console_change s t"
  shows "heap_ok t = heap_ok s" "heap_room t = heap_room s" "heap_free t = heap_free s" "tty_lock t = tty_lock s"
proof -
  have "heap_same s t"
    using assms by (auto simp: console_change_def heap_same_def)
  from heap_same_ok [OF this] assms
  show "heap_ok t = heap_ok s" "heap_room t = heap_room s" "heap_free t = heap_free s" "tty_lock t = tty_lock s"
    by (auto simp: console_change_def)
qed

lemma console_change_low:
  fixes s t :: "'a heap_scheme"
  assumes "console_change s t"
  shows "kept_low t a = kept_low s a" "mem t = mem s"
proof -
  show "mem t = mem s"
    using assms by (auto simp: console_change_def)
  show "kept_low t a = kept_low s a"
    using assms by (intro kept_low_same) (auto simp: console_change_def)
qed

lemma print_console:
  assumes "tty_lock s = 0" "render format args \<noteq> None"
  shows "\<exists>t. print format args s = Inr t \<and> console_change s t"
proof -
  obtain l r c b where "print format args s =
      Inr (s\<lparr>io_log := l, terminal_row := r, terminal_column := c, terminal_buffer := b\<rparr>)"
    "tty_inv s \<longrightarrow> tty_inv (s\<lparr>io_log := l, terminal_row := r, terminal_column := c, terminal_buffer := b\<rparr>)"
    using assms by (rule print_returns)
  then show ?thesis
    unfolding console_change_def by blast
qed

lemma pit_init_returns:
  assumes "tty_lock s = 0" "frequency \<noteq> 0"
  shows "\<exists>t. pit_init frequency s = Inr t \<and> console_change s t"
proof -
  define d where "d = PIT_BASE_FREQUENCY div frequency"
  define u where "u = outb PIT_CHANNEL0_DATA (ucast (drop_bit 8 d AND 0xFF))
    (outb PIT_CHANNEL0_DATA (ucast (d AND 0xFF)) (outb PIT_COMMAND_PORT 0x36 s))"
  define msg where "msg = ''PIT initialized to %d Hz.'' @ [newline_char]"
  have "tty_lock u = 0" "render msg [PInt frequency] \<noteq> None"
    using assms(1) by (simp_all add: u_def outb_def msg_def)
  from print_console [OF this] obtain t where t: "print msg [PInt frequency] u = Inr t" "console_change u t"
    by blast
  have "console_change s u"
    unfolding console_change_def u_def outb_def by (cases s) (auto simp: tty_inv_def)
  with t assms(2) show ?thesis
    unfolding pit_init_def msg_def [symmetric] Let_def d_def [symmetric] u_def [symmetric]
    using console_change_trans by auto
qed

lemma syscall_init_returns: "tty_lock s = 0 \<Longrightarrow> \<exists>t. syscall_init s = Inr t \<and> console_change s t"
  unfolding syscall_init_def by (rule print_console) simp_all

lemma print_lines_returns:
  "tty_lock s = 0 \<Longrightarrow> list_all plain ls \<Longrightarrow> \<exists>t. print_lines ls s = Inr t \<and> console_change s t"
proof (induction ls arbitrary: s)
  case Nil
  show ?case
    by (simp add: console_change_refl)
next
  case (Cons l ls)
  obtain u where u: "print l [] s = Inr u" "console_change s u"
    using print_console [OF Cons.prems(1), of l "[]"] Cons.prems(2) by (auto simp: render_plain)
  have "tty_lock u = 0"
    using u(2) Cons.prems(1) by (auto simp: console_change_def)
  then show ?case
    using Cons.IH [of u] Cons.prems(2) u console_change_trans by fastforce
qed

lemma boot_memory_ok:
  fixes s :: "'a heap_scheme"
  assumes map: "boot_map ks addr len es r s" and lock: "tty_lock s = 0" and end_: "heap_current_end s = KHEAP_START"
  shows "\<exists>t. boot_memory ks addr len s = Inr t \<and> heap_ok t {} \<and> heap_room t r \<and> heap_free t {} 2097136 \<and>
    tty_lock t = 0 \<and> (\<forall>a. reserved ks es a \<longrightarrow> kept_low t a \<and> mem t a = mem s a) \<and>
    owns_frames t {page_no a | a. reserved ks es a} heap_start \<and> (tty_inv s \<longrightarrow> tty_inv t) \<and>
    kbd_ok t = kbd_ok s \<and> heap.more t = heap.more s"
proof -
  let ?p = "sym_kernel_end ks - KERNEL_VIRT_BASE"
  note m = map [unfolded boot_map_def boot_bitmap_def]
  have "\<forall>r \<in> set es. region_low r" "bitmap_size es = (memory_end es div 4096 + 7) div 8"
    "unat ?p + bitmap_size es + 4095 < 4294967296" "mmap_at (in_range ?p (bitmap_size es)) (mem s) (addr + len) addr es"
    using m by (simp_all add: bitmap_size_def)
  from pmm_init_ok [OF lock this] obtain a where a: "pmm_init (sym_kernel_start ks) (sym_kernel_end ks) addr len s = Inr a"
    "pmm_ok a" "tty_lock a = 0" "pmm_bitmap a = ?p" "unat (pmm_max_blocks a) = memory_end es div 4096"
    "used_pages a = boot_used ks es" "pmm_change s a" "\<And>x. \<not> in_range ?p (bitmap_size es) x \<Longrightarrow> mem a x = mem s x"
    unfolding boot_used_def by blast
  have bm: "in_bitmap a = boot_bitmap ks es"
    by (simp add: fun_eq_iff in_bitmap_def boot_bitmap_def a(4,5) bitmap_size_def)
  have free: "free_pages a = boot_free ks es"
    by (simp add: free_pages_eq boot_free_def a(5,6))
  obtain i j where ij: "i \<in> free_pages a" "j \<in> free_pages a" "i \<noteq> j" "i < 1024" "j < 1024"
    unfolding free using m two_members [of "boot_free ks es" 1024] by blast
  have "\<forall>x. in_bitmap a x \<longrightarrow> page_no x \<in> used_pages a"
    unfolding bm a(6) using boot_bitmap_used [OF map] by blast
  from vmm_init_ok [OF a(3,2) this ij] obtain b where b: "vmm_init a = Inr b" "vmm_ok b" "tty_lock b = 0"
    "card (free_pages a) = card (free_pages b) + 2" "free_pages b \<subseteq> free_pages a - {Min (free_pages a)}" "vmm_change a b"
    "\<And>v. dir_index v \<noteq> 1023 \<Longrightarrow> translate (mem b) (cr3 b) v =
       (if dir_index v \<in> {0, 768} then Some (take_bit 22 v) else None)"
    "\<And>n. n \<in> used_pages a \<Longrightarrow> \<forall>x. page_no x = n \<longrightarrow> \<not> in_bitmap a x \<Longrightarrow>
       foreign_page b n \<and> (\<forall>x. page_no x = n \<longrightarrow> mem b x = mem a x)"
    by blast
  have null: "0 \<notin> free_pages b"
    using b(5) Min_le [OF finite_free_pages, of 0 a] by auto
  have e: "heap_current_end b = KHEAP_START"
    using b(6) a(7) end_ by (auto simp: vmm_change_def pmm_change_def)
  have "heap_room b (r + 512)"
    using m b(4) by (simp add: heap_room_def free e heap_bounds KHEAP_START_def)
  from kheap_init_ok [OF b(3,2) null e this] obtain c where c: "kheap_init b = Inr c" "heap_ok c {}" "heap_room c r"
    "tty_lock c = 0" "init_change b c" "heap_free c {} 2097136"
    by blast
  have low: "kept_low b x \<and> mem b x = mem s x" if x: "reserved ks es x" for x
  proof -
    have "foreign_page b (page_no x)" "mem b x = mem a x"
      using b(8) [of "page_no x"] x unfolding a(6) bm by (simp_all add: reserved_def)
    moreover have "dir_index x = 0" "take_bit 22 x = x"
      using x by (simp_all add: reserved_def dir_index_div word_unat_eq_iff unsigned_take_bit_eq take_bit_nat_eq_self)
    then have "translate (mem b) (cr3 b) x = Some x"
      using b(7) [of x] by simp
    moreover have "mem a x = mem s x"
      using x by (intro a(8)) (auto simp: reserved_def boot_bitmap_def)
    ultimately show ?thesis
      using x by (simp add: kept_low_def reserved_def)
  qed
  obtain d where d: "pit_init 100 c = Inr d" "console_change c d"
    using pit_init_returns [OF c(4), of 100] by auto
  have ld: "tty_lock d = 0"
    using d(2) c(4) by (auto simp: console_change_def)
  obtain t where t: "syscall_init d = Inr t" "console_change d t"
    using syscall_init_returns [OF ld] by blast
  have ct: "console_change c t"
    using d(2) t(2) by (rule console_change_trans)
  have "{page_no x | x. reserved ks es x} \<subseteq> used_pages b"
    using low by (auto simp: kept_low_def foreign_page_def)
  moreover have "owns_frames c (used_pages b) heap_start"
    using c(5) by (simp add: init_change_def maps_kept_def e KHEAP_START_def heap_start_def)
  ultimately have "owns_frames c {page_no x | x. reserved ks es x} heap_start"
    using owns_frames_less by blast
  then have own: "owns_frames t {page_no x | x. reserved ks es x} heap_start"
    using maps_kept_cong(3) [of t c] ct by (auto simp: console_change_def)
  have "kbd_ok a = kbd_ok s \<and> heap.more a = heap.more s"
    using a(7) by (auto simp: pmm_change_def kbd_ok_def)
  moreover have "kbd_ok b = kbd_ok a \<and> heap.more b = heap.more a"
    using b(6) by (auto simp: vmm_change_def kbd_ok_def)
  moreover have "kbd_ok c = kbd_ok b \<and> heap.more c = heap.more b"
    using c(5) by (auto simp: init_change_def kbd_ok_def)
  moreover have "kbd_ok t = kbd_ok c \<and> heap.more t = heap.more c"
    using ct by (auto simp: console_change_def kbd_ok_def)
  ultimately have rest: "kbd_ok t = kbd_ok s" "heap.more t = heap.more s"
    by simp_all
  have inv: "tty_inv s \<longrightarrow> tty_inv t"
    using a(7) b(6) c(5) ct by (simp add: pmm_change_def vmm_change_def init_change_def console_change_def)
  have "boot_memory ks addr len s = Inr t"
    using a(1) b(1) c(1) d(1) t(1) by (simp add: boot_memory_def)
  moreover have "kept_low t x \<and> mem t x = mem s x" if x: "reserved ks es x" for x
  proof -
    have "maps_kept b c" "heap_start \<le> unat (heap_current_end b)"
      using c(5) by (simp_all add: init_change_def e heap_bounds KHEAP_START_def)
    then have "kept_low c x" "mem c x = mem s x"
      using low [OF x] kept_low_trans [of b x c] by simp_all
    then show ?thesis
      using console_change_low [OF ct] by simp
  qed
  ultimately show ?thesis
    using c(2,3,4,6) own inv rest console_change_heap [OF ct] by (intro exI [of _ t]) simp
qed

section \<open>The devices\<close>

text \<open>The set-up of the processor tables and the devices touches neither memory nor the heap.\<close>

definition untouched :: "'a irq_scheme \<Rightarrow> 'a irq_scheme \<Rightarrow> bool" where
  "untouched s t \<longleftrightarrow> mem t = mem s \<and> heap_current_end t = heap_current_end s \<and> tty_lock t = tty_lock s \<and>
     irq_routines t = irq_routines s \<and> (tty_inv s \<longrightarrow> tty_inv t) \<and> kbd_ok t = kbd_ok s"

lemma untouched_trans: "untouched s t \<Longrightarrow> untouched t u \<Longrightarrow> untouched s u"
  by (simp add: untouched_def)

lemma untouched_console: "console_change s t \<Longrightarrow> untouched s t"
  by (auto simp: console_change_def untouched_def kbd_ok_def)

lemma untouched_terminal: "untouched s (terminal_initialize s)"
  by (simp add: untouched_def terminal_initialize_inv kbd_ok_def) (simp add: terminal_initialize_def Let_def update_cursor_def enable_cursor_def outb_def inb_def
      del: upt_rec_numeral)

lemma untouched_pic: "untouched s (pic_remap o1 o2 s)"
  by (simp add: untouched_def tty_inv_def kbd_ok_def pic_remap_def Let_def io_wait_def outb_def inb_def)

lemma gdt_install_returns: "\<exists>t. gdt_install g ts s = Inr t \<and> untouched s t"
  by (simp add: gdt_install_def gdt_set_gate_ok GDT_ENTRIES_def gdt_flush_def untouched_def tty_inv_def kbd_ok_def Let_def)

lemma tss_install_changes:
  assumes "tty_lock s = 0"
  shows "\<exists>t. tss_install k s = Inr t \<and> untouched s t"
proof -
  define msg where "msg = ''TSS installed. Kernel stack top: 0x%x'' @ [newline_char]"
  have "\<exists>u. tss_install k s = print msg [PInt k] u \<and> untouched s u"
    unfolding tss_install_def Let_def msg_def [symmetric] by (intro exI conjI, rule refl) (simp add: untouched_def tty_inv_def kbd_ok_def)
  then obtain u where u: "tss_install k s = print msg [PInt k] u" "untouched s u"
    by blast
  have "tty_lock u = 0" "render msg [PInt k] \<noteq> None"
    using u(2) assms by (simp_all add: untouched_def msg_def)
  from print_console [OF this] show ?thesis
    using u untouched_console untouched_trans by metis
qed

lemma idt_gates_only: "\<exists>E. fold (\<lambda>i. idt_set_gate (v i) (b i) sel fl) is s = s\<lparr>idt_entries := E\<rparr>"
proof (induction "is" arbitrary: s)
  case Nil
  show ?case
    by (intro exI [of _ "idt_entries s"]) simp
next
  case (Cons i "is")
  obtain E where "fold (\<lambda>i. idt_set_gate (v i) (b i) sel fl) is (idt_set_gate (v i) (b i) sel fl s) =
      (idt_set_gate (v i) (b i) sel fl s)\<lparr>idt_entries := E\<rparr>"
    using Cons by blast
  moreover have "(idt_set_gate (v i) (b i) sel fl s)\<lparr>idt_entries := E\<rparr> = s\<lparr>idt_entries := E\<rparr>"
    by (simp add: idt_set_gate_def)
  ultimately show ?case
    by (intro exI [of _ E]) simp
qed

lemma idt_gates_frame:
  fixes s :: "'a irq_scheme"
  defines "t \<equiv> \<lambda>v b sel fl is. fold (\<lambda>i. idt_set_gate (v i) (b i) sel fl) is s"
  shows "mem (t v b sel fl is) = mem s" "heap_current_end (t v b sel fl is) = heap_current_end s"
    "tty_lock (t v b sel fl is) = tty_lock s" "irq_routines (t v b sel fl is) = irq_routines s"
    "tty_inv (t v b sel fl is) = tty_inv s" "kbd_ok (t v b sel fl is) = kbd_ok s"
  using idt_gates_only [of v b sel fl "is" s] by (auto simp: t_def tty_inv_def kbd_ok_def)

lemma untouched_idt: "untouched s (idt_install isr irq isr128 idt_addr s)"
  unfolding idt_install_def Let_def
  by (simp add: untouched_def tty_inv_def kbd_ok_def idt_set_gate_def [of 128] idt_gates_frame
      idt_gates_frame(5) [unfolded tty_inv_def] idt_gates_frame(6) [unfolded kbd_ok_def] del: upt_rec_numeral)

lemma boot_devices_ok:
  fixes s :: "'a irq_scheme"
  assumes lock: "tty_lock s = 0" and keys: "keys_ok s"
  shows "\<exists>t. boot_devices ks magic s = Inr t \<and> mem t = mem s \<and> heap_current_end t = heap_current_end s \<and> tty_lock t = 0 \<and>
    tty_inv t \<and> keys_ok t"
proof -
  obtain a where a: "gdt_install (sym_gdt ks) (sym_tss ks) (terminal_initialize s) = Inr a"
    "untouched (terminal_initialize s) a"
    using gdt_install_returns by blast
  have inv_a: "tty_inv a"
    using a(2) by (simp add: untouched_def terminal_initialize_inv)
  have sa: "untouched s a"
    using untouched_terminal a(2) by (rule untouched_trans)
  then have "tty_lock a = 0"
    using lock by (simp add: untouched_def)
  then obtain b where b: "tss_install (sym_stack_top ks) a = Inr b" "untouched a b"
    using tss_install_changes by blast
  have sb: "untouched s b"
    using sa b(2) by (rule untouched_trans)
  let ?c = "idt_install (sym_isr ks) (sym_irq ks) (sym_isr128 ks) (sym_idt ks) (pic_remap 0x20 0x28 b)"
  have bc: "untouched b ?c"
    using untouched_pic untouched_idt by (rule untouched_trans)
  have c: "untouched s ?c"
    using sb bc by (rule untouched_trans)
  then have h: "irq_install_handler 1 Keyboard_handler ?c = Inr (?c\<lparr>irq_routines := (irq_routines s)[1 := Some Keyboard_handler]\<rparr>)"
    using keys by (simp add: irq_install_handler_def untouched_def keys_ok_def)
  define d where "d = ?c\<lparr>irq_routines := (irq_routines s)[1 := Some Keyboard_handler]\<rparr>"
  define msg where "msg = ''Keyboard driver installed. Typing enabled!'' @ [newline_char]"
  have ld: "tty_lock d = 0" "render msg [] \<noteq> None"
    using c lock by (simp_all add: d_def untouched_def msg_def)
  obtain e where e: "print msg [] d = Inr e" "console_change d e"
    using print_console [OF ld] by blast
  let ?f = "e\<lparr>interrupt_flag := True\<rparr>"
  have lf: "tty_lock ?f = 0" "render [newline_char] [] \<noteq> None"
    using e(2) ld(1) by (auto simp: console_change_def)
  obtain g where g: "print [newline_char] [] ?f = Inr g" "console_change ?f g"
    using print_console [OF lf] by blast
  define warn where "warn = ''Warning: Invalid Multiboot magic number: 0x%x'' @ [newline_char]"
  have lg: "tty_lock g = 0" "render warn [PInt magic] \<noteq> None"
    using g(2) lf(1) by (auto simp: console_change_def warn_def)
  have mem: "mem g = mem s" "heap_current_end g = heap_current_end s"
    using c e(2) g(2) by (auto simp: console_change_def d_def untouched_def)
  have "keys_ok g"
    using keys c e(2) g(2) by (auto simp: console_change_def d_def untouched_def keys_ok_def kbd_ok_def)
  moreover have "tty_inv ?c"
    using inv_a b(2) bc by (simp add: untouched_def)
  then have "tty_inv g"
    using e(2) g(2) by (auto simp: console_change_def d_def tty_inv_def)
  ultimately have inv_g: "tty_inv g" "keys_ok g"
    by simp_all
  obtain t where t: "(if magic \<noteq> MULTIBOOT_MAGIC then print warn [PInt magic] g else Inr g) = Inr t" "console_change g t"
    using print_console [OF lg] console_change_refl by (cases "magic = MULTIBOOT_MAGIC") auto
  have "boot_devices ks magic s = Inr t"
    using a(1) b(1) h e(1) g(1) t(1) unfolding boot_devices_def keyboard_install_def msg_def [symmetric] warn_def [symmetric]
    by (simp add: d_def [symmetric] del: One_nat_def)
  then show ?thesis
    using t(2) mem lg(1) inv_g by (intro exI [of _ t]) (auto simp: console_change_def keys_ok_def kbd_ok_def)
qed

section \<open>The RAM disk and the tasks\<close>

text \<open>A word of the boot information in reserved memory, and the RAM disk that the information describes.\<close>

definition word_reserved :: "symbols \<Rightarrow> region list \<Rightarrow> u32 \<Rightarrow> bool" where
  "word_reserved ks es p \<longleftrightarrow> list_all (\<lambda>k. reserved ks es (p + of_nat k)) [0..<4]"

definition boot_disk :: "symbols \<Rightarrow> region list \<Rightarrow> u32 \<Rightarrow> (string \<times> u8 list) list \<Rightarrow> 'a pmm_scheme \<Rightarrow> bool" where
  "boot_disk ks es mbi files s \<longleftrightarrow>
     (let mods = load32 (mem s) (mbi + mbi_mods_addr); loc = load32 (mem s) mods
      in bit (load32 (mem s) (mbi + mbi_flags)) 3 \<and> bit (load32 (mem s) (mbi + mbi_flags)) 6 \<and>
         word_reserved ks es (mbi + mbi_flags) \<and> word_reserved ks es (mbi + mbi_mods_addr) \<and> word_reserved ks es mods \<and>
         good_files files \<and> (\<exists>img. make_initrd files = Inr (Some img) \<and>
           list_all (\<lambda>k. reserved ks es (loc + of_nat k) \<and> mem s (loc + of_nat k) = img ! k) [0..<length img]))"

lemma boot_word_kept:
  fixes t :: "'a heap_scheme"
  assumes kept: "\<And>a. reserved ks es a \<Longrightarrow> kept_low t a \<and> mem t a = m a" and p: "word_reserved ks es p"
  shows "boot_word True p t = Inr (load32 m p)"
proof -
  have k: "reserved ks es (p + of_nat k)" if "k < 4" for k
    using p that by (simp add: word_reserved_def list_all_iff)
  have "load32 (mem t) p = load32 m p"
    using k kept by (intro load32_same) (auto simp: list_all_iff)
  with k [of 0] kept show ?thesis
    by (simp add: boot_word_def kept_low_load)
qed

lemma boot_files_ok:
  fixes t :: "'a fs_scheme"
  assumes kept: "\<And>a. reserved ks es a \<Longrightarrow> kept_low t a \<and> mem t a = m a" and mods: "word_reserved ks es mods"
    and img: "image_kept t (load32 m mods) files" and free: "heap_free t {} 2097136" and lock: "tty_lock t = 0"
    and inv: "tty_inv t" "keys_ok t" and room: "heap_room t r" and own: "owns_frames t U heap_start"
    and pages: "\<forall>k img. make_initrd files = Inr (Some img) \<longrightarrow> k < length img \<longrightarrow> page_no (load32 m mods + of_nat k) \<in> U"
  shows "\<exists>u B. boot_files True mods t = Inr u \<and> system_ok u files B \<and> heap_room u r"
proof -
  let ?loc = "load32 m mods"
  have n: "length files \<le> 64"
    using img by (simp add: image_kept_def good_files_def)
  then have "184 * length files + (2097136 - 232 - 184 * length files + 232) = 2097136"
    by simp
  with free have "heap_free t {} (184 * length files + (2097136 - 232 - 184 * length files + 232))"
    by simp
  from initialise_initrd_ok [OF image_kept_at [OF img] this] obtain v p B N M q where v: "initialise_initrd ?loc t = Inr (p, v)"
    "mounted v files" "initrd_root v = p" "heap_free v B (2097136 - 232 - 184 * length files)" "mem v = mem t"
    "cr3 v = cr3 t" "tty_lock v = tty_lock t" "initrd_header v = ?loc" "nodes_below v (length files)"
    "v = t\<lparr>nodes := N, fs_nodes := M, initrd_header := ?loc, file_headers := ?loc + 4, initrd_root := p,
       root_nodes := q, nroot_nodes := of_nat (length files)\<rparr>"
    by blast
  let ?w = "v\<lparr>fs_root := p\<rparr>"
  define msg where "msg = ''Initrd loaded at 0x%x'' @ [newline_char]"
  have lw: "tty_lock ?w = 0" "render msg [PInt ?loc] \<noteq> None"
    using v(7) lock by (simp_all add: msg_def)
  from print_console [OF this] obtain u where u: "print msg [PInt ?loc] ?w = Inr u" "console_change ?w u"
    by blast
  have vt: "heap_current_end v = heap_current_end t" "pmm_bitmap v = pmm_bitmap t" "pmm_max_blocks v = pmm_max_blocks t"
    by (simp_all add: v(10))
  have ok: "heap_ok v B"
    using v(4) by (rule heap_free_ok)
  have own_v: "owns_frames v (disk_pages v files) heap_start"
    using own owns_frames_less [of t U heap_start "disk_pages v files"] pages maps_kept_cong(3) [OF v(5,6) vt(2,3,1)]
    by (auto simp: disk_pages_def v(8))
  have img_v: "image_kept v (initrd_header v) files"
    using img v(5,6,8) vt kept_low_same [of v t] by (simp add: image_kept_def)
  have sys: "system_ok ?w files B"
  proof -
    have "maps_kept v ?w" "same_disk v ?w" "heap_same v ?w" "owns_frames ?w (disk_pages ?w files) heap_start"
      using maps_kept_cong(2) [of ?w v v] maps_kept_cong(3) [of ?w v] own_v by (simp_all add: same_disk_def heap_same_def disk_pages_def)
    moreover from this have "mounted ?w files"
      using mounted_kept [OF v(2,9) img_v] heap_ok_bounds [OF ok] by blast
    moreover have "image_kept ?w (initrd_header ?w) files" "nodes_below ?w (length files)" "tty_inv ?w" "keys_ok ?w"
      using img_v kept_low_same [of ?w v] v(9) inv by (simp_all add: image_kept_def nodes_below_def root_node_def v(10) tty_inv_def keys_ok_def kbd_ok_def)
    ultimately show ?thesis
      using lw(1) ok heap_same_ok(1) [of v ?w] v(3) by (simp add: system_ok_def)
  qed
  have same: "heap_same ?w u" and disk: "same_disk ?w u" "fs_root u = fs_root ?w"
    using u(2) by (auto simp: console_change_def heap_same_def same_disk_def)
  note hs = same [unfolded heap_same_def]
  have kept_w: "maps_kept ?w u"
    using maps_kept_cong(2) [of u ?w ?w] hs by simp
  have heap_u: "heap_ok u B" "tty_lock u = 0" "tty_inv u" "keys_ok u"
    using sys u(2) heap_same_ok(1) [OF same] console_change_heap(4) [OF u(2)]
    unfolding system_ok_def console_change_def keys_ok_def kbd_ok_def by auto
  have "heap_room u r"
    using room v(5,6) vt heap_same_ok(2) [OF same] by (simp add: heap_room_def free_pages_def mmap_test_def)
  moreover have "boot_files True mods t = Inr u"
  proof -
    have word: "boot_word True mods t = Inr ?loc"
      using kept mods by (rule boot_word_kept)
    then have "boot_word True mods v = Inr ?loc"
      using v(5,6) by (simp add: boot_word_def vload32_def split: option.splits)
    with word show ?thesis
      using v(1) u(1) by (simp add: boot_files_def msg_def)
  qed
  moreover have "system_ok u files B"
    using sys kept_w disk heap_u by (rule system_kept)
  ultimately show ?thesis
    by blast
qed

section \<open>The whole start\<close>

lemma boot_map_mem: "mem t = mem s \<Longrightarrow> boot_map ks addr len es r t = boot_map ks addr len es r s"
  by (simp add: boot_map_def)

lemma console_change_queue:
  fixes s t :: "'a task_scheme"
  assumes "console_change s t"
  shows "queue t ts k = queue s ts k" "saved t p = saved s p" "task.more t = task.more s"
proof -
  have "heap_same s t" "tasks t = tasks s" "ready_queue t = ready_queue s" "current_task t = current_task s"
    "stack_words t = stack_words s"
    using assms by (auto simp: console_change_def heap_same_def)
  then show "queue t ts k = queue s ts k" "saved t p = saved s p"
    using heap_same_ok(3) [of s t] by (simp_all add: queue_def saved_def)
  show "task.more t = task.more s"
    using assms by (auto simp: console_change_def)
qed

text \<open>The two tasks, started on a heap, leave the rest of the state as it is.\<close>

lemma two_tasks_ok:
  fixes s :: "'a task_scheme"
  assumes ok: "heap_ok s A" and room: "heap_room s (r + 4)" and lock: "tty_lock s = 0"
  shows "\<exists>u t p q B. tasking_init s = Inr u \<and> task_create start u = Inr t \<and> queue t [p, q] 0 \<and>
    saved t q = [0, 0, 0, 0, start] \<and> heap_ok t B \<and> heap_room t r \<and> tty_lock t = 0 \<and> maps_kept s t \<and> task.more t = task.more s \<and>
    owned B [p, q] \<and> (tty_inv s \<longrightarrow> tty_inv t) \<and> kbd_ok t = kbd_ok s"
proof -
  have "heap_room s (r + 3 + 1)"
    using room by (simp add: eval_nat_numeral)
  from tasking_init_ok [OF ok this lock] obtain u p m where u: "tasking_init s = Inr u" "queue u [p] 0"
    "heap_ok u (insert (unat p, m) A)" "20 \<le> m" "heap_room u (r + 3)" "tty_lock u = 0" "maps_kept s u" "task.more u = task.more s"
    "tty_inv s \<longrightarrow> tty_inv u" "kbd_ok u = kbd_ok s"
    by blast
  have own: "owned (insert (unat p, m) A) [p]"
    using u(4) by (auto simp: owned_def)
  from task_create_ok [OF u(3,5,6,2) own, of start] obtain t q n st k where t: "task_create start u = Inr t"
    "queue t [p, q] (if (0 :: nat) = 0 then 0 else Suc 0)"
    "heap_ok t (insert (unat st, k) (insert (unat q, n) (insert (unat p, m) A)))" "20 \<le> n" "4096 \<le> k" "heap_room t r"
    "tty_lock t = 0" "q \<notin> set [p]" "(unat q, n) \<notin> insert (unat p, m) A"
    "(unat st, k) \<notin> insert (unat q, n) (insert (unat p, m) A)" "unat st mod 8 = 0"
    "tasks t = (tasks u)(q := (tasks u q)\<lparr>task_id := next_tid u, kstack_bottom := st,
      task_esp := st + 4096 - 20, task_next := task_next (tasks u p)\<rparr>, p := (tasks u p)\<lparr>task_next := q\<rparr>)"
    "saved t q = [0, 0, 0, 0, start]" "next_tid t = next_tid u + 1"
    "\<forall>a. a \<notin> set (frame_words (st + 4096 - 20)) \<longrightarrow> stack_words t a = stack_words u a"
    "registers t = registers u" "reg_esp t = reg_esp u" "maps_kept u t" "task.more t = task.more u" "tty_inv u \<longrightarrow> tty_inv t"
    "kbd_ok t = kbd_ok u"
    by (elim exE conjE)
  let ?B = "insert (unat st, k) (insert (unat q, n) (insert (unat p, m) A))"
  have "owned ?B [p, q]"
    using u(4) t(4) by (auto simp: owned_def)
  moreover have "queue t [p, q] 0"
    using t(2) by simp
  moreover have "task.more t = task.more s" "tty_inv s \<longrightarrow> tty_inv t" "kbd_ok t = kbd_ok s"
    using t(19,20,21) u(8,9,10) by simp_all
  ultimately show ?thesis
    using u(1) t(1,3,6,7,13) maps_kept_trans [OF u(7) t(18)] by blast
qed

lemma kernel_boot_ok:
  fixes s :: "'a fs_scheme"
  assumes lock: "tty_lock s = 0" and keys: "keys_ok s" and end_: "heap_current_end s = KHEAP_START"
    and map: "boot_map ks (load32 (mem s) (mbi + mbi_mmap_addr)) (load32 (mem s) (mbi + mbi_mmap_length)) es (r + 4) s"
    and disk: "boot_disk ks es mbi files s"
  shows "\<exists>t p q B. kernel_boot ks magic mbi s = Inr t \<and> in_order t files B [p, q] 0 \<and>
    saved t q = [0, 0, 0, 0, sym_user_mode_proxy ks] \<and> heap_room t r"
proof -
  let ?ma = "load32 (mem s) (mbi + mbi_mmap_addr)" and ?ml = "load32 (mem s) (mbi + mbi_mmap_length)"
  let ?mods = "load32 (mem s) (mbi + mbi_mods_addr)"
  let ?loc = "load32 (mem s) ?mods"
  let ?U = "{page_no a | a. reserved ks es a}"
  note d = disk [unfolded boot_disk_def Let_def]
  obtain a where a: "boot_devices ks magic s = Inr a" "mem a = mem s" "heap_current_end a = KHEAP_START" "tty_lock a = 0"
    "tty_inv a" "keys_ok a"
    using boot_devices_ok [OF lock keys] end_ by metis
  have map_a: "boot_map ks ?ma ?ml es (r + 4) a"
    using map by (simp add: boot_map_mem [OF a(2)])
  obtain b where b: "boot_memory ks ?ma ?ml a = Inr b" "heap_ok b {}" "heap_room b (r + 4)" "heap_free b {} 2097136"
    "tty_lock b = 0" "\<And>x. reserved ks es x \<Longrightarrow> kept_low b x \<and> mem b x = mem s x" "owns_frames b ?U heap_start"
    "tty_inv b" "kbd_ok b = kbd_ok a" "heap.more b = heap.more a"
    using boot_memory_ok [OF map_a a(4,3)] a(5) unfolding a(2) by blast
  have keys_b: "keys_ok b"
    using a(6) b(9,10) by (cases a; cases b) (simp add: keys_ok_def)
  note word = boot_word_kept [OF b(6)]
  have img: "image_kept b ?loc files"
    using d b(6) by (fastforce simp: image_kept_def list_all_iff)
  have mods: "word_reserved ks es ?mods"
    using d by blast
  have pages: "\<forall>k img. make_initrd files = Inr (Some img) \<longrightarrow> k < length img \<longrightarrow> page_no (?loc + of_nat k) \<in> ?U"
    using d by (auto simp: list_all_iff)
  obtain c B where c: "boot_files True ?mods b = Inr c" "system_ok c files B" "heap_room c (r + 4)"
    using boot_files_ok [OF b(6) mods img b(4,5,8) keys_b b(3,7) pages] by blast
  have "heap_ok c B" "tty_lock c = 0" and inv_c: "tty_inv c" and keys_c: "keys_ok c"
    using c(2) by (simp_all add: system_ok_def)
  then obtain u v p q C where v: "tasking_init c = Inr u" "task_create (sym_user_mode_proxy ks) u = Inr v" "queue v [p, q] 0"
    "saved v q = [0, 0, 0, 0, sym_user_mode_proxy ks]" "heap_ok v C" "heap_room v r" "tty_lock v = 0" "maps_kept c v"
    "task.more v = task.more c" "owned C [p, q]" "tty_inv v" "kbd_ok v = kbd_ok c"
    using two_tasks_ok [of c B r "sym_user_mode_proxy ks"] c(3) by blast
  define ls where "ls = [[newline_char], ''Hello, welcome to KevOS!'' @ [newline_char]]"
  have "list_all plain ls"
    by (simp add: ls_def plain_def)
  then obtain t where t: "print_lines ls v = Inr t" "console_change v t"
    using print_lines_returns [OF v(7)] by blast
  have more: "task.more t = task.more c"
    using console_change_queue(3) [OF t(2)] v(9) by simp
  have kept: "maps_kept c t"
    using v(8) t(2) maps_kept_cong(2) [of t v c] by (auto simp: console_change_def)
  have heap: "heap_ok t C" "tty_lock t = 0" "tty_inv t"
    using v(5,7,11) console_change_heap [OF t(2)] t(2) by (simp_all add: console_change_def)
  have "irq_routines t = irq_routines c"
    using more by (cases t; cases c; simp)
  moreover have "kbd_ok t = kbd_ok c"
    using v(12) t(2) by (auto simp: console_change_def kbd_ok_def)
  ultimately have "keys_ok t"
    using keys_c by (simp add: keys_ok_def)
  with c(2) kept same_disk_more [OF more] heap have "system_ok t files C"
    by (rule system_kept)
  then have "in_order t files C [p, q] 0"
    using v(3,10) console_change_queue(1) [OF t(2)] by (simp add: in_order_def)
  moreover have "kernel_boot ks magic mbi s = Inr t"
    using a(1,2) b(1) word c(1) v(1,2) t(1) d
    unfolding kernel_boot_def ls_def [symmetric] by (simp add: Let_def)
  ultimately show ?thesis
    using v(4,6) console_change_queue(2) [OF t(2)] console_change_heap [OF t(2)]
    by (intro exI [of _ t] exI [of _ p] exI [of _ q] exI [of _ C]) simp
qed

text \<open>The kernel from power on, through any number of rounds of the shell.\<close>

lemma kernel_main_ok:
  fixes s :: "'a fs_scheme"
  assumes "tty_lock s = 0" "keys_ok s" "heap_current_end s = KHEAP_START"
    and "boot_map ks (load32 (mem s) (mbi + mbi_mmap_addr)) (load32 (mem s) (mbi + mbi_mmap_length)) es 1031 s"
    and "boot_disk ks es mbi files s" and irqs: "list_all device_irq rs"
  shows "\<exists>p q B. ends (session_ok files B [p, q] 0) (kernel_main n ret ks magic mbi (rs, s))"
proof -
  have "boot_map ks (load32 (mem s) (mbi + mbi_mmap_addr)) (load32 (mem s) (mbi + mbi_mmap_length)) es (1027 + 4) s"
    using assms(4) by simp
  from kernel_boot_ok [OF assms(1-3) this assms(5)] obtain t p q B where t: "kernel_boot ks magic mbi s = Inr t"
    "in_order t files B [p, q] 0" "heap_room t 1027"
    by blast
  have "session_ok files B [p, q] 0 (rs, t)"
    using t(2,3) irqs by (simp add: session_ok_def spare_def)
  from shell_main_goes_on [OF this] t(1) show ?thesis
    by (intro exI [of _ p] exI [of _ q] exI [of _ B]) (simp add: kernel_main_def)
qed

section \<open>A machine to start\<close>

text \<open>
  A machine with 16 MB of memory whose map offers the first 636 KB and everything above 1 MB. The
  page between them, \<^verbatim>\<open>0x9F000\<close>, holds the boot information, the list of modules, the memory map
  and the image of the RAM disk \<open>disk\<close>. Nothing in this section models further code.
\<close>

definition pc_words :: memory where
  "pc_words = (\<lambda>_. 0)(0x9F000 := 0x48, 0x9F019 := 0xF1, 0x9F01A := 0x09, 0x9F02C := 0x30, 0x9F031 := 0xF2, 0x9F032 := 0x09,
     0x9F101 := 0xF4, 0x9F102 := 0x09,
     0x9F200 := 20, 0x9F20D := 0xF0, 0x9F20E := 0x09, 0x9F214 := 1,
     0x9F218 := 20, 0x9F21E := 0x10, 0x9F226 := 0xF0, 0x9F22C := 1)"

definition pc_memory :: memory where
  "pc_memory = (\<lambda>a. if 0x9F400 \<le> unat a \<and> unat a < 0x9F400 + length disk_image then disk_image ! (unat a - 0x9F400)
     else pc_words a)"

definition pc :: fs where
  "pc = (irq.extend boot_irq (fs.fields (\<lambda>_. dir_node) 0 0 0 0 0 0 \<lparr>d_name = [], d_ino = 0\<rparr>))\<lparr>mem := pc_memory\<rparr>"

definition pc_map :: "region list" where
  "pc_map = [(0, 0x9F000, MULTIBOOT_MEMORY_AVAILABLE), (0x100000, 0xF00000, MULTIBOOT_MEMORY_AVAILABLE)]"

definition pc_symbols :: symbols where
  "pc_symbols = \<lparr>sym_gdt = 0xC0110000, sym_tss = 0xC0110100, sym_isr = (\<lambda>i. 0xC0120000 + of_nat (16 * i)),
     sym_irq = (\<lambda>i. 0xC0121000 + of_nat (16 * i)), sym_isr128 = 0xC0122000, sym_idt = 0xC0112000,
     sym_stack_top = 0xC0104000, sym_kernel_start = 0xC0100000, sym_kernel_end = 0xC0180000,
     sym_user_mode_proxy = 0xC0130000\<rparr>"

lemma with_irq_end: "heap_current_end (with_irq s rs) = heap_current_end s"
  by (simp add: with_irq_def irq.defs task.defs)

lemma pc_simps [simp]: "mem pc = pc_memory" "tty_lock pc = 0" "heap_current_end pc = KHEAP_START" "length (irq_routines pc) = 16"
  by (simp_all add: pc_def irq.defs fs.defs boot_irq_def no_routines_def with_irq_end)

lemma pc_keys: "keys_ok pc"
proof -
  have "kbd_ok pc"
    by (simp add: kbd_ok_def pc_def irq.defs fs.defs boot_irq_def with_irq_def task.defs boot_task_def heap.defs boot_heap_def boot_vmm_def
      boot_pmm_def boot_idt_def boot_cpu_def boot_kbd_def boot_tty_def boot_hw_def hw.defs tty.defs kbd.defs cpu.defs
      idt.defs pmm.defs vmm.defs)
  then show ?thesis
    by (simp add: keys_ok_def)
qed

lemma pc_load:
  assumes "unat p + 4 \<le> 0x9F400"
  shows "load32 pc_memory p = load32 pc_words p"
proof (rule load32_same)
  have "unat (p + of_nat k) = unat p + k" if "k < 4" for k
    using that assms by (simp add: unat_add_small unat_of_nat_small)
  then show "list_all (\<lambda>k. pc_memory (p + of_nat k) = pc_words (p + of_nat k)) [0..<4]"
    using assms by (simp add: list_all_iff pc_memory_def)
qed

lemma pc_words_read:
  "load32 pc_memory 0x9F000 = 0x48" "load32 pc_memory 0x9F018 = 0x9F100" "load32 pc_memory 0x9F02C = 48"
  "load32 pc_memory 0x9F030 = 0x9F200" "load32 pc_memory 0x9F100 = 0x9F400"
  "load32 pc_memory 0x9F200 = 20" "load32 pc_memory 0x9F204 = 0" "load32 pc_memory 0x9F208 = 0"
  "load32 pc_memory 0x9F20C = 0x9F000" "load32 pc_memory 0x9F210 = 0" "load32 pc_memory 0x9F214 = 1"
  "load32 pc_memory 0x9F218 = 20" "load32 pc_memory 0x9F21C = 0x100000" "load32 pc_memory 0x9F220 = 0"
  "load32 pc_memory 0x9F224 = 0xF00000" "load32 pc_memory 0x9F228 = 0" "load32 pc_memory 0x9F22C = 1"
  by (simp_all add: pc_load) (simp_all add: load32_def pc_words_def)

lemma pc_reserved:
  assumes "0x9F000 \<le> unat a" "unat a < 0xA0000"
  shows "reserved pc_symbols pc_map a"
proof -
  have "page_no a = 159"
    unfolding page_no_def using assms by (intro div_nat_eqI) simp_all
  moreover have "159 \<in> boot_used pc_symbols pc_map"
    by (simp add: boot_used_def pc_map_def memory_end_def MULTIBOOT_MEMORY_AVAILABLE_def)
  moreover have "unat b < 655360" if "page_no b = 159" for b
    using that unfolding page_no_def by linarith
  then have "\<not> boot_bitmap pc_symbols pc_map b" if "page_no b = 159" for b
    using that by (fastforce simp: boot_bitmap_def in_range_def pc_symbols_def KERNEL_VIRT_BASE_def)
  ultimately show ?thesis
    using assms by (simp add: reserved_def)
qed

lemma pc_sizes: "memory_end pc_map = 16777216" "bitmap_size pc_map = 512"
  by (simp_all add: pc_map_def memory_end_def bitmap_size_def MULTIBOOT_MEMORY_AVAILABLE_def)

lemma pc_free: "boot_free pc_symbols pc_map = {..<159} \<union> {385..<4096}"
proof -
  have "(\<forall>r \<in> set pc_map. i \<notin> available r) \<longleftrightarrow> 159 \<le> i \<and> (i < 256 \<or> 4096 \<le> i)" for i
    by (auto simp: pc_map_def MULTIBOOT_MEMORY_AVAILABLE_def)
  moreover have "unat (sym_kernel_start pc_symbols - KERNEL_VIRT_BASE) = 1048576"
    "unat (sym_kernel_end pc_symbols - KERNEL_VIRT_BASE) = 1572864"
    by (simp_all add: pc_symbols_def KERNEL_VIRT_BASE_def)
  ultimately have "i \<in> boot_free pc_symbols pc_map \<longleftrightarrow>
      i < 4096 \<and> \<not> (159 \<le> i \<and> (i < 256 \<or> 4096 \<le> i) \<or> 256 \<le> i \<and> i * 4096 < 1573376)" for i
    by (auto simp: boot_free_def boot_used_def pc_sizes)
  also have "\<dots> i \<longleftrightarrow> i \<in> {..<159} \<union> {385..<4096}" for i
    by auto
  finally show ?thesis
    by blast
qed

lemma pc_disk: "boot_disk pc_symbols pc_map 0x9F000 disk pc"
proof -
  have near: "unat (p + of_nat k) = unat p + k" if "unat p < 0x9F400 + 1" "k < 0x100" for p :: u32 and k
    using that by (simp add: unat_add_small unat_of_nat_small)
  have "word_reserved pc_symbols pc_map p" if "0x9F000 \<le> unat p" "unat p < 0x9F400" for p
    using that near [of p] by (auto simp: word_reserved_def list_all_iff intro!: pc_reserved)
  moreover have "list_all (\<lambda>k. reserved pc_symbols pc_map (0x9F400 + of_nat k) \<and>
      pc_memory (0x9F400 + of_nat k) = disk_image ! k) [0..<length disk_image]"
    using near [of "0x9F400"] disk_image(3) by (auto simp: list_all_iff pc_memory_def intro!: pc_reserved)
  moreover have "bit (0x48 :: u32) 3" "bit (0x48 :: u32) 6"
    by simp_all
  ultimately show ?thesis
    using disk_image(1,2) by (simp add: boot_disk_def Let_def mbi_flags_def mbi_mods_addr_def pc_words_read)
qed

lemma pc_map_read: "mmap_at (boot_bitmap pc_symbols pc_map) pc_memory 0x9F230 0x9F200 pc_map"
proof -
  have "unat (p + of_nat k) = unat p + k" if "unat p < 0x9F400" "k < 24" for p :: u32 and k
    using that by (simp add: unat_add_small unat_of_nat_small)
  then have "\<forall>k < 24. \<not> boot_bitmap pc_symbols pc_map (p + of_nat k)" if "unat p < 0x9F400" for p
    using that by (auto simp: boot_bitmap_def in_range_def pc_symbols_def KERNEL_VIRT_BASE_def)
  then show ?thesis
    by (simp add: pc_map_def [unfolded MULTIBOOT_MEMORY_AVAILABLE_def] entry_addr_def entry_len_def entry_type_def
        entry_size_def load64_def pc_words_read)
qed

lemma pc_boot_map: "boot_map pc_symbols 0x9F200 48 pc_map 1422 pc"
proof -
  have "boot_free pc_symbols pc_map \<inter> {..<1024} = {..<159} \<union> {385..<1024}"
    unfolding pc_free by auto
  moreover have "card ({..<159} \<union> {385..<n :: nat}) = 159 + (n - 385)" for n
    by (subst card_Un_disjoint) auto
  ultimately have "card (boot_free pc_symbols pc_map \<inter> {..<1024}) = 798" "card (boot_free pc_symbols pc_map) = 3870"
    by (simp_all add: pc_free)
  moreover have "\<forall>x \<in> set pc_map. region_low x"
    by (simp add: pc_map_def)
  ultimately show ?thesis
    using pc_map_read by (simp add: boot_map_def pc_sizes pc_symbols_def KERNEL_VIRT_BASE_def heap_bounds)
qed

text \<open>The machine after its start.\<close>

lemma pc_boot_map_at:
  "boot_map pc_symbols (load32 (mem pc) (0x9F000 + mbi_mmap_addr)) (load32 (mem pc) (0x9F000 + mbi_mmap_length)) pc_map 1422 pc"
  using pc_boot_map by (simp add: mbi_mmap_addr_def mbi_mmap_length_def pc_words_read)

lemma boot_map_less:
  assumes "boot_map ks addr len es (r + d) s"
  shows "boot_map ks addr len es r s"
proof -
  have "2 * (r + 512) + 2 \<le> card (boot_free ks es)" "4096 * (r + 512) \<le> heap_limit - heap_start"
    using assms by (simp_all add: boot_map_def)
  then show ?thesis
    using assms unfolding boot_map_def by blast
qed

lemma pc_booted:
  obtains t p q B where "kernel_boot pc_symbols MULTIBOOT_MAGIC 0x9F000 pc = Inr t" "in_order t disk B [p, q] 0" "spare t B"
proof -
  have "boot_map pc_symbols (load32 (mem pc) (0x9F000 + mbi_mmap_addr)) (load32 (mem pc) (0x9F000 + mbi_mmap_length)) pc_map (1027 + 4) pc"
    using pc_boot_map_at boot_map_less [of pc_symbols _ _ pc_map "1027 + 4" 391] by simp
  from kernel_boot_ok [OF _ pc_keys _ this pc_disk, of MULTIBOOT_MAGIC] show thesis
    using that by (auto simp: spare_def)
qed

end
